(* ===== verification/Prelude.thy ===== *)
theory Prelude
  imports Main "HOL-Library.Char_ord" "HOL-Library.List_Lexorder" "HOL-Library.AList"
begin

text \<open>
  What every component of the model shares: Python's strings, its exceptions as values,
  its insertion-ordered dictionaries and its ordered sets of string keys.

  \<^item> A Python \<open>str\<close> is a sequence of Unicode code points, so the model's \<open>str\<close>
    is a list of natural numbers; \<open>lit ''abc''\<close> is the literal of the source. Python
    compares strings code point by code point, which is the lexicographic order that
    \<^theory_text>\<open>HOL-Library.List_Lexorder\<close> puts on lists.
  \<^item> A call that may raise returns \<open>exn + 'a\<close>: \<open>Inl\<close> is the exception that leaves
    the call, \<open>Inr\<close> the value it returns.
  \<^item> A \<open>dict\<close> keeps the order of insertion and overwrites in place, as
    \<^const>\<open>AList.update\<close> does on association lists.
\<close>

subsection \<open>Strings\<close>

type_synonym str = "nat list"

definition lit :: "string \<Rightarrow> str" where
  "lit s = map of_char s"

lemma lit_inject [simp]: "lit a = lit b \<longleftrightarrow> a = b"
proof
  assume "lit a = lit b"
  then have "map (char_of :: nat \<Rightarrow> char) (lit a) = map char_of (lit b)" by simp
  then show "a = b" by (simp add: lit_def comp_def)
qed simp

lemma lit_Nil [simp]: "lit [] = []"
  by (simp add: lit_def)

lemma lit_Cons: "lit (c # cs) = of_char c # lit cs"
  by (simp add: lit_def)

lemma lit_append: "lit (a @ b) = lit a @ lit b"
  by (simp add: lit_def)

lemma length_lit [simp]: "length (lit s) = length s"
  by (simp add: lit_def)

lemma lit_eq_Nil [simp]: "lit s = [] \<longleftrightarrow> s = []" "[] = lit s \<longleftrightarrow> s = []"
  by (simp_all add: lit_def)

lemma set_lit: "set (lit s) = of_char ` set s"
  by (simp add: lit_def)

text \<open>\<open>sep.join(parts)\<close>.\<close>

fun join :: "str \<Rightarrow> str list \<Rightarrow> str" where
  "join sep [] = []"
| "join sep [p] = p"
| "join sep (p # q # ps) = p @ sep @ join sep (q # ps)"

lemma join_Cons: "ps \<noteq> [] \<Longrightarrow> join sep (p # ps) = p @ sep @ join sep ps"
  by (cases ps) auto

text \<open>
  Splitting at a single separator: a string that does not hold the separator is determined
  by what stands before the first occurrence of it.
\<close>

lemma sep_append_inject:
  assumes "c \<notin> set xs" and "c \<notin> set ys"
  shows "xs @ c # us = ys @ c # vs \<longleftrightarrow> xs = ys \<and> us = vs"
  using assms by (induction xs arbitrary: ys) (case_tac ys; auto)+

lemma join_inject:
  assumes "length xs = length ys"
    and "\<And>x. x \<in> set xs \<Longrightarrow> c \<notin> set x" and "\<And>y. y \<in> set ys \<Longrightarrow> c \<notin> set y"
    and "join [c] xs = join [c] ys"
  shows "xs = ys"
  using assms
proof (induction xs ys rule: list_induct2)
  case (Cons x xs y ys)
  show ?case
  proof (cases "xs = []")
    case True
    with Cons.hyps Cons.prems(3) show ?thesis by simp
  next
    case False
    with Cons.hyps have "ys \<noteq> []" by auto
    with False Cons.prems(3) have "x @ c # join [c] xs = y @ c # join [c] ys"
      by (simp add: join_Cons)
    with Cons.prems(1,2) have "x = y" and "join [c] xs = join [c] ys"
      by (simp_all add: sep_append_inject)
    with Cons.IH Cons.prems(1,2) show ?thesis by simp
  qed
qed simp

subsection \<open>Exceptions\<close>

text \<open>
  The exception classes the program raises itself (with the message where the program
  reads it back) and those of the interpreter and of pydantic that its calls can raise.
\<close>

datatype exn =
    AssetNotFound str
  | TokenError str
  | LedgerError str
  | AdmissionError str
  | ValueError str
  | KeyError str
  | PermissionError str
  | RuntimeError str
  | FileExistsError str
  | FileNotFoundError str
  | NotADirectoryError str
  | TypeError
  | IndexError
  | AttributeError
  | AssertionError
  | OverflowError
  | JSONDecodeError
  | UnicodeDecodeError
  | UnicodeEncodeError
  | ValidationError

text \<open>\<open>type(exc).__name__\<close>.\<close>

fun exn_name :: "exn \<Rightarrow> str" where
  "exn_name (AssetNotFound _) = lit ''AssetNotFound''"
| "exn_name (TokenError _) = lit ''TokenError''"
| "exn_name (LedgerError _) = lit ''LedgerError''"
| "exn_name (AdmissionError _) = lit ''AdmissionError''"
| "exn_name (ValueError _) = lit ''ValueError''"
| "exn_name (KeyError _) = lit ''KeyError''"
| "exn_name (PermissionError _) = lit ''PermissionError''"
| "exn_name (RuntimeError _) = lit ''RuntimeError''"
| "exn_name (FileExistsError _) = lit ''FileExistsError''"
| "exn_name (FileNotFoundError _) = lit ''FileNotFoundError''"
| "exn_name (NotADirectoryError _) = lit ''NotADirectoryError''"
| "exn_name TypeError = lit ''TypeError''"
| "exn_name IndexError = lit ''IndexError''"
| "exn_name AttributeError = lit ''AttributeError''"
| "exn_name AssertionError = lit ''AssertionError''"
| "exn_name OverflowError = lit ''OverflowError''"
| "exn_name JSONDecodeError = lit ''JSONDecodeError''"
| "exn_name UnicodeDecodeError = lit ''UnicodeDecodeError''"
| "exn_name UnicodeEncodeError = lit ''UnicodeEncodeError''"
| "exn_name ValidationError = lit ''ValidationError''"

lemma exn_name_short: "length (exn_name e) \<le> 18"
  by (cases e) simp_all

text \<open>The classes below \<open>ValueError\<close> in Python's hierarchy.\<close>

fun is_ValueError :: "exn \<Rightarrow> bool" where
  "is_ValueError (ValueError _) = True"
| "is_ValueError JSONDecodeError = True"
| "is_ValueError UnicodeDecodeError = True"
| "is_ValueError UnicodeEncodeError = True"
| "is_ValueError ValidationError = True"
| "is_ValueError _ = False"

fun is_KeyError :: "exn \<Rightarrow> bool" where
  "is_KeyError (KeyError _) = True"
| "is_KeyError _ = False"

fun is_TokenError :: "exn \<Rightarrow> bool" where
  "is_TokenError (TokenError _) = True"
| "is_TokenError _ = False"

text \<open>Sequencing of calls that may raise.\<close>

definition andthen :: "exn + 'a \<Rightarrow> ('a \<Rightarrow> exn + 'b) \<Rightarrow> exn + 'b" where
  "andthen r f = (case r of Inl e \<Rightarrow> Inl e | Inr x \<Rightarrow> f x)"

lemma andthen_simps [simp]: "andthen (Inl e) f = Inl e" "andthen (Inr x) f = f x"
  by (simp_all add: andthen_def)

lemma andthen_eq_Inr: "andthen r f = Inr y \<longleftrightarrow> (\<exists>x. r = Inr x \<and> f x = Inr y)"
  by (cases r) auto

lemma andthen_eq_Inl:
  "andthen r f = Inl e \<longleftrightarrow> r = Inl e \<or> (\<exists>x. r = Inr x \<and> f x = Inl e)"
  by (cases r) auto

text \<open>Every exception that a call can raise satisfies \<open>P\<close>.\<close>

definition raises_only :: "(exn \<Rightarrow> bool) \<Rightarrow> exn + 'a \<Rightarrow> bool" where
  "raises_only P r \<longleftrightarrow> (\<forall>e. r = Inl e \<longrightarrow> P e)"

named_theorems raises_intros

lemma raises_Inr [simp, raises_intros]: "raises_only P (Inr x)"
  by (simp add: raises_only_def)

lemma raises_Inl [simp]: "raises_only P (Inl e) = P e"
  by (simp add: raises_only_def)

lemma raises_andthen [raises_intros]:
  "raises_only P r \<Longrightarrow> (\<And>x. r = Inr x \<Longrightarrow> raises_only P (f x)) \<Longrightarrow> raises_only P (andthen r f)"
  by (cases r) auto

lemma raises_if [raises_intros]:
  "(b \<Longrightarrow> raises_only P r) \<Longrightarrow> (\<not> b \<Longrightarrow> raises_only P q) \<Longrightarrow> raises_only P (if b then r else q)"
  by simp

lemma raises_onlyD: "raises_only P r \<Longrightarrow> r = Inl e \<Longrightarrow> P e"
  by simp

lemma raises_mono: "raises_only P r \<Longrightarrow> (\<And>e. P e \<Longrightarrow> Q e) \<Longrightarrow> raises_only Q r"
  by (simp add: raises_only_def)

subsection \<open>Dictionaries\<close>

type_synonym ('k, 'v) dict = "('k \<times> 'v) list"

abbreviation dput :: "('k, 'v) dict \<Rightarrow> 'k \<Rightarrow> 'v \<Rightarrow> ('k, 'v) dict" where
  "dput d k v \<equiv> AList.update k v d"

abbreviation dget :: "('k, 'v) dict \<Rightarrow> 'k \<Rightarrow> 'v option" where
  "dget d k \<equiv> map_of d k"

abbreviation ddel :: "('k, 'v) dict \<Rightarrow> 'k \<Rightarrow> ('k, 'v) dict" where
  "ddel d k \<equiv> AList.delete k d"

abbreviation dkeys :: "('k, 'v) dict \<Rightarrow> 'k list" where
  "dkeys d \<equiv> map fst d"

abbreviation dvals :: "('k, 'v) dict \<Rightarrow> 'v list" where
  "dvals d \<equiv> map snd d"

text \<open>What a dict of Python is: no key stands twice.\<close>

definition wf_dict :: "('k, 'v) dict \<Rightarrow> bool" where
  "wf_dict d \<longleftrightarrow> distinct (dkeys d)"

named_theorems dict_simps

lemma dget_dput [dict_simps]: "dget (dput d k v) k' = (if k' = k then Some v else dget d k')"
  by (simp add: update_conv')

lemma dget_ddel [dict_simps]: "dget (ddel d k) k' = (if k' = k then None else dget d k')"
  by (simp add: delete_conv')

lemma dput_fresh: "dget d k = None \<Longrightarrow> dput d k v = d @ [(k, v)]"
  by (induction d) (auto split: if_splits)

lemma wf_dict_Nil [simp]: "wf_dict []"
  by (simp add: wf_dict_def)

lemma wf_dict_dput [simp]: "wf_dict d \<Longrightarrow> wf_dict (dput d k v)"
  by (simp add: wf_dict_def distinct_update)

lemma wf_dict_ddel [simp]: "wf_dict d \<Longrightarrow> wf_dict (ddel d k)"
  by (simp add: wf_dict_def distinct_delete)

lemma dget_eq_None [dict_simps]: "dget d k = None \<longleftrightarrow> k \<notin> set (dkeys d)"
  by (induction d) auto

lemma dget_Some_iff: "wf_dict d \<Longrightarrow> dget d k = Some v \<longleftrightarrow> (k, v) \<in> set d"
  by (auto simp: wf_dict_def)

lemma dget_in_dvals: "dget d k = Some v \<Longrightarrow> v \<in> set (dvals d)"
  by (auto dest!: map_of_SomeD intro: rev_image_eqI)

lemma in_dvalsE:
  assumes "wf_dict d" and "v \<in> set (dvals d)"
  obtains k where "dget d k = Some v"
  using assms by (auto simp: wf_dict_def)

subsection \<open>Sorting by a key\<close>

lemma sort_key_filter: "sort_key f (filter P xs) = filter P (sort_key f xs)"
  by (simp add: filter_sort)

lemma sorted_distinct_sort_unique:
  fixes xs ys :: "'a::linorder list"
  assumes "distinct xs" and "sorted ys" and "distinct ys" and "set ys = set xs"
  shows "sort xs = ys"
  using assms by (metis sorted_list_of_set.idem_if_sorted_distinct sorted_list_of_set_sort_remdups distinct_remdups_id)

subsection \<open>Optional values\<close>

lemma option_case_Some: "case_option a f x = b \<Longrightarrow> x = Some y \<Longrightarrow> f y = b"
  by simp

end
