(* ===== verification/PyText.thy ===== *)
theory PyText
  imports Prelude "HOL-Library.Word"
begin

text \<open>
  The text operations of Python's standard library that the program uses: decimal and
  hexadecimal formatting, \<open>bytes.fromhex\<close>, \<open>repr\<close> of a string, the ASCII and UTF-8
  codecs. A codec or a formatter comes with the lemma that it loses nothing (an inverse or
  injectivity), which the commitments of the later theories rest on.
\<close>

type_synonym byte = "8 word"
type_synonym bytes = "byte list"

subsection \<open>Decimal\<close>

fun dec :: "nat \<Rightarrow> str" where
  "dec n = (if n < 10 then [48 + n] else dec (n div 10) @ [48 + n mod 10])"

declare dec.simps [simp del]

text \<open>\<open>str(n)\<close> of an \<open>int\<close>.\<close>

definition str_int :: "int \<Rightarrow> str" where
  "str_int n = (if n < 0 then lit ''-'' @ dec (nat (- n)) else dec (nat n))"

text \<open>\<open>f"{n:0wd}"\<close> of a non-negative \<open>int\<close>.\<close>

definition zpad :: "nat \<Rightarrow> nat \<Rightarrow> str" where
  "zpad w n = replicate (w - length (dec n)) 48 @ dec n"

definition is_digit :: "nat \<Rightarrow> bool" where
  "is_digit c \<longleftrightarrow> 48 \<le> c \<and> c \<le> 57"

fun undec :: "nat \<Rightarrow> str \<Rightarrow> nat" where
  "undec acc [] = acc"
| "undec acc (c # cs) = undec (10 * acc + (c - 48)) cs"

lemma undec_append: "undec acc (xs @ ys) = undec (undec acc xs) ys"
  by (induction xs arbitrary: acc) auto

lemma undec_dec [simp]: "undec 0 (dec n) = n"
proof (induction n rule: dec.induct)
  case (1 n)
  then show ?case by (subst dec.simps) (auto simp: undec_append)
qed

lemma undec_zeros: "undec 0 (replicate k 48 @ xs) = undec 0 xs"
  by (induction k) auto

lemma dec_nonempty [simp]: "dec n \<noteq> []"
  by (subst dec.simps) simp

lemma dec_digits: "c \<in> set (dec n) \<Longrightarrow> is_digit c"
proof (induction n rule: dec.induct)
  case (1 n)
  show ?case
  proof (cases "n < 10")
    case True
    with "1.prems" show ?thesis by (subst (asm) dec.simps) (auto simp: is_digit_def)
  next
    case False
    have "48 + n mod 10 \<le> 57" by simp
    with False "1" show ?thesis by (subst (asm) (2) dec.simps) (auto simp: is_digit_def)
  qed
qed

lemma dec_inject [simp]: "dec m = dec n \<longleftrightarrow> m = n"
  by (metis undec_dec)

lemma zpad_digits: "c \<in> set (zpad w n) \<Longrightarrow> is_digit c"
  by (auto simp: zpad_def is_digit_def dest: dec_digits)

lemma zpad_inject [simp]: "zpad w m = zpad w n \<longleftrightarrow> m = n"
  by (metis undec_dec undec_zeros zpad_def)

lemma length_zpad_ge: "w \<le> length (zpad w n)"
  by (simp add: zpad_def)

lemma length_dec: "n < 10 ^ k \<Longrightarrow> 0 < k \<Longrightarrow> length (dec n) \<le> k"
proof (induction n arbitrary: k rule: dec.induct)
  case (1 n)
  show ?case
  proof (cases "n < 10")
    case True
    with "1.prems" show ?thesis by (subst dec.simps) simp
  next
    case False
    with "1.prems" obtain j where k: "k = Suc j" and j: "0 < j"
      by (cases k; cases "k - 1") auto
    have "n div 10 < 10 ^ j" using "1.prems" k by (simp add: less_mult_imp_div_less mult.commute)
    with "1.IH" False j have "length (dec (n div 10)) \<le> j" by simp
    with False k show ?thesis by (subst dec.simps) simp
  qed
qed

lemma length_zpad: "n < 10 ^ w \<Longrightarrow> 0 < w \<Longrightarrow> length (zpad w n) = w"
  using length_dec [of n w] by (simp add: zpad_def)

lemma dec_hd_nonzero: "0 < n \<Longrightarrow> hd (dec n) \<noteq> 48"
proof (induction n rule: dec.induct)
  case (1 n)
  show ?case
  proof (cases "n < 10")
    case True
    with "1.prems" show ?thesis by (subst dec.simps) simp
  next
    case False
    with "1" have "hd (dec (n div 10)) \<noteq> 48" by simp
    with False show ?thesis by (subst dec.simps) simp
  qed
qed

lemma str_int_inject [simp]: "str_int m = str_int n \<longleftrightarrow> m = n"
proof -
  have "45 \<notin> set (dec k)" for k
    using dec_digits [of 45 k] by (auto simp: is_digit_def)
  then have neq: "dec k \<noteq> 45 # xs" for k xs
    by (metis list.set_intros(1))
  show ?thesis
    by (auto simp: str_int_def lit_Cons neq neq [symmetric] split: if_splits)
qed

subsection \<open>Hexadecimal\<close>

definition hexdigit :: "nat \<Rightarrow> nat" where
  "hexdigit n = (if n < 10 then 48 + n else 87 + n)"

text \<open>\<open>bytes.hex()\<close> and \<open>hexdigest()\<close>.\<close>

fun hex :: "bytes \<Rightarrow> str" where
  "hex [] = []"
| "hex (b # bs) = hexdigit (unat b div 16) # hexdigit (unat b mod 16) # hex bs"

definition hexval :: "nat \<Rightarrow> nat option" where
  "hexval c =
     (if 48 \<le> c \<and> c \<le> 57 then Some (c - 48)
      else if 97 \<le> c \<and> c \<le> 102 then Some (c - 87)
      else if 65 \<le> c \<and> c \<le> 70 then Some (c - 55)
      else None)"

definition is_ascii_space :: "nat \<Rightarrow> bool" where
  "is_ascii_space c \<longleftrightarrow> c = 32 \<or> (9 \<le> c \<and> c \<le> 13)"

text \<open>
  \<open>bytes.fromhex(s)\<close>: pairs of hexadecimal digits of either case, ASCII white space
  allowed between the pairs; everything else raises \<open>ValueError\<close>.
\<close>

fun fromhex :: "str \<Rightarrow> bytes option" where
  "fromhex [] = Some []"
| "fromhex (c # cs) =
     (if is_ascii_space c then fromhex cs
      else (case cs of
              [] \<Rightarrow> None
            | d # ds \<Rightarrow>
                (case (hexval c, hexval d) of
                   (Some h, Some l) \<Rightarrow> map_option ((#) (of_nat (16 * h + l))) (fromhex ds)
                 | _ \<Rightarrow> None)))"

definition is_lower_hex :: "nat \<Rightarrow> bool" where
  "is_lower_hex c \<longleftrightarrow> (48 \<le> c \<and> c \<le> 57) \<or> (97 \<le> c \<and> c \<le> 102)"

lemma hexdigit_props:
  assumes "n < 16"
  shows "hexval (hexdigit n) = Some n" and "\<not> is_ascii_space (hexdigit n)"
    and "is_lower_hex (hexdigit n)" and "hexdigit n < 128"
  using assms by (auto simp: hexdigit_def hexval_def is_ascii_space_def is_lower_hex_def)

lemma length_hex [simp]: "length (hex bs) = 2 * length bs"
  by (induction bs) auto

lemma unat_byte_less: "unat (b::byte) < 256"
  using unsigned_less [of b] by simp

lemma byte_nibbles: "unat (b::byte) div 16 < 16"
  using unat_byte_less [of b] by simp

lemma fromhex_hex [simp]: "fromhex (hex bs) = Some bs"
proof (induction bs)
  case (Cons b bs)
  have "of_nat (16 * (unat b div 16) + unat b mod 16) = b"
    by (simp only: mult_div_mod_eq unat_of_nat) simp
  with Cons byte_nibbles [of b] show ?case by (simp add: hexdigit_props)
qed simp

lemma hex_inject [simp]: "hex a = hex b \<longleftrightarrow> a = b"
  by (metis fromhex_hex option.inject)

lemma hex_lower: "c \<in> set (hex bs) \<Longrightarrow> is_lower_hex c"
  using byte_nibbles by (induction bs) (auto simp: hexdigit_props)

lemma hex_ascii: "c \<in> set (hex bs) \<Longrightarrow> c < 128"
  by (drule hex_lower) (auto simp: is_lower_hex_def)

subsection \<open>Lower case, upper case\<close>

text \<open>
  \<open>s.lower()\<close> and \<open>s.upper()\<close>, ASCII part: the two places that call them look at ASCII
  letters only (a digest that must come out as hexadecimal digits, and constants).
\<close>

definition ascii_lower :: "nat \<Rightarrow> nat" where
  "ascii_lower c = (if 65 \<le> c \<and> c \<le> 90 then c + 32 else c)"

definition ascii_upper :: "nat \<Rightarrow> nat" where
  "ascii_upper c = (if 97 \<le> c \<and> c \<le> 122 then c - 32 else c)"

lemma ascii_lower_hex: "is_lower_hex c \<Longrightarrow> ascii_lower c = c"
  by (auto simp: is_lower_hex_def ascii_lower_def)

lemma map_lower_hex [simp]: "map ascii_lower (hex bs) = hex bs"
  by (rule map_idI) (simp add: ascii_lower_hex hex_lower)

subsection \<open>Codecs\<close>

definition ascii_encode :: "str \<Rightarrow> exn + bytes" where
  "ascii_encode s =
     (if \<forall>c\<in>set s. c < 128 then Inr (map of_nat s) else Inl UnicodeEncodeError)"

text \<open>UTF-8, one code point: surrogates and numbers above U+10FFFF have no encoding.\<close>

definition utf8_point :: "nat \<Rightarrow> nat list option" where
  "utf8_point c =
     (if c < 0x80 then Some [c]
      else if c < 0x800 then Some [0xC0 + c div 64, 0x80 + c mod 64]
      else if 0xD800 \<le> c \<and> c < 0xE000 then None
      else if c < 0x10000 then
        Some [0xE0 + c div 4096, 0x80 + c div 64 mod 64, 0x80 + c mod 64]
      else if c < 0x110000 then
        Some [0xF0 + c div 262144, 0x80 + c div 4096 mod 64, 0x80 + c div 64 mod 64,
              0x80 + c mod 64]
      else None)"

fun utf8_opt :: "str \<Rightarrow> nat list option" where
  "utf8_opt [] = Some []"
| "utf8_opt (c # cs) =
     (case (utf8_point c, utf8_opt cs) of
        (Some b, Some bs) \<Rightarrow> Some (b @ bs)
      | _ \<Rightarrow> None)"

definition utf8_encode :: "str \<Rightarrow> exn + bytes" where
  "utf8_encode s =
     (case utf8_opt s of None \<Rightarrow> Inl UnicodeEncodeError | Some b \<Rightarrow> Inr (map of_nat b))"

definition is_cont :: "nat \<Rightarrow> bool" where
  "is_cont b \<longleftrightarrow> 0x80 \<le> b \<and> b < 0xC0"

text \<open>The strict decoder: no overlong form, no surrogate, no truncated sequence.\<close>

fun utf8_nats :: "nat list \<Rightarrow> str option" where
  "utf8_nats [] = Some []"
| "utf8_nats (a # xs) =
     (if a < 0x80 then map_option ((#) a) (utf8_nats xs)
      else (case xs of
        [] \<Rightarrow> None
      | b # ys \<Rightarrow>
          if 0xC2 \<le> a \<and> a < 0xE0 then
            (if is_cont b
             then map_option ((#) ((a - 0xC0) * 64 + (b - 0x80))) (utf8_nats ys) else None)
          else (case ys of
            [] \<Rightarrow> None
          | c # zs \<Rightarrow>
              if 0xE0 \<le> a \<and> a < 0xF0 then
                (let p = (a - 0xE0) * 4096 + (b - 0x80) * 64 + (c - 0x80)
                 in if is_cont b \<and> is_cont c \<and> 0x800 \<le> p \<and> \<not> (0xD800 \<le> p \<and> p < 0xE000)
                    then map_option ((#) p) (utf8_nats zs) else None)
              else (case zs of
                [] \<Rightarrow> None
              | d # ws \<Rightarrow>
                  (let p = (a - 0xF0) * 262144 + (b - 0x80) * 4096 + (c - 0x80) * 64 + (d - 0x80)
                   in if 0xF0 \<le> a \<and> is_cont b \<and> is_cont c \<and> is_cont d
                        \<and> 0x10000 \<le> p \<and> p < 0x110000
                      then map_option ((#) p) (utf8_nats ws) else None)))))"

definition utf8_decode :: "bytes \<Rightarrow> exn + str" where
  "utf8_decode bs =
     (case utf8_nats (map unat bs) of None \<Rightarrow> Inl UnicodeDecodeError | Some s \<Rightarrow> Inr s)"

lemma unat_of_nat_byte: "n < 256 \<Longrightarrow> unat (of_nat n :: byte) = n"
  by (simp add: unat_of_nat)

lemma map_unat_of_nat: "(\<And>n. n \<in> set ns \<Longrightarrow> n < 256) \<Longrightarrow> map unat (map of_nat ns :: bytes) = ns"
  by (induction ns) (auto simp: unat_of_nat_byte)

lemma utf8_point_cases [consumes 1, case_names one two three four]:
  assumes "utf8_point c = Some b"
  obtains "c < 0x80" "b = [c]"
  | "0x80 \<le> c" "c < 0x800" "b = [0xC0 + c div 64, 0x80 + c mod 64]"
  | "0x800 \<le> c" "c < 0x10000" "\<not> (0xD800 \<le> c \<and> c < 0xE000)"
      "b = [0xE0 + c div 4096, 0x80 + c div 64 mod 64, 0x80 + c mod 64]"
  | "0x10000 \<le> c" "c < 0x110000"
      "b = [0xF0 + c div 262144, 0x80 + c div 4096 mod 64, 0x80 + c div 64 mod 64, 0x80 + c mod 64]"
  using assms by (simp add: utf8_point_def not_less split: if_splits)

lemma split_base64:
  shows "(c::nat) div 64 * 64 + c mod 64 = c"
    and "(c::nat) div 4096 * 4096 + c div 64 mod 64 * 64 + c mod 64 = c"
    and "(c::nat) div 262144 * 262144 + c div 4096 mod 64 * 4096 + c div 64 mod 64 * 64
           + c mod 64 = c"
proof -
  have d: "c div 4096 = c div 64 div 64" "c div 262144 = c div 64 div 64 div 64"
    by (simp_all flip: div_mult2_eq)
  show a: "c div 64 * 64 + c mod 64 = c" by simp
  have b: "c div 64 = c div 64 div 64 * 64 + c div 64 mod 64" by simp
  have e: "c div 64 div 64 = c div 64 div 64 div 64 * 64 + c div 64 div 64 mod 64" by simp
  show "c div 4096 * 4096 + c div 64 mod 64 * 64 + c mod 64 = c"
    using a b unfolding d by linarith
  show "c div 262144 * 262144 + c div 4096 mod 64 * 4096 + c div 64 mod 64 * 64 + c mod 64 = c"
    using a b e unfolding d by linarith
qed

text \<open>The decoder reads back one encoded code point, whatever follows it.\<close>

lemma utf8_nats_point:
  assumes "utf8_point c = Some b"
  shows "utf8_nats (b @ xs) = map_option ((#) c) (utf8_nats xs)"
  using assms
proof (cases rule: utf8_point_cases)
  case one
  then show ?thesis by simp
next
  case two
  then have "c div 64 < 32" "2 \<le> c div 64" by auto
  with two show ?thesis by (simp add: is_cont_def split_base64)
next
  case three
  then have "c div 4096 < 16" by auto
  with three show ?thesis by (simp add: is_cont_def split_base64)
next
  case four
  then have "c div 262144 < 5" by auto
  with four show ?thesis by (simp add: is_cont_def split_base64)
qed

lemma utf8_nats_opt: "utf8_opt s = Some b \<Longrightarrow> utf8_nats b = Some s"
  by (induction s arbitrary: b) (auto split: option.splits simp: utf8_nats_point)

lemma utf8_point_bytes: "utf8_point c = Some b \<Longrightarrow> n \<in> set b \<Longrightarrow> n < 256"
  by (erule utf8_point_cases) auto

lemma utf8_opt_bytes: "utf8_opt s = Some b \<Longrightarrow> n \<in> set b \<Longrightarrow> n < 256"
  by (induction s arbitrary: b) (auto split: option.splits dest: utf8_point_bytes)

theorem utf8_decode_encode: "utf8_encode s = Inr b \<Longrightarrow> utf8_decode b = Inr s"
  using map_unat_of_nat utf8_opt_bytes
  by (fastforce simp: utf8_encode_def utf8_decode_def utf8_nats_opt split: option.splits)

lemma utf8_encode_inject:
  "utf8_encode s = Inr b \<Longrightarrow> utf8_encode t = Inr b \<Longrightarrow> s = t"
  by (drule utf8_decode_encode)+ simp

text \<open>The strings that have a UTF-8 encoding: Unicode scalar values, no lone surrogate.\<close>

definition scalar :: "nat \<Rightarrow> bool" where
  "scalar c \<longleftrightarrow> c < 0xD800 \<or> (0xE000 \<le> c \<and> c < 0x110000)"

definition valid_str :: "str \<Rightarrow> bool" where
  "valid_str s \<longleftrightarrow> (\<forall>c\<in>set s. scalar c)"

lemma valid_str_simps [simp]:
  "valid_str []" "valid_str (c # s) \<longleftrightarrow> scalar c \<and> valid_str s"
  "valid_str (s @ t) \<longleftrightarrow> valid_str s \<and> valid_str t"
  by (auto simp: valid_str_def)

lemma utf8_opt_None: "utf8_opt s = None \<longleftrightarrow> \<not> valid_str s"
  by (induction s) (auto simp: utf8_point_def scalar_def split: option.splits if_splits)

lemma utf8_encode_valid: "valid_str s \<Longrightarrow> \<exists>b. utf8_encode s = Inr b"
  using utf8_opt_None [of s] by (auto simp: utf8_encode_def split: option.splits)

lemma ascii_valid_str: "(\<And>c. c \<in> set s \<Longrightarrow> c < 128) \<Longrightarrow> valid_str s"
  by (fastforce simp: valid_str_def scalar_def)

lemma utf8_opt_ascii: "(\<And>c. c \<in> set s \<Longrightarrow> c < 128) \<Longrightarrow> utf8_opt s = Some s"
  by (induction s) (auto simp: utf8_point_def)

lemma utf8_encode_ascii: "(\<And>c. c \<in> set s \<Longrightarrow> c < 128) \<Longrightarrow> utf8_encode s = Inr (map of_nat s)"
  by (simp add: utf8_encode_def utf8_opt_ascii)

lemma ascii_encode_ascii: "(\<And>c. c \<in> set s \<Longrightarrow> c < 128) \<Longrightarrow> ascii_encode s = Inr (map of_nat s)"
  by (simp add: ascii_encode_def)

lemma map_of_nat_inject_ascii:
  assumes "\<And>c. c \<in> set s \<Longrightarrow> c < 128" and "\<And>c. c \<in> set t \<Longrightarrow> c < 128"
    and "(map of_nat s :: bytes) = map of_nat t"
  shows "s = t"
proof -
  have "map unat (map of_nat s :: bytes) = s" "map unat (map of_nat t :: bytes) = t"
    using assms(1,2) by (intro map_unat_of_nat; fastforce)+
  with assms(3) show ?thesis by metis
qed

lemma lit_ascii:
  assumes "\<forall>c\<in>set s. of_char c < (128::nat)" and "x \<in> set (lit s)"
  shows "x < 128"
  using assms by (auto simp: set_lit)

end
