(* ===== verification/PyTime.thy ===== *)
theory PyTime
  imports PyText
begin

text \<open>
  \<open>datetime\<close> of Python's standard library, as far as the program uses it: comparison,
  \<open>isoformat()\<close>, \<open>timestamp()\<close>. A value holds the civil fields and the offset from UTC in
  microseconds, or no offset (a naive \<open>datetime\<close>). Comparing a naive value with an aware
  one raises \<open>TypeError\<close>; the gateway's fail-closed handler is what meets it.
\<close>

record datetime =
  year :: nat
  month :: nat
  day :: nat
  hour :: nat
  minute :: nat
  second :: nat
  microsecond :: nat
  utcoffset :: "int option"

definition is_leap :: "nat \<Rightarrow> bool" where
  "is_leap y \<longleftrightarrow> y mod 4 = 0 \<and> (y mod 100 \<noteq> 0 \<or> y mod 400 = 0)"

definition days_in_month :: "nat \<Rightarrow> nat \<Rightarrow> nat" where
  "days_in_month y m =
     (if m = 2 then (if is_leap y then 29 else 28) else if m \<in> {4, 6, 9, 11} then 30 else 31)"

text \<open>What the constructor of \<open>datetime\<close> accepts.\<close>

definition valid_datetime :: "datetime \<Rightarrow> bool" where
  "valid_datetime d \<longleftrightarrow>
     1 \<le> year d \<and> year d \<le> 9999 \<and> 1 \<le> month d \<and> month d \<le> 12 \<and>
     1 \<le> day d \<and> day d \<le> days_in_month (year d) (month d) \<and>
     hour d < 24 \<and> minute d < 60 \<and> second d < 60 \<and> microsecond d < 1000000 \<and>
     (case utcoffset d of None \<Rightarrow> True | Some o' \<Rightarrow> \<bar>o'\<bar> < 86400000000)"

subsection \<open>Instants\<close>

definition days_before_year :: "nat \<Rightarrow> nat" where
  "days_before_year y = (let p = y - 1 in p * 365 + p div 4 - p div 100 + p div 400)"

definition days_before_month :: "nat \<Rightarrow> nat \<Rightarrow> nat" where
  "days_before_month y m = (\<Sum>k\<leftarrow>[1..<m]. days_in_month y k)"

text \<open>\<open>date.toordinal()\<close>: 0001-01-01 is day 1.\<close>

definition toordinal :: "datetime \<Rightarrow> nat" where
  "toordinal d = days_before_year (year d) + days_before_month (year d) (month d) + day d"

text \<open>Microseconds of the civil fields since day 0, and of the instant they name.\<close>

definition local_us :: "datetime \<Rightarrow> int" where
  "local_us d =
     (((int (toordinal d) * 24 + int (hour d)) * 60 + int (minute d)) * 60 + int (second d))
       * 1000000 + int (microsecond d)"

definition instant :: "datetime \<Rightarrow> int" where
  "instant d = local_us d - (case utcoffset d of None \<Rightarrow> 0 | Some o' \<Rightarrow> o')"

definition comparable :: "datetime \<Rightarrow> datetime \<Rightarrow> bool" where
  "comparable a b \<longleftrightarrow> (utcoffset a = None) = (utcoffset b = None)"

text \<open>\<open>a < b\<close> and \<open>a <= b\<close>.\<close>

definition dt_lt :: "datetime \<Rightarrow> datetime \<Rightarrow> exn + bool" where
  "dt_lt a b = (if comparable a b then Inr (instant a < instant b) else Inl TypeError)"

definition dt_le :: "datetime \<Rightarrow> datetime \<Rightarrow> exn + bool" where
  "dt_le a b = (if comparable a b then Inr (instant a \<le> instant b) else Inl TypeError)"

definition epoch :: datetime where
  "epoch = \<lparr>year = 1970, month = 1, day = 1, hour = 0, minute = 0, second = 0,
            microsecond = 0, utcoffset = Some 0\<rparr>"

text \<open>
  \<open>int(d.timestamp())\<close>: whole seconds since the epoch, truncated towards zero. A naive
  value is local time: its offset is that of the machine, the parameter \<open>local_off\<close>. (Python
  goes through a \<open>float\<close>, exact to the microsecond for the years up to 2242.)
\<close>

definition timestamp :: "(datetime \<Rightarrow> int) \<Rightarrow> datetime \<Rightarrow> int" where
  "timestamp local_off d =
     (let us = (case utcoffset d of
                  None \<Rightarrow> local_us d - local_off d
                | Some o' \<Rightarrow> local_us d - o') - instant epoch
      in if 0 \<le> us then us div 1000000 else - (- us div 1000000))"

subsection \<open>ISO format\<close>

definition offset_format :: "int \<Rightarrow> str" where
  "offset_format o' =
     (let a = nat \<bar>o'\<bar>; hh = a div 3600000000; r = a mod 3600000000;
          mm = r div 60000000; s = r mod 60000000;
          ss = s div 1000000; us = s mod 1000000
      in (if o' < 0 then lit ''-'' else lit ''+'') @ zpad 2 hh @ lit '':'' @ zpad 2 mm
         @ (if s = 0 then []
            else lit '':'' @ zpad 2 ss @ (if us = 0 then [] else lit ''.'' @ zpad 6 us)))"

definition isoformat :: "datetime \<Rightarrow> str" where
  "isoformat d =
     zpad 4 (year d) @ lit ''-'' @ zpad 2 (month d) @ lit ''-'' @ zpad 2 (day d) @ lit ''T''
     @ zpad 2 (hour d) @ lit '':'' @ zpad 2 (minute d) @ lit '':'' @ zpad 2 (second d)
     @ (if microsecond d = 0 then [] else lit ''.'' @ zpad 6 (microsecond d))
     @ (case utcoffset d of None \<Rightarrow> [] | Some o' \<Rightarrow> offset_format o')"

text \<open>The characters of an ISO string; none of them is the \<open>|\<close> of the mandate message.\<close>

definition iso_char :: "nat \<Rightarrow> bool" where
  "iso_char c \<longleftrightarrow> is_digit c \<or> c \<in> {43, 45, 46, 58, 84}"

lemma zpad_iso [simp]: "set (zpad w n) \<subseteq> Collect iso_char"
  by (auto simp: iso_char_def dest: zpad_digits)

lemma iso_punctuation [simp]:
  "iso_char 43" "iso_char 45" "iso_char 46" "iso_char 58" "iso_char 84"
  by (simp_all add: iso_char_def)

lemma offset_format_iso: "set (offset_format z) \<subseteq> Collect iso_char"
  by (simp add: offset_format_def Let_def lit_Cons del: Collect_mono_iff)

lemma isoformat_iso: "set (isoformat d) \<subseteq> Collect iso_char"
  by (cases "utcoffset d") (simp_all add: isoformat_def lit_Cons offset_format_iso)

lemma isoformat_chars: "c \<in> set (isoformat d) \<Longrightarrow> iso_char c"
  using isoformat_iso by blast

lemma isoformat_ascii: "c \<in> set (isoformat d) \<Longrightarrow> c < 128"
  by (drule isoformat_chars) (auto simp: iso_char_def is_digit_def)

lemma isoformat_no_bar: "124 \<notin> set (isoformat d)"
  using isoformat_chars [of 124 d] by (auto simp: iso_char_def is_digit_def)

subsection \<open>No two valid values share an ISO string\<close>

lemma valid_widths:
  assumes "valid_datetime d"
  shows "length (zpad 4 (year d)) = 4" "length (zpad 2 (month d)) = 2"
    "length (zpad 2 (day d)) = 2" "length (zpad 2 (hour d)) = 2"
    "length (zpad 2 (minute d)) = 2" "length (zpad 2 (second d)) = 2"
    "length (zpad 6 (microsecond d)) = 6"
proof -
  have "days_in_month (year d) (month d) \<le> 31" by (simp add: days_in_month_def)
  with assms show "length (zpad 4 (year d)) = 4" "length (zpad 2 (month d)) = 2"
    "length (zpad 2 (day d)) = 2" "length (zpad 2 (hour d)) = 2"
    "length (zpad 2 (minute d)) = 2" "length (zpad 2 (second d)) = 2"
    "length (zpad 6 (microsecond d)) = 6"
    by (auto intro!: length_zpad simp: valid_datetime_def)
qed

definition frac_format :: "nat \<Rightarrow> str" where
  "frac_format us = (if us = 0 then [] else lit ''.'' @ zpad 6 us)"

definition tz_format :: "int option \<Rightarrow> str" where
  "tz_format z = (case z of None \<Rightarrow> [] | Some o' \<Rightarrow> offset_format o')"

lemma frac_format_inject:
  assumes "us < 1000000" "vs < 1000000"
    and "frac_format us @ xs = frac_format vs @ ys"
    and "\<And>c r. xs = c # r \<Longrightarrow> c \<noteq> 46" "\<And>c r. ys = c # r \<Longrightarrow> c \<noteq> 46"
  shows "us = vs \<and> xs = ys"
proof -
  have len: "length (zpad 6 us) = 6" "length (zpad 6 vs) = 6"
    using assms(1,2) by (simp_all add: length_zpad)
  show ?thesis
    using assms(3-5) len by (fastforce simp: frac_format_def lit_def split: if_splits)
qed

lemma tz_format_hd: "tz_format z = c # r \<Longrightarrow> c \<noteq> 46"
  by (auto simp: tz_format_def offset_format_def Let_def lit_def split: option.splits if_splits)

definition sec_format :: "nat \<Rightarrow> str" where
  "sec_format s =
     (if s = 0 then [] else lit '':'' @ zpad 2 (s div 1000000) @ frac_format (s mod 1000000))"

lemma sec_format_inject:
  assumes "s < 60000000" "t < 60000000" "sec_format s = sec_format t"
  shows "s = t"
proof (cases "s = 0 \<or> t = 0")
  case True
  with assms(3) show ?thesis by (auto simp: sec_format_def lit_Cons split: if_splits)
next
  case False
  have "s div 1000000 < 100" "t div 1000000 < 100" using assms(1,2) by simp_all
  then have "length (zpad 2 (s div 1000000)) = 2" "length (zpad 2 (t div 1000000)) = 2"
    by (simp_all add: length_zpad)
  with False assms(3) have "s div 1000000 = t div 1000000"
    and f: "frac_format (s mod 1000000) = frac_format (t mod 1000000)"
    by (simp_all add: sec_format_def)
  moreover from frac_format_inject [of "s mod 1000000" "t mod 1000000" "[]" "[]"] f
  have "s mod 1000000 = t mod 1000000" by simp
  ultimately show ?thesis by (metis mult_div_mod_eq)
qed

lemma offset_format_alt:
  "offset_format z =
     (if z < 0 then 45 else 43) # zpad 2 (nat \<bar>z\<bar> div 3600000000) @ 58 #
       zpad 2 (nat \<bar>z\<bar> mod 3600000000 div 60000000) @
       sec_format (nat \<bar>z\<bar> mod 3600000000 mod 60000000)"
  by (simp add: offset_format_def sec_format_def frac_format_def lit_Cons Let_def)

lemma offset_format_inject:
  assumes "\<bar>y\<bar> < 86400000000" "\<bar>z\<bar> < 86400000000" "offset_format y = offset_format z"
  shows "y = z"
proof -
  define a b where "a = nat \<bar>y\<bar>" and "b = nat \<bar>z\<bar>"
  have "a div 3600000000 < 100" "b div 3600000000 < 100"
    using assms(1,2) by (simp_all add: a_def b_def less_mult_imp_div_less)
  moreover have "n mod 3600000000 div 60000000 < 100" for n :: nat
    by (simp add: less_mult_imp_div_less)
  ultimately have len: "length (zpad 2 (a div 3600000000)) = 2" "length (zpad 2 (b div 3600000000)) = 2"
    "length (zpad 2 (a mod 3600000000 div 60000000)) = 2"
    "length (zpad 2 (b mod 3600000000 div 60000000)) = 2"
    by (simp_all add: length_zpad)
  have eq: "(if y < 0 then 45 else 43::nat) = (if z < 0 then 45 else 43)"
    "zpad 2 (a div 3600000000) @ 58 # zpad 2 (a mod 3600000000 div 60000000) @
       sec_format (a mod 3600000000 mod 60000000)
     = zpad 2 (b div 3600000000) @ 58 # zpad 2 (b mod 3600000000 div 60000000) @
       sec_format (b mod 3600000000 mod 60000000)"
    using assms(3) by (simp_all only: offset_format_alt list.inject a_def b_def)
  from eq(2) len(1,2) have h: "a div 3600000000 = b div 3600000000"
    and eq3: "zpad 2 (a mod 3600000000 div 60000000) @ sec_format (a mod 3600000000 mod 60000000)
       = zpad 2 (b mod 3600000000 div 60000000) @ sec_format (b mod 3600000000 mod 60000000)"
    by auto
  from eq3 len(3,4) have m: "a mod 3600000000 div 60000000 = b mod 3600000000 div 60000000"
    and f: "sec_format (a mod 3600000000 mod 60000000) = sec_format (b mod 3600000000 mod 60000000)"
    by auto
  from f have "a mod 3600000000 mod 60000000 = b mod 3600000000 mod 60000000"
    by (rule sec_format_inject [rotated 2]) simp_all
  with h m have "a = b" by (metis mult_div_mod_eq)
  with eq(1) show ?thesis by (auto simp: a_def b_def split: if_splits)
qed

lemma tz_format_inject:
  assumes "case y of None \<Rightarrow> True | Some o' \<Rightarrow> \<bar>o'\<bar> < 86400000000"
    and "case z of None \<Rightarrow> True | Some o' \<Rightarrow> \<bar>o'\<bar> < 86400000000"
    and "tz_format y = tz_format z"
  shows "y = z"
proof -
  have "offset_format w \<noteq> []" for w by (simp add: offset_format_def Let_def lit_def)
  with assms show ?thesis
    by (auto simp: tz_format_def split: option.splits dest: offset_format_inject)
       (metis)+
qed

lemma isoformat_alt:
  "isoformat d =
     zpad 4 (year d) @ lit ''-'' @ zpad 2 (month d) @ lit ''-'' @ zpad 2 (day d) @ lit ''T''
     @ zpad 2 (hour d) @ lit '':'' @ zpad 2 (minute d) @ lit '':'' @ zpad 2 (second d)
     @ frac_format (microsecond d) @ tz_format (utcoffset d)"
  by (simp add: isoformat_def frac_format_def tz_format_def)

theorem isoformat_inject:
  assumes "valid_datetime a" "valid_datetime b" "isoformat a = isoformat b"
  shows "a = b"
proof -
  note w = valid_widths [OF assms(1)] valid_widths [OF assms(2)]
  from assms(3) w have fields: "year a = year b" "month a = month b" "day a = day b"
      "hour a = hour b" "minute a = minute b" "second a = second b"
    and rest: "frac_format (microsecond a) @ tz_format (utcoffset a)
       = frac_format (microsecond b) @ tz_format (utcoffset b)"
    by (simp_all add: isoformat_alt)
  from frac_format_inject [OF _ _ rest tz_format_hd tz_format_hd] assms(1,2)
  have "microsecond a = microsecond b" and "tz_format (utcoffset a) = tz_format (utcoffset b)"
    by (auto simp: valid_datetime_def)
  moreover from this(2) assms(1,2) have "utcoffset a = utcoffset b"
    by (intro tz_format_inject) (auto simp: valid_datetime_def)
  ultimately show ?thesis using fields by simp
qed

subsection \<open>Comparison is an order on comparable values\<close>

lemma dt_lt_irrefl: "dt_lt a a = Inr False"
  by (simp add: dt_lt_def comparable_def)

lemma dt_lt_le: "dt_lt a b = Inr True \<Longrightarrow> dt_le a b = Inr True"
  by (auto simp: dt_lt_def dt_le_def split: if_splits)

lemma dt_le_not_lt: "dt_le a b = Inr x \<longleftrightarrow> dt_lt b a = Inr (\<not> x)"
  by (auto simp: dt_lt_def dt_le_def comparable_def split: if_splits)

lemma dt_lt_aware: "utcoffset a = Some x \<Longrightarrow> utcoffset b = Some y \<Longrightarrow>
    dt_lt a b = Inr (instant a < instant b)"
  by (simp add: dt_lt_def comparable_def)

end
