(* ===== verification/PyEnv.thy ===== *)
theory PyEnv
  imports PyTime
begin

text \<open>
  The parts of the interpreter that the model takes as parameters: the Unicode tables beyond
  ASCII, conversions of floating-point numbers, the machine's time zone. Everything of them
  that the program's decisions rest on is ASCII text and integers, which the model computes.
\<close>

record pyenv =
  printable :: "nat \<Rightarrow> bool"        \<comment> \<open>\<open>str.isprintable\<close> of a code point above 127\<close>
  alnum :: "nat \<Rightarrow> bool"            \<comment> \<open>\<open>str.isalnum\<close> of a code point above 127\<close>
  float_str :: "str \<Rightarrow> str"         \<comment> \<open>\<open>str(float(x))\<close> of a JSON number with a fraction\<close>
  float_int :: "str \<Rightarrow> exn + int"   \<comment> \<open>\<open>int(float(x))\<close> of such a number\<close>
  int_of_str :: "str \<Rightarrow> exn + int"  \<comment> \<open>\<open>int(s)\<close> of a string\<close>
  local_off :: "datetime \<Rightarrow> int"    \<comment> \<open>the local offset from UTC of a naive \<open>datetime\<close>\<close>

text \<open>An environment to evaluate with: ASCII only, no floats, UTC.\<close>

definition ascii_env :: pyenv where
  "ascii_env =
     \<lparr>printable = (\<lambda>_. False), alnum = (\<lambda>_. False), float_str = id,
      float_int = (\<lambda>_. Inl OverflowError), int_of_str = (\<lambda>_. Inl (ValueError [])),
      local_off = (\<lambda>_. 0)\<rparr>"

subsection \<open>\<open>repr\<close> of a string\<close>

fun hexn :: "nat \<Rightarrow> nat \<Rightarrow> str" where
  "hexn 0 c = []"
| "hexn (Suc k) c = hexn k (c div 16) @ [hexdigit (c mod 16)]"

text \<open>A lone surrogate is not printable (category \<open>Cs\<close>), so it is always escaped.\<close>

definition repr_char :: "pyenv \<Rightarrow> nat \<Rightarrow> nat \<Rightarrow> str" where
  "repr_char env q c =
     (if c = q \<or> c = 92 then [92, c]
      else if c = 9 then lit [CHR 0x5C, CHR ''t'']
      else if c = 10 then lit [CHR 0x5C, CHR ''n'']
      else if c = 13 then lit [CHR 0x5C, CHR ''r'']
      else if c < 32 \<or> c = 127 then 92 # 120 # hexn 2 c
      else if c < 128 \<or> scalar c \<and> printable env c then [c]
      else if c < 0x100 then 92 # 120 # hexn 2 c
      else if c < 0x10000 then 92 # 117 # hexn 4 c
      else 92 # 85 # hexn 8 c)"

definition py_repr :: "pyenv \<Rightarrow> str \<Rightarrow> str" where
  "py_repr env s =
     (let q = (if 39 \<in> set s \<and> 34 \<notin> set s then 34 else 39)
      in q # concat (map (repr_char env q) s) @ [q])"

lemma length_hexn [simp]: "length (hexn k c) = k"
  by (induction k arbitrary: c) auto

lemma length_repr_char: "length (repr_char env q c) \<le> 10"
  by (simp add: repr_char_def lit_def)

lemma length_py_repr: "length (py_repr env s) \<le> 10 * length s + 2"
proof -
  have "length (concat (map (repr_char env q) s)) \<le> 10 * length s" for q
    by (induction s) (auto simp: add_mono length_repr_char trans_le_add1)
  then show ?thesis by (simp add: py_repr_def Let_def)
qed

end
