(* ===== verification/Json.thy ===== *)
theory Json
  imports PyEnv
begin

text \<open>
  \<open>json.dumps(x, sort_keys=True, separators=(",", ":"))\<close> and \<open>json.loads\<close>. The dumper
  is the one behind every commitment of the program: consent-token payloads, the rule
  document, the hash chain and the reconciliation hashes. The parser reads any JSON text.
  The main result is that the parser reads back what the dumper wrote, so the dumper loses
  nothing.
\<close>

datatype json =
    JNull
  | JBool bool
  | JInt int
  | JFloat str   \<comment> \<open>the text of a number with a fraction or an exponent, or \<open>nan\<close>, \<open>inf\<close>, \<open>-inf\<close>\<close>
  | JStr str
  | JArr "json list"
  | JObj "(str \<times> json) list"

subsection \<open>Dumping\<close>

definition esc_char :: "nat \<Rightarrow> str" where
  "esc_char c =
     (if c = 34 then [92, 34] else if c = 92 then [92, 92]
      else if c = 10 then [92, 110] else if c = 13 then [92, 114]
      else if c = 9 then [92, 116] else if c = 12 then [92, 102]
      else if c = 8 then [92, 98]
      else if 32 \<le> c \<and> c < 127 then [c]
      else if c < 0x10000 then 92 # 117 # hexn 4 c
      else 92 # 117 # hexn 4 (0xD800 + (c - 0x10000) div 1024)
             @ 92 # 117 # hexn 4 (0xDC00 + (c - 0x10000) mod 1024))"

definition quote :: "str \<Rightarrow> str" where
  "quote s = 34 # concat (map esc_char s) @ [34]"

text \<open>A \<open>float\<close> is dumped as its \<open>repr\<close>, but for the three values that are not numbers.\<close>

definition float_text :: "str \<Rightarrow> str" where
  "float_text l =
     (if l = lit ''nan'' then lit ''NaN'' else if l = lit ''inf'' then lit ''Infinity''
      else if l = lit ''-inf'' then lit ''-Infinity'' else l)"

fun dumps :: "json \<Rightarrow> str" where
  "dumps JNull = lit ''null''"
| "dumps (JBool b) = (if b then lit ''true'' else lit ''false'')"
| "dumps (JInt n) = str_int n"
| "dumps (JFloat l) = float_text l"
| "dumps (JStr s) = quote s"
| "dumps (JArr xs) = 91 # join (lit '','') (map dumps xs) @ [93]"
| "dumps (JObj kvs) =
     123 # join (lit '','')
       (map (\<lambda>(k, d). quote k @ 58 # d) (sort_key fst (map (\<lambda>(k, v). (k, dumps v)) kvs)))
     @ [125]"

text \<open>The value that a dump denotes: the same, with the members of every object sorted.\<close>

fun jsort :: "json \<Rightarrow> json" where
  "jsort (JArr xs) = JArr (map jsort xs)"
| "jsort (JObj kvs) = JObj (sort_key fst (map (\<lambda>(k, v). (k, jsort v)) kvs))"
| "jsort j = j"

subsection \<open>Parsing\<close>

definition is_ws :: "nat \<Rightarrow> bool" where
  "is_ws c \<longleftrightarrow> c \<in> {32, 9, 10, 13}"

definition skip_ws :: "str \<Rightarrow> str" where
  "skip_ws s = dropWhile is_ws s"

definition hex4val :: "nat \<Rightarrow> nat \<Rightarrow> nat \<Rightarrow> nat \<Rightarrow> nat option" where
  "hex4val a b c d =
     (case (hexval a, hexval b, hexval c, hexval d) of
        (Some w, Some x, Some y, Some z) \<Rightarrow> Some (((w * 16 + x) * 16 + y) * 16 + z)
      | _ \<Rightarrow> None)"

definition simple_escape :: "nat \<Rightarrow> nat option" where
  "simple_escape e =
     (if e = 34 \<or> e = 92 \<or> e = 47 then Some e
      else if e = 98 then Some 8 else if e = 102 then Some 12
      else if e = 110 then Some 10 else if e = 114 then Some 13
      else if e = 116 then Some 9 else None)"

definition cons_fst :: "'a \<Rightarrow> ('a list \<times> 'b) option \<Rightarrow> ('a list \<times> 'b) option" where
  "cons_fst x r = map_option (\<lambda>(s, t). (x # s, t)) r"

text \<open>
  What follows \<open>\u\<close>: four hexadecimal digits; two such escapes that form a surrogate pair
  are one code point.
\<close>

definition take_hex4 :: "str \<Rightarrow> (nat \<times> str) option" where
  "take_hex4 s =
     (case s of
        a # b # c # d # r \<Rightarrow> map_option (\<lambda>u. (u, r)) (hex4val a b c d)
      | _ \<Rightarrow> None)"

fun starts_escape_u :: "str \<Rightarrow> bool" where
  "starts_escape_u (a # b # r) = (a = 92 \<and> b = 117)"
| "starts_escape_u _ = False"

definition parse_u :: "str \<Rightarrow> (nat \<times> str) option" where
  "parse_u s =
     (case take_hex4 s of
        None \<Rightarrow> None
      | Some (u, r) \<Rightarrow>
          if 0xD800 \<le> u \<and> u < 0xDC00 \<and> starts_escape_u r then
            (case take_hex4 (drop 2 r) of
               None \<Rightarrow> None
             | Some (v, t) \<Rightarrow>
                 if 0xDC00 \<le> v \<and> v < 0xE000
                 then Some (0x10000 + (u - 0xD800) * 1024 + (v - 0xDC00), t)
                 else Some (u, r))
          else Some (u, r))"

lemma take_hex4_shorter: "take_hex4 s = Some (u, r) \<Longrightarrow> length r < length s"
  by (auto simp: take_hex4_def split: list.splits)

lemma parse_u_shorter: "parse_u s = Some (u, r) \<Longrightarrow> length r < length s"
  by (fastforce simp: parse_u_def split: option.splits if_splits dest: take_hex4_shorter)

text \<open>The text of a string after its opening quote, and what follows its closing quote.\<close>

function parse_string :: "str \<Rightarrow> (str \<times> str) option" where
  "parse_string [] = None"
| "parse_string (c # cs) =
     (if c = 34 then Some ([], cs)
      else if c < 32 then None
      else if c \<noteq> 92 then cons_fst c (parse_string cs)
      else (case cs of
          [] \<Rightarrow> None
        | e # r \<Rightarrow>
            if e = 117
            then (case parse_u r of None \<Rightarrow> None | Some (u, t) \<Rightarrow> cons_fst u (parse_string t))
            else (case simple_escape e of
                    None \<Rightarrow> None
                  | Some x \<Rightarrow> cons_fst x (parse_string r))))"
  by pat_completeness auto
termination
  by (relation "measure length") (auto dest: parse_u_shorter)

text \<open>Fraction and exponent of a number, if they stand there complete.\<close>

definition parse_frac :: "str \<Rightarrow> str \<times> str" where
  "parse_frac s =
     (case s of
        [] \<Rightarrow> ([], s)
      | c # r \<Rightarrow>
          if c = 46 \<and> takeWhile is_digit r \<noteq> []
          then (46 # takeWhile is_digit r, dropWhile is_digit r) else ([], s))"

definition parse_sign :: "str \<Rightarrow> str \<times> str" where
  "parse_sign s =
     (case s of
        [] \<Rightarrow> ([], s)
      | c # r \<Rightarrow> if c = 43 \<or> c = 45 then ([c], r) else ([], s))"

definition parse_exp :: "str \<Rightarrow> str \<times> str" where
  "parse_exp s =
     (case s of
        [] \<Rightarrow> ([], s)
      | e # r \<Rightarrow>
          (let (sg, t) = parse_sign r
           in if (e = 101 \<or> e = 69) \<and> takeWhile is_digit t \<noteq> []
              then (e # sg @ takeWhile is_digit t, dropWhile is_digit t) else ([], s)))"

definition parse_nat :: "str \<Rightarrow> (str \<times> str) option" where
  "parse_nat s =
     (case s of
        [] \<Rightarrow> None
      | c # r \<Rightarrow>
          if c = 48 then Some ([48], r)
          else if is_digit c then Some (takeWhile is_digit s, dropWhile is_digit s)
          else None)"

definition parse_minus :: "str \<Rightarrow> bool \<times> str" where
  "parse_minus s = (case s of [] \<Rightarrow> (False, s) | c # r \<Rightarrow> if c = 45 then (True, r) else (False, s))"

definition parse_number :: "str \<Rightarrow> (json \<times> str) option" where
  "parse_number s =
     (let (neg, s1) = parse_minus s
      in case parse_nat s1 of
           None \<Rightarrow> None
         | Some (ds, s2) \<Rightarrow>
             (let (fr, s3) = parse_frac s2; (ex, s4) = parse_exp s3
              in if fr = [] \<and> ex = []
                 then Some (JInt (if neg then - int (undec 0 ds) else int (undec 0 ds)), s2)
                 else Some (JFloat ((if neg then [45] else []) @ ds @ fr @ ex), s4)))"

fun strip_prefix :: "str \<Rightarrow> str \<Rightarrow> str option" where
  "strip_prefix [] s = Some s"
| "strip_prefix (p # ps) [] = None"
| "strip_prefix (p # ps) (c # cs) = (if p = c then strip_prefix ps cs else None)"

definition parse_word :: "str \<Rightarrow> (json \<times> str) option" where
  "parse_word s =
     (case strip_prefix (lit ''null'') s of Some r \<Rightarrow> Some (JNull, r) | None \<Rightarrow>
      case strip_prefix (lit ''true'') s of Some r \<Rightarrow> Some (JBool True, r) | None \<Rightarrow>
      case strip_prefix (lit ''false'') s of Some r \<Rightarrow> Some (JBool False, r) | None \<Rightarrow>
      case strip_prefix (lit ''NaN'') s of Some r \<Rightarrow> Some (JFloat (lit ''nan''), r) | None \<Rightarrow>
      case strip_prefix (lit ''Infinity'') s of Some r \<Rightarrow> Some (JFloat (lit ''inf''), r) | None \<Rightarrow>
      case strip_prefix (lit ''-Infinity'') s of Some r \<Rightarrow> Some (JFloat (lit ''-inf''), r) | None \<Rightarrow>
      parse_number s)"

fun starts_with :: "nat \<Rightarrow> str \<Rightarrow> bool" where
  "starts_with c [] = False"
| "starts_with c (d # r) = (c = d)"

text \<open>
  The fuel counts nested values, elements and members. Each of them takes at least one
  character, so the length of the text is enough (\<open>loads\<close> below gives one more).
\<close>

fun parse_value :: "nat \<Rightarrow> str \<Rightarrow> (json \<times> str) option"
and parse_elems :: "nat \<Rightarrow> str \<Rightarrow> (json list \<times> str) option"
and parse_members :: "nat \<Rightarrow> str \<Rightarrow> ((str \<times> json) list \<times> str) option" where
  "parse_value 0 s = None"
| "parse_value (Suc n) s =
     (case s of
        [] \<Rightarrow> None
      | c # r \<Rightarrow>
          if c = 34 then map_option (\<lambda>(x, t). (JStr x, t)) (parse_string r)
          else if c = 123 then
            (if starts_with 125 (skip_ws r) then Some (JObj [], tl (skip_ws r))
             else map_option (\<lambda>(kvs, u). (JObj (fold (\<lambda>(k, v) d. dput d k v) kvs []), u))
                    (parse_members n (skip_ws r)))
          else if c = 91 then
            (if starts_with 93 (skip_ws r) then Some (JArr [], tl (skip_ws r))
             else map_option (\<lambda>(xs, u). (JArr xs, u)) (parse_elems n (skip_ws r)))
          else parse_word s)"
| "parse_elems 0 s = None"
| "parse_elems (Suc n) s =
     (case parse_value n s of
        None \<Rightarrow> None
      | Some (x, t) \<Rightarrow>
          (case skip_ws t of
             [] \<Rightarrow> None
           | d # u \<Rightarrow>
               if d = 93 then Some ([x], u)
               else if d = 44 then cons_fst x (parse_elems n (skip_ws u))
               else None))"
| "parse_members 0 s = None"
| "parse_members (Suc n) s =
     (case s of
        [] \<Rightarrow> None
      | c # r \<Rightarrow>
          if c \<noteq> 34 then None
          else (case parse_string r of
             None \<Rightarrow> None
           | Some (k, t) \<Rightarrow>
               if \<not> starts_with 58 (skip_ws t) then None
               else (case parse_value n (skip_ws (tl (skip_ws t))) of
                  None \<Rightarrow> None
                | Some (v, w) \<Rightarrow>
                    (case skip_ws w of
                       [] \<Rightarrow> None
                     | d # z \<Rightarrow>
                         if d = 125 then Some ([(k, v)], z)
                         else if d = 44 then cons_fst (k, v) (parse_members n (skip_ws z))
                         else None))))"

definition loads :: "str \<Rightarrow> exn + json" where
  "loads s =
     (case parse_value (Suc (length s)) (skip_ws s) of
        None \<Rightarrow> Inl JSONDecodeError
      | Some (j, r) \<Rightarrow> if skip_ws r = [] then Inr j else Inl JSONDecodeError)"

subsection \<open>The parser reads back what the dumper wrote\<close>

text \<open>Values without floating-point numbers, whose objects are dictionaries.\<close>

fun json_ok :: "json \<Rightarrow> bool" where
  "json_ok (JFloat l) = False"
| "json_ok (JStr s) = valid_str s"
| "json_ok (JArr xs) = (\<forall>x\<in>set xs. json_ok x)"
| "json_ok (JObj kvs) = (wf_dict kvs \<and> (\<forall>(k, v)\<in>set kvs. valid_str k \<and> json_ok v))"
| "json_ok _ = True"

lemma hexval_hexdigit: "n < 16 \<Longrightarrow> hexval (hexdigit n) = Some n"
  by (rule hexdigit_props)

lemma hexn_4:
  "hexn 4 c = [hexdigit (c div 16 div 16 div 16 mod 16), hexdigit (c div 16 div 16 mod 16),
     hexdigit (c div 16 mod 16), hexdigit (c mod 16)]"
proof -
  have four: "(4::nat) = Suc (Suc (Suc (Suc 0)))" by simp
  show ?thesis unfolding four by simp
qed

lemma take_hex4_hexn:
  assumes "c < 65536" shows "take_hex4 (hexn 4 c @ r) = Some (c, r)"
proof -
  have "c div 16 div 16 div 16 < 16" using assms by simp
  moreover have "((c div 16 div 16 div 16 * 16 + c div 16 div 16 mod 16) * 16
      + c div 16 mod 16) * 16 + c mod 16 = c"
    by simp
  ultimately show ?thesis
    by (simp add: hexn_4 take_hex4_def hex4val_def hexval_hexdigit)
qed

lemma parse_string_esc:
  assumes "scalar c"
  shows "parse_string (esc_char c @ t) = cons_fst c (parse_string t)"
proof -
  consider "c < 0x10000" "\<not> (0xD800 \<le> c \<and> c < 0xDC00)" | "0x10000 \<le> c" "c < 0x110000"
    using assms unfolding scalar_def by linarith
  then show ?thesis
  proof cases
    case 1
    then have u: "parse_u (hexn 4 c @ t) = Some (c, t)"
      by (auto simp: parse_u_def take_hex4_hexn)
    from 1 show ?thesis
      by (auto simp: esc_char_def simple_escape_def u)
  next
    case 2
    define d where "d = c - 0x10000"
    have d: "c = 0x10000 + d" "d < 0x100000" using 2 by (auto simp: d_def)
    then have "d div 1024 < 1024" by simp
    then have u: "parse_u (hexn 4 (0xD800 + d div 1024) @ 92 # 117 # hexn 4 (0xDC00 + d mod 1024) @ t)
      = Some (c, t)"
      using d by (simp add: parse_u_def take_hex4_hexn)
    from d show ?thesis by (simp add: esc_char_def u)
  qed
qed

lemma parse_string_quote:
  "valid_str s \<Longrightarrow> parse_string (concat (map esc_char s) @ 34 # r) = Some (s, r)"
  by (induction s) (auto simp: parse_string_esc cons_fst_def)

text \<open>What may follow a value: the end, a comma, a closing bracket or white space.\<close>

definition delim :: "str \<Rightarrow> bool" where
  "delim r \<longleftrightarrow> r = [] \<or> hd r \<in> {44, 93, 125} \<or> is_ws (hd r)"

lemma delim_simps [simp]: "delim []" "delim (44 # r)" "delim (93 # r)" "delim (125 # r)"
  "is_ws c \<Longrightarrow> delim (c # r)"
  by (simp_all add: delim_def)

lemma span_digits:
  assumes "\<And>c. c \<in> set ds \<Longrightarrow> is_digit c" and "delim r"
  shows "takeWhile is_digit (ds @ r) = ds" and "dropWhile is_digit (ds @ r) = r"
proof -
  have "takeWhile is_digit r = []" "dropWhile is_digit r = r"
    using assms(2) by (cases r; auto simp: delim_def is_digit_def is_ws_def)+
  with assms(1) show "takeWhile is_digit (ds @ r) = ds" "dropWhile is_digit (ds @ r) = r"
    by (simp_all add: takeWhile_append2 dropWhile_append2)
qed

lemma dec_0: "dec 0 = [48]"
  by (subst dec.simps) simp

lemma parse_nat_dec:
  assumes "delim r" shows "parse_nat (dec n @ r) = Some (dec n, r)"
proof (cases "n = 0")
  case True
  then show ?thesis by (simp add: dec_0 parse_nat_def)
next
  case False
  obtain c cs where c: "dec n = c # cs" by (cases "dec n") auto
  with False dec_hd_nonzero [of n] dec_digits [of c n] have "c \<noteq> 48" "is_digit c" by auto
  moreover have "takeWhile is_digit (dec n @ r) = dec n" "dropWhile is_digit (dec n @ r) = r"
    by (rule span_digits; (erule dec_digits | rule assms))+
  ultimately show ?thesis using c by (simp add: parse_nat_def)
qed

lemma delim_no_frac: "delim r \<Longrightarrow> parse_frac r = ([], r)" "delim r \<Longrightarrow> parse_exp r = ([], r)"
  by (auto simp: delim_def is_ws_def parse_frac_def parse_exp_def split: list.splits prod.splits)

lemma dec_cases:
  obtains c cs where "dec k = c # cs" and "is_digit c"
  by (metis dec_digits dec_nonempty list.set_intros(1) neq_Nil_conv)

lemma str_int_cases:
  obtains (neg) k where "n < 0" "str_int n = 45 # dec k" "n = - int k"
  | (nonneg) k where "0 \<le> n" "str_int n = dec k" "n = int k"
proof (cases "n < 0")
  case True
  with that(1) [of "nat (- n)"] show ?thesis by (simp add: str_int_def lit_Cons)
next
  case False
  with that(2) [of "nat n"] show ?thesis by (simp add: str_int_def)
qed

lemma parse_minus_dec: "parse_minus (dec k @ r) = (False, dec k @ r)"
  by (rule dec_cases [of k]) (auto simp: parse_minus_def is_digit_def)

lemma parse_number_int:
  assumes "delim r" shows "parse_number (str_int n @ r) = Some (JInt n, r)"
proof (cases rule: str_int_cases [of n])
  case (neg k)
  with assms show ?thesis
    by (simp add: parse_number_def parse_minus_def parse_nat_dec delim_no_frac)
next
  case (nonneg k)
  with assms show ?thesis
    by (simp add: parse_number_def parse_minus_dec parse_nat_dec delim_no_frac)
qed

lemma str_int_hd:
  obtains (neg) d ds where "str_int n = 45 # d # ds" "is_digit d"
  | (nonneg) d ds where "str_int n = d # ds" "is_digit d"
proof (cases rule: str_int_cases [of n])
  case (neg k)
  with that(1) show ?thesis by (metis dec_cases)
next
  case (nonneg k)
  with that(2) show ?thesis by (metis dec_cases)
qed

lemma strip_prefix_digit:
  "is_digit d \<Longrightarrow> \<not> is_digit p \<Longrightarrow> strip_prefix (p # ps) (d # ds) = None"
  by auto

lemma parse_word_int:
  assumes "delim r" shows "parse_word (str_int n @ r) = Some (JInt n, r)"
proof -
  have "strip_prefix (lit w) (str_int n @ r) = None"
    if "w \<in> {''null'', ''true'', ''false'', ''NaN'', ''Infinity'', ''-Infinity''}" for w
  proof (cases rule: str_int_hd [of n])
    case (neg d ds)
    then have "d \<noteq> 73" by (auto simp: is_digit_def)
    with neg that show ?thesis by (elim insertE; simp add: lit_Cons)
  next
    case (nonneg d ds)
    then have "d \<noteq> 110" "d \<noteq> 116" "d \<noteq> 102" "d \<noteq> 78" "d \<noteq> 73" "d \<noteq> 45"
      by (auto simp: is_digit_def)
    with nonneg that show ?thesis by (elim insertE; simp add: lit_Cons)
  qed
  then show ?thesis by (simp add: parse_word_def parse_number_int assms)
qed

lemma insort_key_map_fst:
  "insort_key fst (k, f v) (map (\<lambda>(k, v). (k, f v)) xs)
     = map (\<lambda>(k, v). (k, f v)) (insort_key fst (k, v) xs)"
  by (induction xs) auto

lemma sort_key_map_fst:
  "sort_key fst (map (\<lambda>(k, v). (k, f v)) xs) = map (\<lambda>(k, v). (k, f v)) (sort_key fst xs)"
  by (induction xs) (auto simp: insort_key_map_fst)

definition member :: "str \<times> json \<Rightarrow> str" where
  "member p = quote (fst p) @ 58 # dumps (snd p)"

lemma dumps_JObj:
  "dumps (JObj kvs) = 123 # join [44] (map member (sort_key fst kvs)) @ [125]"
proof -
  have "(\<lambda>(k, d). quote k @ 58 # d) \<circ> (\<lambda>(k, v). (k, dumps v)) = member"
    by (auto simp: member_def)
  then show ?thesis
    by (simp only: dumps.simps sort_key_map_fst map_map) (simp add: lit_Cons)
qed

lemma jsort_JObj: "jsort (JObj kvs) = JObj (map (\<lambda>(k, v). (k, jsort v)) (sort_key fst kvs))"
  by (simp only: jsort.simps sort_key_map_fst)

lemma dput_all:
  "distinct (dkeys (d @ kvs)) \<Longrightarrow> fold (\<lambda>(k, v) d. dput d k v) kvs d = d @ kvs"
proof (induction kvs arbitrary: d)
  case (Cons p kvs)
  obtain k v where p: "p = (k, v)" by (cases p)
  with Cons.prems have "dget d k = None" by (auto simp: dget_eq_None)
  then have "dput d k v = d @ [(k, v)]" by (rule dput_fresh)
  with Cons p show ?case by simp
qed simp

lemma fold_dput_Nil: "wf_dict kvs \<Longrightarrow> fold (\<lambda>(k, v) d. dput d k v) kvs [] = kvs"
  using dput_all [of "[]" kvs] by (simp add: wf_dict_def)

lemma dumps_hd:
  assumes "json_ok j"
  obtains c r where "dumps j = c # r" "\<not> is_ws c" "c \<noteq> 93" "c \<noteq> 125"
proof (cases j)
  case (JInt n)
  with that show ?thesis
    by (cases rule: str_int_hd [of n]) (auto simp: is_ws_def is_digit_def)
next
  case (JBool b)
  with that show ?thesis by (cases b) (auto simp: lit_Cons is_ws_def)
qed (use assms that in \<open>auto simp: lit_Cons is_ws_def quote_def\<close>)

lemma skip_ws_nows: "\<not> is_ws c \<Longrightarrow> skip_ws (c # r) = c # r"
  by (simp add: skip_ws_def)

lemma skip_ws_dumps: "json_ok j \<Longrightarrow> skip_ws (dumps j @ r) = dumps j @ r"
  by (rule dumps_hd [of j]) (auto simp: skip_ws_nows)

lemma starts_with_dumps:
  "json_ok j \<Longrightarrow> \<not> starts_with 93 (dumps j @ r) \<and> \<not> starts_with 125 (dumps j @ r)"
  by (rule dumps_hd [of j]) auto

lemma skip_ws_delim [simp]:
  "skip_ws [] = []" "skip_ws (44 # r) = 44 # r" "skip_ws (93 # r) = 93 # r"
  "skip_ws (125 # r) = 125 # r" "skip_ws (58 # r) = 58 # r" "skip_ws (34 # r) = 34 # r"
  by (simp_all add: skip_ws_def is_ws_def)

text \<open>Arrays and objects, given that their parts are read back.\<close>

definition reads_back :: "json \<Rightarrow> bool" where
  "reads_back j \<longleftrightarrow>
     (\<forall>n r. length (dumps j) < n \<longrightarrow> delim r \<longrightarrow> parse_value n (dumps j @ r) = Some (jsort j, r))"

lemma parse_elems_back:
  assumes "xs \<noteq> []" and "\<forall>x\<in>set xs. json_ok x \<and> reads_back x"
    and "length (join [44] (map dumps xs)) + 1 < n"
  shows "parse_elems n (join [44] (map dumps xs) @ 93 # r) = Some (map jsort xs, r)"
  using assms
proof (induction xs arbitrary: n)
  case (Cons x xs)
  then obtain m where n: "n = Suc m" by (cases n) auto
  show ?case
  proof (cases xs)
    case Nil
    with Cons.prems n show ?thesis by (simp add: reads_back_def)
  next
    case (Cons y ys)
    define rest where "rest = join [44] (map dumps xs)"
    have j: "join [44] (map dumps (x # xs)) = dumps x @ 44 # rest"
      using Cons by (simp add: rest_def)
    have "length (dumps x) + length rest + 2 < n"
      using Cons.prems(3) by (simp only: j) simp
    then have len: "length (dumps x) < m" "length rest + 1 < m"
      by (simp_all add: n)
    have "parse_value m (dumps x @ 44 # rest @ 93 # r) = Some (jsort x, 44 # rest @ 93 # r)"
      using Cons.prems(2) len(1) by (simp add: reads_back_def)
    moreover have "skip_ws (rest @ 93 # r) = rest @ 93 # r"
      using Cons.prems(2) Cons skip_ws_dumps by (cases ys) (auto simp: rest_def)
    moreover have "parse_elems m (rest @ 93 # r) = Some (map jsort xs, r)"
      unfolding rest_def using Cons.prems(2) Cons len(2) by (intro Cons.IH) (auto simp: rest_def)
    ultimately show ?thesis
      by (simp only: n j) (simp add: cons_fst_def)
  qed
qed simp

lemma parse_members_back:
  assumes "kvs \<noteq> []" and "\<forall>(k, v)\<in>set kvs. valid_str k \<and> json_ok v \<and> reads_back v"
    and "length (join [44] (map member kvs)) + 1 < n"
  shows "parse_members n (join [44] (map member kvs) @ 125 # r)
      = Some (map (\<lambda>(k, v). (k, jsort v)) kvs, r)"
  using assms
proof (induction kvs arbitrary: n)
  case (Cons p kvs)
  obtain k v where p: "p = (k, v)" by (cases p)
  with Cons.prems obtain m where n: "n = Suc m" by (cases n) auto
  have kv: "valid_str k" "json_ok v" "reads_back v" using Cons.prems(2) p by auto
  have mem: "member (k, v) @ t = 34 # concat (map esc_char k) @ 34 # 58 # dumps v @ t" for t
    by (simp add: member_def quote_def)
  show ?case
  proof (cases kvs)
    case Nil
    have "parse_value m (dumps v @ 125 # r) = Some (jsort v, 125 # r)"
      using Cons.prems(3) Nil n p kv by (simp add: reads_back_def member_def)
    with Nil kv show ?thesis
      by (simp add: n mem p parse_string_quote skip_ws_dumps)
  next
    case (Cons q qs)
    define rest where "rest = join [44] (map member kvs)"
    have j: "join [44] (map member (p # kvs)) = member p @ 44 # rest"
      using Cons by (simp add: rest_def)
    have "length (member p) + length rest + 2 < n"
      using Cons.prems(3) by (simp only: j) simp
    then have len: "length (dumps v) < m" "length rest + 1 < m"
      by (simp_all add: n p member_def)
    have "parse_value m (dumps v @ 44 # rest @ 125 # r) = Some (jsort v, 44 # rest @ 125 # r)"
      using len(1) kv by (simp add: reads_back_def)
    moreover have "skip_ws (rest @ 125 # r) = rest @ 125 # r"
      using Cons by (cases qs) (auto simp: rest_def member_def quote_def)
    moreover have "parse_members m (rest @ 125 # r) = Some (map (\<lambda>(k, v). (k, jsort v)) kvs, r)"
      unfolding rest_def using Cons.prems(2) Cons len(2) by (intro Cons.IH) (auto simp: rest_def)
    ultimately show ?thesis using kv
      by (simp only: n j) (simp add: mem p parse_string_quote skip_ws_dumps cons_fst_def)
  qed
qed simp

lemma reads_backI:
  assumes "\<And>m r. length (dumps j) \<le> m \<Longrightarrow> delim r \<Longrightarrow>
    parse_value (Suc m) (dumps j @ r) = Some (jsort j, r)"
  shows "reads_back j"
  unfolding reads_back_def
proof (intro allI impI)
  fix n r assume "length (dumps j) < n" "delim r"
  then show "parse_value n (dumps j @ r) = Some (jsort j, r)"
    using assms by (cases n) auto
qed

lemma dkeys_insort: "map fst (insort_key fst p kvs) = insort (fst p) (map fst kvs)"
  by (induction kvs) auto

lemma dkeys_sort: "map fst (sort_key fst kvs) = sort (map fst kvs)"
  by (induction kvs) (auto simp: dkeys_insort)

lemma dkeys_map_snd: "map fst (map (\<lambda>(k, v). (k, f v)) kvs) = map fst kvs"
  by (induction kvs) auto

lemma wf_dict_sorted: "wf_dict kvs \<Longrightarrow> wf_dict (map (\<lambda>(k, v). (k, f v)) (sort_key fst kvs))"
  by (simp only: wf_dict_def dkeys_map_snd dkeys_sort distinct_sort)

lemma reads_back: "json_ok j \<Longrightarrow> reads_back j"
proof (induction j rule: dumps.induct)
  case 1
  show ?case by (intro reads_backI) (simp add: lit_Cons parse_word_def)
next
  case (2 b)
  show ?case by (cases b) (intro reads_backI; simp add: lit_Cons parse_word_def)+
next
  case (3 n)
  show ?case
  proof (intro reads_backI)
    fix m r assume "delim r"
    then have "parse_word (str_int n @ r) = Some (JInt n, r)" by (rule parse_word_int)
    then show "parse_value (Suc m) (dumps (JInt n) @ r) = Some (jsort (JInt n), r)"
      by (cases rule: str_int_hd [of n]) (auto simp: is_digit_def)
  qed
next
  case (4 l)
  then show ?case by simp
next
  case (5 s)
  then show ?case by (intro reads_backI) (simp add: quote_def parse_string_quote)
next
  case (6 xs)
  show ?case
  proof (intro reads_backI)
    fix m r assume len: "length (dumps (JArr xs)) \<le> m"
    show "parse_value (Suc m) (dumps (JArr xs) @ r) = Some (jsort (JArr xs), r)"
    proof (cases "xs = []")
      case True
      then show ?thesis by simp
    next
      case False
      define t where "t = join [44] (map dumps xs) @ 93 # r"
      have "parse_elems m t = Some (map jsort xs, r)"
        unfolding t_def using 6 False len by (intro parse_elems_back) (auto simp: lit_Cons)
      moreover have "skip_ws t = t" "\<not> starts_with 93 t"
        using 6 False skip_ws_dumps starts_with_dumps unfolding t_def
        by (cases xs rule: remdups_adj.cases; simp)+
      ultimately show ?thesis by (simp add: lit_Cons flip: t_def)
    qed
  qed
next
  case (7 kvs)
  define ms where "ms = sort_key fst kvs"
  have ms: "\<forall>(k, v)\<in>set ms. valid_str k \<and> json_ok v \<and> reads_back v" "wf_dict kvs"
    using 7 by (auto simp: ms_def)
  show ?case
  proof (intro reads_backI)
    fix m r assume len: "length (dumps (JObj kvs)) \<le> m"
    show "parse_value (Suc m) (dumps (JObj kvs) @ r) = Some (jsort (JObj kvs), r)"
    proof (cases "ms = []")
      case True
      then show ?thesis by (simp only: dumps_JObj jsort_JObj flip: ms_def) simp
    next
      case False
      define t where "t = join [44] (map member ms) @ 125 # r"
      have "parse_members m t = Some (map (\<lambda>(k, v). (k, jsort v)) ms, r)"
        unfolding t_def using ms False len
        by (intro parse_members_back) (auto simp: dumps_JObj ms_def simp del: dumps.simps)
      moreover have "skip_ws t = t" "\<not> starts_with 125 t"
        using False unfolding t_def
        by (cases ms rule: remdups_adj.cases; simp add: member_def quote_def)+
      moreover have "fold (\<lambda>(k, v) d. dput d k v) (map (\<lambda>(k, v). (k, jsort v)) ms) []
          = map (\<lambda>(k, v). (k, jsort v)) ms"
        using wf_dict_sorted [OF ms(2), of jsort] by (simp add: ms_def fold_dput_Nil)
      ultimately show ?thesis
        by (simp only: dumps_JObj jsort_JObj flip: ms_def) (simp flip: t_def)
    qed
  qed
qed

theorem loads_dumps:
  assumes "json_ok j" shows "loads (dumps j) = Inr (jsort j)"
proof -
  have "parse_value (Suc (length (dumps j))) (dumps j) = Some (jsort j, [])"
    using reads_back [OF assms, unfolded reads_back_def, rule_format, of "Suc (length (dumps j))" "[]"]
    by (simp del: parse_value.simps)
  moreover have "skip_ws (dumps j) = dumps j"
    using skip_ws_dumps [OF assms, of "[]"] by simp
  ultimately show ?thesis by (simp add: loads_def)
qed

corollary dumps_inject:
  "json_ok a \<Longrightarrow> json_ok b \<Longrightarrow> dumps a = dumps b \<Longrightarrow> jsort a = jsort b"
  by (metis loads_dumps sum.inject(2))

subsection \<open>A dump is ASCII\<close>

lemma hexn_ascii: "c \<in> set (hexn k n) \<Longrightarrow> c < 128"
  by (induction k arbitrary: n) (auto simp: hexdigit_props)

lemma esc_char_ascii: "x \<in> set (esc_char c) \<Longrightarrow> x < 128"
  by (auto simp: esc_char_def dest: hexn_ascii split: if_splits)

lemma quote_ascii: "x \<in> set (quote s) \<Longrightarrow> x < 128"
  by (auto simp: quote_def dest: esc_char_ascii)

lemma str_int_ascii: "x \<in> set (str_int n) \<Longrightarrow> x < 128"
  by (cases rule: str_int_cases [of n]) (auto simp: is_digit_def dest!: dec_digits)

lemma join_set: "x \<in> set (join sep ps) \<Longrightarrow> x \<in> set sep \<or> (\<exists>p\<in>set ps. x \<in> set p)"
  by (induction sep ps rule: join.induct) auto

text \<open>Only the text of a floating-point number is taken over as it is.\<close>

fun no_float :: "json \<Rightarrow> bool" where
  "no_float (JFloat l) = False"
| "no_float (JArr xs) = (\<forall>x\<in>set xs. no_float x)"
| "no_float (JObj kvs) = (\<forall>(k, v)\<in>set kvs. no_float v)"
| "no_float _ = True"

lemma json_ok_no_float: "json_ok j \<Longrightarrow> no_float j"
  by (induction j rule: no_float.induct) auto

lemma no_float_ascii: "no_float j \<Longrightarrow> c \<in> set (dumps j) \<Longrightarrow> c < 128"
proof (induction j rule: dumps.induct)
  case 1
  then show ?case by (auto simp: lit_Cons)
next
  case (2 b)
  then show ?case by (cases b) (auto simp: lit_Cons)
next
  case (3 n)
  from "3.prems"(2) have "c \<in> set (str_int n)" by simp
  then show ?case by (rule str_int_ascii)
next
  case (4 l)
  then show ?case by simp
next
  case (5 s)
  from "5.prems"(2) have "c \<in> set (quote s)" by simp
  then show ?case by (rule quote_ascii)
next
  case (6 xs)
  then show ?case by (auto simp: lit_Cons dest!: join_set)
next
  case (7 kvs)
  have m: "c < 128" if "p \<in> set kvs" "c \<in> set (member p)" for p
  proof -
    obtain k v where p: "p = (k, v)" by (cases p)
    with that have "c \<in> set (quote k) \<or> c = 58 \<or> c \<in> set (dumps v)"
      by (auto simp: member_def)
    moreover have "no_float v" using "7.prems"(1) that(1) p by auto
    then have "c \<in> set (dumps v) \<Longrightarrow> c < 128"
      by (rule "7.IH" [OF that(1) p [symmetric]])
    ultimately show ?thesis using quote_ascii [of c k] by auto
  qed
  let ?j = "join [44] (map member (sort_key fst kvs))"
  have "set (123 # ?j @ [125]) = {123, 125} \<union> set ?j" by auto
  with "7.prems"(2) have "c \<in> {123, 125} \<union> set ?j" by (simp only: dumps_JObj)
  then consider "c = 123 \<or> c = 125" | "c \<in> set ?j" by blast
  then show ?case
  proof cases
    case 1
    then show ?thesis by auto
  next
    case 2
    from join_set [OF this] show ?thesis using m by (elim disjE bexE) (simp, force)
  qed
qed

lemma dumps_ascii: "json_ok j \<Longrightarrow> c \<in> set (dumps j) \<Longrightarrow> c < 128"
  by (rule no_float_ascii [OF json_ok_no_float])

lemma dget_jsort:
  assumes "wf_dict kvs" and "jsort (JObj kvs) = JObj kvs'"
  shows "dget kvs' k = map_option jsort (dget kvs k)"
proof -
  let ?m = "map (\<lambda>(k, v). (k, jsort v)) kvs"
  have "kvs' = sort_key fst ?m" using assms(2) by simp
  moreover have "distinct (map fst ?m)"
    using assms(1) by (simp add: wf_dict_def comp_def case_prod_unfold)
  moreover from this have "distinct (map fst (sort_key fst ?m))"
    by (simp add: dkeys_sort)
  ultimately have "map_of kvs' = map_of ?m"
    by (metis map_of_inject_set set_sort)
  then show ?thesis by (simp add: map_of_map)
qed

end
