(* ===== verification/JsonStrings.thy ===== *)
theory JsonStrings
  imports Json
begin

text \<open>
  Which strings survive a dump. A Python string may hold lone surrogates, which \<open>json.dumps\<close> writes
  as escapes; the parser reads two escapes that form a pair as one code point. So a string reads
  back when no high surrogate stands before a low one, and what \<open>json.loads\<close> returns never has
  such a pair: a string that came with a request can be sent back.
\<close>

definition is_high :: "nat \<Rightarrow> bool" where
  "is_high c \<longleftrightarrow> 0xD800 \<le> c \<and> c < 0xDC00"

definition is_low :: "nat \<Rightarrow> bool" where
  "is_low c \<longleftrightarrow> 0xDC00 \<le> c \<and> c < 0xE000"

fun loadable :: "str \<Rightarrow> bool" where
  "loadable [] = True"
| "loadable (c # s) \<longleftrightarrow>
     c < 0x110000 \<and> \<not> (is_high c \<and> (case s of [] \<Rightarrow> False | d # _ \<Rightarrow> is_low d)) \<and> loadable s"

lemma scalar_no_surrogate: "scalar c \<Longrightarrow> \<not> is_high c \<and> \<not> is_low c \<and> c < 0x110000"
  by (auto simp: scalar_def is_high_def is_low_def)

lemma surrogate_cases: "c < 0x110000 \<Longrightarrow> scalar c \<or> is_high c \<or> is_low c"
  by (auto simp: scalar_def is_high_def is_low_def)

lemma valid_loadable [simp, intro]: "valid_str s \<Longrightarrow> loadable s"
  by (induction s) (auto dest: scalar_no_surrogate)

lemma loadable_scalar: "scalar c \<Longrightarrow> loadable (c # s) = loadable s"
  using scalar_no_surrogate [of c] by simp

lemma loadable_append_valid: "valid_str s \<Longrightarrow> loadable (s @ t) = loadable t"
  by (induction s) (auto dest: scalar_no_surrogate split: list.splits)

subsection \<open>Such a string reads back\<close>

text \<open>What may follow a high surrogate, so that the two are not read as one.\<close>

definition no_low_escape :: "str \<Rightarrow> bool" where
  "no_low_escape t \<longleftrightarrow>
     (starts_escape_u t \<longrightarrow> (\<exists>v r. take_hex4 (drop 2 t) = Some (v, r) \<and> \<not> is_low v))"

lemma starts_escape_u_hd: "starts_escape_u (c # t) \<Longrightarrow> c = 92"
  by (cases t) simp_all

lemma parse_u_lone:
  assumes "c < 0x10000" "is_high c \<Longrightarrow> no_low_escape t"
  shows "parse_u (hexn 4 c @ t) = Some (c, t)"
  using assms by (auto simp: parse_u_def take_hex4_hexn is_high_def is_low_def no_low_escape_def)

lemma esc_char_follows:
  assumes "d < 0x110000" "\<not> is_low d" shows "no_low_escape (esc_char d @ t)"
proof -
  consider "d < 0x10000" | "0x10000 \<le> d" by linarith
  then show ?thesis
  proof cases
    case 1
    then show ?thesis
      using assms(2) by (auto simp: no_low_escape_def esc_char_def take_hex4_hexn dest: starts_escape_u_hd)
  next
    case 2
    then have "(d - 0x10000) div 1024 < 1024" using assms(1) by auto
    then have "0xD800 + (d - 0x10000) div 1024 < 65536" "\<not> is_low (0xD800 + (d - 0x10000) div 1024)"
      by (auto simp: is_low_def)
    with 2 show ?thesis by (auto simp: no_low_escape_def esc_char_def take_hex4_hexn)
  qed
qed

lemma parse_string_escape:
  assumes "c < 0x110000" "is_high c \<Longrightarrow> no_low_escape t"
  shows "parse_string (esc_char c @ t) = cons_fst c (parse_string t)"
proof (cases "scalar c")
  case True
  then show ?thesis by (rule parse_string_esc)
next
  case False
  then have c: "0xD800 \<le> c" "c < 0x10000" using assms(1) by (auto simp: scalar_def)
  then show ?thesis
    using parse_u_lone [of c t] assms(2) by (simp add: esc_char_def)
qed

lemma parse_string_loadable:
  "loadable s \<Longrightarrow> parse_string (concat (map esc_char s) @ 34 # r) = Some (s, r)"
proof (induction s)
  case (Cons c s)
  have "no_low_escape (concat (map esc_char s) @ 34 # r)" if "is_high c"
  proof (cases s)
    case (Cons d u)
    with Cons.prems that esc_char_follows [of d] show ?thesis by simp
  qed (auto simp: no_low_escape_def dest: starts_escape_u_hd)
  with Cons show ?case by (simp add: parse_string_escape cons_fst_def)
qed simp

subsection \<open>The parser returns such strings\<close>

fun json_loadable :: "json \<Rightarrow> bool" where
  "json_loadable (JStr s) = loadable s"
| "json_loadable (JArr xs) = (\<forall>x\<in>set xs. json_loadable x)"
| "json_loadable (JObj kvs) = (\<forall>(k, v)\<in>set kvs. loadable k \<and> json_loadable v)"
| "json_loadable _ = True"

lemma take_hex4_tail: "take_hex4 s = Some (u, r) \<Longrightarrow> set r \<subseteq> set s \<and> u < 65536"
proof -
  have "u < 65536" if "hex4val a b c d = Some u" for a b c d u
  proof -
    from that obtain w x y z where h: "hexval a = Some w" "hexval b = Some x" "hexval c = Some y" "hexval d = Some z"
      and u: "u = ((w * 16 + x) * 16 + y) * 16 + z"
      by (auto simp: hex4val_def split: option.splits)
    have "hexval e = Some k \<Longrightarrow> k < 16" for e k by (auto simp: hexval_def split: if_splits)
    with h have "w < 16" "x < 16" "y < 16" "z < 16" by blast+
    with u show ?thesis by simp
  qed
  then show "take_hex4 s = Some (u, r) \<Longrightarrow> set r \<subseteq> set s \<and> u < 65536"
    by (auto simp: take_hex4_def split: list.splits)
qed

lemma parse_u_result:
  assumes "parse_u s = Some (u, t)"
  shows "set t \<subseteq> set s \<and> u < 0x110000 \<and> (is_high u \<longrightarrow> no_low_escape t)"
proof -
  obtain w r where w: "take_hex4 s = Some (w, r)" using assms by (auto simp: parse_u_def split: option.splits)
  have d: "set (drop 2 r) \<subseteq> set r" by (rule set_drop_subset)
  show ?thesis
  proof (cases "0xD800 \<le> w \<and> w < 0xDC00 \<and> starts_escape_u r")
    case True
    then obtain v q where v: "take_hex4 (drop 2 r) = Some (v, q)"
      using assms w by (auto simp: parse_u_def split: option.splits)
    show ?thesis
    proof (cases "is_low v")
      case low: True
      with assms w True v have "u = 0x10000 + (w - 0xD800) * 1024 + (v - 0xDC00)" "t = q"
        by (auto simp: parse_u_def is_low_def)
      with take_hex4_tail [OF w] take_hex4_tail [OF v] d True low show ?thesis
        by (auto simp: is_high_def is_low_def)
    next
      case False
      with assms w True v have "u = w" "t = r" by (auto simp: parse_u_def is_low_def)
      with take_hex4_tail [OF w] v False show ?thesis by (auto simp: no_low_escape_def)
    qed
  next
    case False
    with assms w have "u = w" "t = r" by (auto simp: parse_u_def split: if_splits)
    with take_hex4_tail [OF w] False show ?thesis by (auto simp: no_low_escape_def is_high_def)
  qed
qed

lemma simple_escape_low: "simple_escape e = Some x \<Longrightarrow> x < 128"
  by (auto simp: simple_escape_def split: if_splits)

lemma parse_u_no_low: "take_hex4 s = Some (v, r) \<Longrightarrow> \<not> is_low v \<Longrightarrow> parse_u s = Some (u, t) \<Longrightarrow> \<not> is_low u"
  by (auto simp: parse_u_def is_low_def split: option.splits if_splits)

lemma parse_string_result:
  "parse_string s = Some (x, t) \<Longrightarrow> valid_str s \<Longrightarrow>
     loadable x \<and> set t \<subseteq> set s \<and> (no_low_escape s \<longrightarrow> (case x of [] \<Rightarrow> True | d # _ \<Rightarrow> \<not> is_low d))"
proof (induction s arbitrary: x t rule: parse_string.induct)
  case (2 c cs)
  have valid: "scalar c" "valid_str cs" using 2(5) by simp_all
  consider (quote) "c = 34" | (plain) "c \<noteq> 34" "\<not> c < 32" "c \<noteq> 92" | (esc) "c = 92"
    using 2(4) by (cases "c = 34"; cases "c < 32"; cases "c = 92") auto
  then show ?case
  proof cases
    case quote
    with 2(4) show ?thesis by auto
  next
    case plain
    with 2(4) obtain y where y: "parse_string cs = Some (y, t)" "x = c # y" by (auto simp: cons_fst_def)
    have "loadable y" "set t \<subseteq> set cs" using 2(1) [OF plain y(1) valid(2)] by simp_all
    then show ?thesis
      using y(2) valid(1) scalar_no_surrogate [of c] by (auto simp: loadable_scalar simp del: loadable.simps)
  next
    case esc
    then obtain e r where cs: "cs = e # r" using 2(4) by (cases cs) auto
    show ?thesis
    proof (cases "e = 117")
      case True
      then obtain u q where u: "parse_u r = Some (u, q)" using 2(4) esc cs by (auto split: option.splits)
      then obtain y where y: "parse_string q = Some (y, t)" "x = u # y"
        using 2(4) esc cs True by (auto simp: cons_fst_def)
      note res = parse_u_result [OF u]
      have "valid_str q" using res valid(2) cs by (auto simp: valid_str_def)
      from 2(2) [OF _ _ _ cs True u refl y(1) this] esc
      have ih: "loadable y" "set t \<subseteq> set q" "no_low_escape q \<longrightarrow> (case y of [] \<Rightarrow> True | d # _ \<Rightarrow> \<not> is_low d)"
        by simp_all
      have "\<not> is_low u" if "no_low_escape (c # cs)"
      proof -
        from that esc cs True obtain v p where "take_hex4 r = Some (v, p)" "\<not> is_low v"
          by (auto simp: no_low_escape_def)
        from parse_u_no_low [OF this u] show ?thesis .
      qed
      moreover have "loadable x" using ih(1,3) res y(2) by (cases y) auto
      ultimately show ?thesis using ih(2) res y(2) cs by auto
    next
      case False
      then obtain z where z: "simple_escape e = Some z" using 2(4) esc cs by (auto split: option.splits)
      then obtain y where y: "parse_string r = Some (y, t)" "x = z # y"
        using 2(4) esc cs False by (auto simp: cons_fst_def)
      have "valid_str r" using valid(2) cs by simp
      from 2(3) [OF _ _ _ cs False z y(1) this] esc have ih: "loadable y" "set t \<subseteq> set r" by simp_all
      have "scalar z" using simple_escape_low [OF z] by (simp add: scalar_def)
      then show ?thesis
        using ih y(2) cs scalar_no_surrogate [of z] by (auto simp: loadable_scalar simp del: loadable.simps)
    qed
  qed
qed simp

subsubsection \<open>Whole values\<close>

lemma strip_prefix_tail: "strip_prefix p s = Some r \<Longrightarrow> set r \<subseteq> set s"
  by (induction p s rule: strip_prefix.induct) (auto split: if_splits)

lemma set_dropWhile_subset: "set (dropWhile P s) \<subseteq> set s"
  by (induction s) auto

lemma parse_nat_tail: "parse_nat s = Some (ds, t) \<Longrightarrow> set t \<subseteq> set s"
  using set_dropWhile_subset [of is_digit s] by (auto simp: parse_nat_def split: list.splits if_splits)

lemma parse_frac_tail: "parse_frac s = (fr, t) \<Longrightarrow> set t \<subseteq> set s"
  using set_dropWhile_subset [of is_digit "tl s"] by (auto simp: parse_frac_def split: list.splits if_splits)

lemma parse_exp_tail: "parse_exp s = (ex, t) \<Longrightarrow> set t \<subseteq> set s"
  using set_dropWhile_subset [of is_digit "tl s"] set_dropWhile_subset [of is_digit "tl (tl s)"]
  by (auto simp: parse_exp_def parse_sign_def split: list.splits if_splits)

lemma parse_number_result:
  assumes "parse_number s = Some (j, t)" shows "json_loadable j \<and> set t \<subseteq> set s"
proof -
  obtain neg s1 where m: "parse_minus s = (neg, s1)" by force
  then have "set s1 \<subseteq> set s" by (auto simp: parse_minus_def split: list.splits if_splits)
  moreover obtain ds s2 where n: "parse_nat s1 = Some (ds, s2)"
    using assms m by (auto simp: parse_number_def split: option.splits)
  moreover obtain fr s3 where f: "parse_frac s2 = (fr, s3)" by force
  moreover obtain ex s4 where e: "parse_exp s3 = (ex, s4)" by force
  moreover have "json_loadable j \<and> (t = s2 \<or> t = s4)"
    using assms m n f e by (auto simp: parse_number_def split: if_splits)
  ultimately show ?thesis
    using parse_nat_tail [OF n] parse_frac_tail [OF f] parse_exp_tail [OF e] by auto
qed

lemma parse_word_result:
  "parse_word s = Some (j, t) \<Longrightarrow> json_loadable j \<and> set t \<subseteq> set s"
  unfolding parse_word_def
  by (auto split: option.splits dest: strip_prefix_tail parse_number_result)

lemma skip_ws_tail: "set (skip_ws s) \<subseteq> set s"
  by (simp add: skip_ws_def set_dropWhile_subset)

lemma set_dput: "set (dput d k v) \<subseteq> insert (k, v) (set d)"
  by (induction d) auto

lemma fold_dput_loadable:
  "json_loadable (JObj d) \<Longrightarrow> json_loadable (JObj kvs) \<Longrightarrow>
     json_loadable (JObj (fold (\<lambda>(k, v) d. dput d k v) kvs d))"
proof (induction kvs arbitrary: d)
  case (Cons p kvs)
  obtain k v where p: "p = (k, v)" by (cases p)
  have "json_loadable (JObj (dput d k v))" using Cons.prems set_dput [where d = d and k = k and v = v] p by auto
  with Cons p show ?case by simp
qed simp

lemma valid_subset: "valid_str s \<Longrightarrow> set t \<subseteq> set s \<Longrightarrow> valid_str t"
  by (auto simp: valid_str_def)

definition reads_loadable :: "('a \<Rightarrow> bool) \<Rightarrow> str \<Rightarrow> ('a \<times> str) option \<Rightarrow> bool" where
  "reads_loadable P s r \<longleftrightarrow> (valid_str s \<longrightarrow> (\<forall>x t. r = Some (x, t) \<longrightarrow> P x \<and> set t \<subseteq> set s))"

lemma reads_loadableD:
  "reads_loadable P s r \<Longrightarrow> r = Some (x, t) \<Longrightarrow> valid_str s \<Longrightarrow> P x \<and> set t \<subseteq> set s"
  by (simp add: reads_loadable_def)

lemma parse_loadable:
  "reads_loadable json_loadable s (parse_value n s)"
  "reads_loadable (\<lambda>xs. json_loadable (JArr xs)) s (parse_elems n s)"
  "reads_loadable (\<lambda>kvs. json_loadable (JObj kvs)) s (parse_members n s)"
proof (induction n arbitrary: s and s and s)
  case (Suc n)
  {
    case 1
    show ?case
      unfolding reads_loadable_def
    proof (intro impI allI)
      fix j t assume v: "valid_str s" and p: "parse_value (Suc n) s = Some (j, t)"
      then obtain c r where s: "s = c # r" by (cases s) auto
      have r: "valid_str r" "valid_str (skip_ws r)" using v s valid_subset [OF _ skip_ws_tail] by auto
      note sub = skip_ws_tail [of r]
      consider (str) x where "c = 34" "parse_string r = Some (x, t)" "j = JStr x"
        | (empty) "j = JObj [] \<or> j = JArr []" "t = tl (skip_ws r)"
        | (obj) kvs where "parse_members n (skip_ws r) = Some (kvs, t)" "j = JObj (fold (\<lambda>(k, v) d. dput d k v) kvs [])"
        | (arr) xs where "parse_elems n (skip_ws r) = Some (xs, t)" "j = JArr xs"
        | (word) "parse_word s = Some (j, t)"
        using p unfolding s by (auto split: if_splits)
      then show "json_loadable j \<and> set t \<subseteq> set s"
      proof cases
        case str
        with parse_string_result [OF str(2) r(1)] s show ?thesis by auto
      next
        case empty
        have "set (tl (skip_ws r)) \<subseteq> set (skip_ws r)" by (cases "skip_ws r") auto
        with empty sub s show ?thesis by auto
      next
        case obj
        from reads_loadableD [OF Suc.IH(3) obj(1) r(2)] have "json_loadable (JObj kvs)" "set t \<subseteq> set (skip_ws r)" by simp_all
        with fold_dput_loadable [of "[]" kvs] obj(2) sub s show ?thesis by (auto simp del: json_loadable.simps(3)) simp
      next
        case arr
        from reads_loadableD [OF Suc.IH(2) arr(1) r(2)] arr(2) sub s show ?thesis by auto
      next
        case word
        then show ?thesis by (rule parse_word_result)
      qed
    qed
  next
    case 2
    show ?case
      unfolding reads_loadable_def
    proof (intro impI allI)
      fix xs t assume v: "valid_str s" and p: "parse_elems (Suc n) s = Some (xs, t)"
      then obtain x u where x: "parse_value n s = Some (x, u)" by (auto split: option.splits)
      from reads_loadableD [OF Suc.IH(1) x v] have ih: "json_loadable x" "set u \<subseteq> set s" by simp_all
      obtain d w where d: "skip_ws u = d # w" using p x by (cases "skip_ws u") auto
      then have w: "set w \<subseteq> set s" "set (skip_ws w) \<subseteq> set s"
        using ih(2) skip_ws_tail [of u] skip_ws_tail [of w] by auto
      consider "xs = [x]" "t = w" | ys where "parse_elems n (skip_ws w) = Some (ys, t)" "xs = x # ys"
        using p x d by (auto simp: cons_fst_def split: if_splits)
      then show "json_loadable (JArr xs) \<and> set t \<subseteq> set s"
      proof cases
        case 2
        from reads_loadableD [OF Suc.IH(2) 2(1) valid_subset [OF v w(2)]] 2(2) ih w show ?thesis by auto
      qed (use ih w in auto)
    qed
  next
    case 3
    show ?case
      unfolding reads_loadable_def
    proof (intro impI allI)
      fix kvs t assume v: "valid_str s" and p: "parse_members (Suc n) s = Some (kvs, t)"
      then obtain r where s: "s = 34 # r" by (cases s) (auto split: if_splits)
      then obtain k u where k: "parse_string r = Some (k, u)" using p by (auto split: option.splits)
      have r: "valid_str r" using v s by simp
      from parse_string_result [OF k r] have key: "loadable k" "set u \<subseteq> set s" using s by auto
      have "set (tl (skip_ws u)) \<subseteq> set (skip_ws u)" by (cases "skip_ws u") auto
      then have q: "set (skip_ws (tl (skip_ws u))) \<subseteq> set s"
        using key(2) skip_ws_tail [of u] skip_ws_tail [of "tl (skip_ws u)"] by blast
      obtain x w where x: "parse_value n (skip_ws (tl (skip_ws u))) = Some (x, w)"
        using p s k by (auto split: option.splits if_splits)
      from reads_loadableD [OF Suc.IH(1) x valid_subset [OF v q]] q have ih: "json_loadable x" "set w \<subseteq> set s" by auto
      obtain d z where d: "skip_ws w = d # z" using p s k x by (cases "skip_ws w") (auto split: if_splits)
      then have z: "set z \<subseteq> set s" "set (skip_ws z) \<subseteq> set s"
        using ih(2) skip_ws_tail [of w] skip_ws_tail [of z] by auto
      consider "kvs = [(k, x)]" "t = z" | ys where "parse_members n (skip_ws z) = Some (ys, t)" "kvs = (k, x) # ys"
        using p s k x d by (auto simp: cons_fst_def split: if_splits)
      then show "json_loadable (JObj kvs) \<and> set t \<subseteq> set s"
      proof cases
        case 2
        from reads_loadableD [OF Suc.IH(3) 2(1) valid_subset [OF v z(2)]] 2(2) ih key z show ?thesis by auto
      qed (use ih key z in auto)
    qed
  }
qed (simp_all add: reads_loadable_def)

lemma loads_loadable:
  assumes "loads s = Inr j" "valid_str s" shows "json_loadable j"
proof -
  obtain r where "parse_value (Suc (length s)) (skip_ws s) = Some (j, r)"
    using assms(1) by (auto simp: loads_def split: option.splits if_splits simp del: parse_value.simps)
  from reads_loadableD [OF parse_loadable(1) this] valid_subset [OF assms(2) skip_ws_tail] show ?thesis by blast
qed

text \<open>What the strict decoder of UTF-8 returns holds no surrogate.\<close>

lemma utf8_nats_valid: "utf8_nats ns = Some s \<Longrightarrow> valid_str s"
proof (induction ns arbitrary: s rule: utf8_nats.induct)
  case (2 a xs)
  note prems = "2.prems" and IH = "2.IH"
  show ?case
  proof (cases "a < 0x80")
    case True
    with prems IH(1) show ?thesis by (auto simp: scalar_def)
  next
    case a: False
    then obtain b ys where xs: "xs = b # ys" using prems by (cases xs) auto
    show ?thesis
    proof (cases "0xC2 \<le> a \<and> a < 0xE0")
      case True
      then obtain r where r: "utf8_nats ys = Some r" "s = ((a - 0xC0) * 64 + (b - 0x80)) # r" "is_cont b"
        using prems a xs by (auto split: if_splits)
      have "a - 0xC0 \<le> 31" "b - 0x80 \<le> 63" using True r(3) by (auto simp: is_cont_def)
      then have "(a - 0xC0) * 64 + (b - 0x80) < 0xD800" by linarith
      with IH(2) [OF a xs True r(3,1)] r(2) show ?thesis by (simp add: scalar_def)
    next
      case b: False
      then obtain c zs where ys: "ys = c # zs" using prems a xs by (cases ys) auto
      show ?thesis
      proof (cases "0xE0 \<le> a \<and> a < 0xF0")
        case True
        define p where "p = (a - 0xE0) * 4096 + (b - 0x80) * 64 + (c - 0x80)"
        have ok: "is_cont b \<and> is_cont c \<and> 0x800 \<le> p \<and> \<not> (0xD800 \<le> p \<and> p < 0xE000)"
          and z: "map_option ((#) p) (utf8_nats zs) = Some s"
          using prems a b xs ys True by (auto simp: Let_def p_def split: if_splits)
        then obtain r where r: "utf8_nats zs = Some r" "s = p # r" by auto
        have "scalar p" using ok True by (auto simp: scalar_def is_cont_def p_def)
        with IH(3) [OF a xs b ys True p_def ok r(1)] r(2) show ?thesis by simp
      next
        case c: False
        then obtain d ws where zs: "zs = d # ws" using prems a b xs ys by (cases zs) auto
        define p where "p = (a - 0xF0) * 262144 + (b - 0x80) * 4096 + (c - 0x80) * 64 + (d - 0x80)"
        have ok: "0xF0 \<le> a \<and> is_cont b \<and> is_cont c \<and> is_cont d \<and> 0x10000 \<le> p \<and> p < 0x110000"
          and z: "map_option ((#) p) (utf8_nats ws) = Some s"
          using prems a b c xs ys zs by (auto simp: Let_def p_def split: if_splits)
        then obtain r where r: "utf8_nats ws = Some r" "s = p # r" by auto
        have "scalar p" using ok by (simp add: scalar_def)
        with IH(4) [OF a xs b ys c zs p_def ok r(1)] r(2) show ?thesis by simp
      qed
    qed
  qed
qed simp

lemma utf8_decode_valid: "utf8_decode b = Inr s \<Longrightarrow> valid_str s"
  by (auto simp: utf8_decode_def utf8_nats_valid split: option.splits)

end
