(* ===== verification/JsonLayout.thy ===== *)
theory JsonLayout
  imports JsonStrings
begin

text \<open>
  The other two layouts of \<open>json.dumps(x, sort_keys=True)\<close> that the program writes: with the
  default separators (the lines of the log) and with \<open>indent=2\<close> (the files of evidence). A text
  \<open>spells\<close> a value when it is a JSON text of it with white space at will; both layouts spell the
  sorted value, and the parser returns the value that a text spells.
\<close>

fun dumps_spaced :: "json \<Rightarrow> str" where
  "dumps_spaced (JArr xs) = 91 # join (lit '', '') (map dumps_spaced xs) @ [93]"
| "dumps_spaced (JObj kvs) =
     123 # join (lit '', '')
       (map (\<lambda>(k, d). quote k @ lit '': '' @ d) (sort_key fst (map (\<lambda>(k, v). (k, dumps_spaced v)) kvs)))
     @ [125]"
| "dumps_spaced j = dumps j"

text \<open>The line break before an item at the given depth.\<close>

definition newline :: "nat \<Rightarrow> str" where
  "newline depth = 10 # replicate (2 * depth) 32"

fun dumps_indent :: "nat \<Rightarrow> json \<Rightarrow> str" where
  "dumps_indent n (JArr xs) =
     (if xs = [] then lit ''[]''
      else 91 # newline (n + 1) @ join (44 # newline (n + 1)) (map (dumps_indent (n + 1)) xs) @ newline n @ [93])"
| "dumps_indent n (JObj kvs) =
     (if kvs = [] then lit ''{}''
      else 123 # newline (n + 1)
        @ join (44 # newline (n + 1))
            (map (\<lambda>(k, d). quote k @ lit '': '' @ d)
               (sort_key fst (map (\<lambda>(k, v). (k, dumps_indent (n + 1) v)) kvs)))
        @ newline n @ [125])"
| "dumps_indent n j = dumps j"

subsection \<open>Numbers with a fraction\<close>

text \<open>The texts that the parser keeps as a \<open>float\<close>; they are read as written before any delimiter.\<close>

definition number_text :: "str \<Rightarrow> bool" where
  "number_text l \<longleftrightarrow> parse_number l = Some (JFloat l, [])"

lemma span_append:
  "r = [] \<or> \<not> P (hd r) \<Longrightarrow>
     takeWhile P (xs @ r) = takeWhile P xs \<and> dropWhile P (xs @ r) = dropWhile P xs @ r"
  by (induction xs) (cases r; auto)+

lemma digits_append:
  assumes "delim r"
  shows "takeWhile is_digit (xs @ r) = takeWhile is_digit xs \<and> dropWhile is_digit (xs @ r) = dropWhile is_digit xs @ r"
proof (rule span_append)
  show "r = [] \<or> \<not> is_digit (hd r)" using assms by (auto simp: delim_def is_digit_def is_ws_def)
qed

lemma parse_nat_append: "delim r \<Longrightarrow> parse_nat s = Some (ds, t) \<Longrightarrow> parse_nat (s @ r) = Some (ds, t @ r) \<and> s = ds @ t"
  by (cases s) (auto simp: parse_nat_def digits_append split: if_splits)

lemma parse_frac_append: "delim r \<Longrightarrow> parse_frac s = (fr, t) \<Longrightarrow> parse_frac (s @ r) = (fr, t @ r) \<and> s = fr @ t"
  using digits_append [of r "tl s"] delim_no_frac(1) [of r]
  by (cases s) (auto simp: parse_frac_def split: if_splits)

lemma parse_sign_append:
  "delim r \<Longrightarrow> parse_sign s = (sg, t) \<Longrightarrow> parse_sign (s @ r) = (sg, t @ r) \<and> s = sg @ t"
  by (cases s; cases r) (auto simp: parse_sign_def delim_def is_ws_def split: if_splits)

lemma parse_exp_append: "delim r \<Longrightarrow> parse_exp s = (ex, t) \<Longrightarrow> parse_exp (s @ r) = (ex, t @ r) \<and> s = ex @ t"
proof (cases s)
  case Nil
  assume "delim r" "parse_exp s = (ex, t)"
  then show ?thesis using Nil delim_no_frac(2) [of r] by (simp add: parse_exp_def)
next
  case (Cons e s')
  assume d: "delim r" and p: "parse_exp s = (ex, t)"
  obtain sg u where u: "parse_sign s' = (sg, u)" by force
  note sign = parse_sign_append [OF d u]
  from p Cons u sign digits_append [OF d, of u] show ?thesis
    by (auto simp: parse_exp_def split: if_splits)
qed

lemma number_text_shape:
  assumes "number_text l"
  obtains neg s ds fr ex where "parse_minus l = (neg, s)" "l = (if neg then [45] else []) @ s" "s = ds @ fr @ ex"
    "ds \<noteq> []" "is_digit (hd ds)" "\<And>r. delim r \<Longrightarrow> parse_nat (s @ r) = Some (ds, fr @ ex @ r)"
    "\<And>r. delim r \<Longrightarrow> parse_frac (fr @ ex @ r) = (fr, ex @ r)" "\<And>r. delim r \<Longrightarrow> parse_exp (ex @ r) = (ex, r)"
    "\<not> (fr = [] \<and> ex = [])"
proof -
  obtain neg s where m: "parse_minus l = (neg, s)" by force
  from assms m obtain ds t where n: "parse_nat s = Some (ds, t)"
    by (auto simp: number_text_def parse_number_def split: option.splits)
  obtain fr u where f: "parse_frac t = (fr, u)" by force
  obtain ex v where e: "parse_exp u = (ex, v)" by force
  from assms m n f e have v: "v = []" "\<not> (fr = [] \<and> ex = [])"
    by (auto simp: number_text_def parse_number_def split: if_splits)
  have s: "s = ds @ fr @ ex" "t = fr @ ex" "u = ex"
    using parse_nat_append [OF _ n, of "[]"] parse_frac_append [OF _ f, of "[]"] parse_exp_append [OF _ e, of "[]"] v
    by simp_all
  have "ds \<noteq> []" "is_digit (hd ds)"
    using n by (auto simp: parse_nat_def is_digit_def split: list.splits if_splits)
  moreover have "l = (if neg then [45] else []) @ s"
    using m by (auto simp: parse_minus_def split: list.splits if_splits)
  ultimately show thesis
    using that [of neg s ds fr ex] m s v parse_nat_append [OF _ n] parse_frac_append [OF _ f] parse_exp_append [OF _ e]
    by simp
qed

lemma parse_number_text:
  assumes "number_text l" "delim r" shows "parse_number (l @ r) = Some (JFloat l, r)"
proof -
  obtain neg s ds fr ex where l: "parse_minus l = (neg, s)" "l = (if neg then [45] else []) @ s" "s = ds @ fr @ ex"
    "ds \<noteq> []" "is_digit (hd ds)" "\<And>r. delim r \<Longrightarrow> parse_nat (s @ r) = Some (ds, fr @ ex @ r)"
    "\<And>r. delim r \<Longrightarrow> parse_frac (fr @ ex @ r) = (fr, ex @ r)" "\<And>r. delim r \<Longrightarrow> parse_exp (ex @ r) = (ex, r)"
    "\<not> (fr = [] \<and> ex = [])" by (rule number_text_shape [OF assms(1)]) blast
  have "s @ r = hd ds # tl ds @ fr @ ex @ r" using l(3,4) by simp
  then have "parse_minus (l @ r) = (neg, s @ r)"
    using l(2,5) by (cases neg) (auto simp: parse_minus_def is_digit_def)
  then show ?thesis using l(6-9) assms(2) l(2,3) by (auto simp: parse_number_def)
qed

lemma number_text_hd:
  assumes "number_text l"
  obtains (neg) d ds where "l = 45 # d # ds" "is_digit d" | (nonneg) d ds where "l = d # ds" "is_digit d"
proof -
  obtain neg s ds fr ex where "l = (if neg then [45] else []) @ s" "s = ds @ fr @ ex" "ds \<noteq> []" "is_digit (hd ds)"
    by (rule number_text_shape [OF assms]) blast
  then have "l = (if neg then [45] else []) @ hd ds # tl ds @ fr @ ex" by simp
  with \<open>is_digit (hd ds)\<close> that show thesis by (cases neg) auto
qed

lemma parse_word_text:
  assumes "number_text l" "delim r" shows "parse_word (l @ r) = Some (JFloat l, r)"
proof -
  have "strip_prefix (lit w) (l @ r) = None"
    if "w \<in> {''null'', ''true'', ''false'', ''NaN'', ''Infinity'', ''-Infinity''}" for w
  proof (cases rule: number_text_hd [OF assms(1)])
    case (1 d ds)
    then have "d \<noteq> 73" by (auto simp: is_digit_def)
    with 1 that show ?thesis by (elim insertE; simp add: lit_Cons)
  next
    case (2 d ds)
    then have "d \<noteq> 110" "d \<noteq> 116" "d \<noteq> 102" "d \<noteq> 78" "d \<noteq> 73" "d \<noteq> 45"
      by (auto simp: is_digit_def)
    with 2 that show ?thesis by (elim insertE; simp add: lit_Cons)
  qed
  then show ?thesis by (simp add: parse_word_def parse_number_text assms)
qed

text \<open>What \<open>repr\<close> gives of a \<open>float\<close>, and how its dump is read.\<close>

definition float_repr :: "str \<Rightarrow> bool" where
  "float_repr l \<longleftrightarrow> number_text l \<or> l \<in> {lit ''nan'', lit ''inf'', lit ''-inf''}"

lemma no_number_texts: "\<not> number_text (lit ''nan'')" "\<not> number_text (lit ''inf'')" "\<not> number_text (lit ''-inf'')"
  by (simp_all add: number_text_def parse_number_def parse_minus_def parse_nat_def lit_Cons is_digit_def)

lemma number_float_text: "number_text l \<Longrightarrow> float_text l = l"
  using no_number_texts by (auto simp: float_text_def)

lemma parse_word_float:
  assumes "float_repr l" "delim r" shows "parse_word (float_text l @ r) = Some (JFloat l, r)"
proof (cases "number_text l")
  case True
  then show ?thesis using assms(2) by (simp add: number_float_text parse_word_text)
next
  case False
  with assms(1) consider "l = lit ''nan''" | "l = lit ''inf''" | "l = lit ''-inf''" by (auto simp: float_repr_def)
  then show ?thesis by cases (simp_all add: float_text_def parse_word_def lit_Cons)
qed

lemma float_text_hd:
  assumes "float_repr l"
  obtains c t where "float_text l = c # t" "\<not> is_ws c" "c \<notin> {34, 91, 93, 123, 125}"
proof (cases "number_text l")
  case True
  from True show thesis
  proof (cases rule: number_text_hd)
    case (neg d ds)
    then show thesis using that number_float_text [OF True] by (simp add: is_ws_def)
  next
    case (nonneg d ds)
    then show thesis using that number_float_text [OF True] by (auto simp: is_ws_def is_digit_def)
  qed
next
  case False
  with assms consider "l = lit ''nan''" | "l = lit ''inf''" | "l = lit ''-inf''" by (auto simp: float_repr_def)
  then have "float_text l \<in> {lit ''NaN'', lit ''Infinity'', lit ''-Infinity''}"
    by cases (simp_all add: float_text_def)
  then show thesis
    using that [of 78 "lit ''aN''"] that [of 73 "lit ''nfinity''"] that [of 45 "lit ''Infinity''"]
    by (auto simp: lit_Cons is_ws_def)
qed

text \<open>Values that can be written and read back, floating-point numbers and lone surrogates included.\<close>

fun json_text :: "json \<Rightarrow> bool" where
  "json_text (JFloat l) = float_repr l"
| "json_text (JStr s) = loadable s"
| "json_text (JArr xs) = (\<forall>x\<in>set xs. json_text x)"
| "json_text (JObj kvs) = (wf_dict kvs \<and> (\<forall>(k, v)\<in>set kvs. loadable k \<and> json_text v))"
| "json_text _ = True"

lemma json_ok_text: "json_ok j \<Longrightarrow> json_text j"
  by (induction j rule: json_text.induct) auto

subsection \<open>Texts of a value\<close>

abbreviation blank :: "str \<Rightarrow> bool" where
  "blank w \<equiv> list_all is_ws w"

lemma blank_newline: "blank (newline n)"
  by (simp add: newline_def is_ws_def list_all_iff)

fun is_atom :: "json \<Rightarrow> bool" where
  "is_atom (JArr _) = False"
| "is_atom (JObj _) = False"
| "is_atom _ = True"

text \<open>The texts of items and members go up to the closing bracket.\<close>

inductive spells :: "json \<Rightarrow> str \<Rightarrow> bool"
  and spells_items :: "json list \<Rightarrow> str \<Rightarrow> bool"
  and spells_members :: "(str \<times> json) list \<Rightarrow> str \<Rightarrow> bool"
where
  atom: "is_atom j \<Longrightarrow> json_text j \<Longrightarrow> spells j (dumps j)"
| no_items: "spells (JArr []) [91, 93]"
| no_members: "spells (JObj []) [123, 125]"
| items: "spells_items xs t \<Longrightarrow> blank w \<Longrightarrow> spells (JArr xs) (91 # w @ t)"
| members: "spells_members kvs t \<Longrightarrow> blank w \<Longrightarrow> wf_dict kvs \<Longrightarrow> spells (JObj kvs) (123 # w @ t)"
| last_item: "spells x t \<Longrightarrow> blank w \<Longrightarrow> spells_items [x] (t @ w @ [93])"
| item: "spells x t \<Longrightarrow> blank w \<Longrightarrow> spells_items xs u \<Longrightarrow> spells_items (x # xs) (t @ 44 # w @ u)"
| last_member: "loadable k \<Longrightarrow> blank b \<Longrightarrow> spells v t \<Longrightarrow> blank w \<Longrightarrow>
    spells_members [(k, v)] (quote k @ 58 # b @ t @ w @ [125])"
| member: "loadable k \<Longrightarrow> blank b \<Longrightarrow> spells v t \<Longrightarrow> blank w \<Longrightarrow> spells_members kvs u \<Longrightarrow>
    spells_members ((k, v) # kvs) (quote k @ 58 # b @ t @ 44 # w @ u)"

lemma skip_ws_blank: "blank w \<Longrightarrow> skip_ws (w @ r) = skip_ws r"
  by (induction w) (simp_all add: skip_ws_def)

text \<open>A text of a value begins with neither white space nor a closing bracket.\<close>

definition starts_value :: "str \<Rightarrow> bool" where
  "starts_value t \<longleftrightarrow> (\<exists>c r. t = c # r \<and> \<not> is_ws c \<and> c \<noteq> 93 \<and> c \<noteq> 125)"

lemma starts_value_append: "starts_value t \<Longrightarrow> starts_value (t @ r)"
  by (auto simp: starts_value_def)

lemma starts_value_quote: "starts_value (quote k @ r)"
  by (simp add: starts_value_def quote_def is_ws_def)

lemma starts_value_skip: "starts_value t \<Longrightarrow> skip_ws t = t \<and> \<not> starts_with 93 t \<and> \<not> starts_with 125 t"
  by (auto simp: starts_value_def skip_ws_nows)

lemma atom_starts: "is_atom j \<Longrightarrow> json_text j \<Longrightarrow> starts_value (dumps j)"
proof (cases j)
  case (JFloat l)
  assume "json_text j"
  then have "float_repr l" by (simp add: JFloat)
  then show ?thesis by (rule float_text_hd) (simp add: JFloat starts_value_def)
qed (auto simp: starts_value_def quote_def is_ws_def intro: dumps_hd [of j])

lemma atom_parses: "is_atom j \<Longrightarrow> json_text j \<Longrightarrow> length (dumps j) < n \<Longrightarrow> delim r \<Longrightarrow> parse_value n (dumps j @ r) = Some (j, r)"
proof (cases j)
  case (JFloat l)
  assume j: "json_text j" "delim r" "length (dumps j) < n"
  then obtain m where m: "n = Suc m" by (cases n) auto
  from j JFloat have l: "float_repr l" "parse_word (float_text l @ r) = Some (JFloat l, r)"
    by (simp_all add: parse_word_float)
  from l(1) show ?thesis by (rule float_text_hd) (use l(2) in \<open>simp add: JFloat m\<close>)
next
  case (JStr x)
  assume "json_text j" "length (dumps j) < n"
  then show ?thesis by (cases n) (simp_all add: JStr quote_def parse_string_loadable)
qed (use reads_back [of j] in \<open>simp_all add: reads_back_def\<close>)

lemma spells_starts:
  "spells j t \<Longrightarrow> starts_value t" "spells_items xs u \<Longrightarrow> starts_value u"
  "spells_members kvs v \<Longrightarrow> starts_value v"
proof (induction rule: spells_spells_items_spells_members.inducts)
  case (atom j)
  show ?case by (rule atom_starts [OF atom])
qed (simp_all add: starts_value_append starts_value_quote, simp_all add: starts_value_def is_ws_def)

lemma spells_skip: "spells j t \<Longrightarrow> skip_ws (t @ r) = t @ r"
  by (simp add: spells_starts(1) starts_value_append starts_value_skip)

text \<open>The parser returns the value that a text spells.\<close>

lemma delim_blank: "blank w \<Longrightarrow> delim (w @ 93 # r) \<and> delim (w @ 125 # r)"
  by (cases w) simp_all

lemma parse_spelt:
  "spells j t \<Longrightarrow> length t < n \<Longrightarrow> delim r \<Longrightarrow> parse_value n (t @ r) = Some (j, r)"
  "spells_items xs u \<Longrightarrow> length u < n \<Longrightarrow> parse_elems n (u @ r) = Some (xs, r)"
  "spells_members kvs v \<Longrightarrow> length v < n \<Longrightarrow> parse_members n (v @ r) = Some (kvs, r)"
proof (induction arbitrary: n r and n r and n r rule: spells_spells_items_spells_members.inducts)
  case (atom j)
  then show ?case by (simp add: atom_parses)
next
  case no_items
  then show ?case by (cases n) simp_all
next
  case no_members
  then show ?case by (cases n) simp_all
next
  case (items xs t w)
  then obtain m where n: "n = Suc m" "length t < m" by (cases n) auto
  have "starts_value (t @ r)" using items.hyps(1) by (simp add: spells_starts starts_value_append)
  then have "skip_ws (w @ t @ r) = t @ r" "\<not> starts_with 93 (t @ r)"
    using items.hyps(2) by (simp_all add: skip_ws_blank starts_value_skip)
  with n items.IH show ?case by simp
next
  case (members kvs t w)
  then obtain m where n: "n = Suc m" "length t < m" by (cases n) auto
  have "starts_value (t @ r)" using members.hyps(1) by (simp add: spells_starts starts_value_append)
  then have "skip_ws (w @ t @ r) = t @ r" "\<not> starts_with 125 (t @ r)"
    using members.hyps(2) by (simp_all add: skip_ws_blank starts_value_skip)
  with n members.IH members.hyps(3) show ?case by (simp add: fold_dput_Nil)
next
  case (last_item x t w)
  then obtain m where n: "n = Suc m" "length t < m" by (cases n) auto
  have "parse_value m (t @ w @ 93 # r) = Some (x, w @ 93 # r)"
    using last_item.IH n(2) delim_blank [OF last_item.hyps(2)] by simp
  then show ?case using last_item.hyps(2) by (simp add: n skip_ws_blank)
next
  case (item x t w xs u)
  then obtain m where n: "n = Suc m" "length t < m" "length u < m" by (cases n) auto
  have "parse_value m (t @ 44 # w @ u @ r) = Some (x, 44 # w @ u @ r)" using item.IH(1) n(2) by simp
  moreover have "skip_ws (w @ u @ r) = u @ r"
    using item.hyps by (simp add: skip_ws_blank spells_starts starts_value_append starts_value_skip)
  ultimately show ?case using item.IH(2) n(3) by (simp add: n(1) cons_fst_def)
next
  case (last_member k b v t w)
  then obtain m where n: "n = Suc m" "length t < m" by (cases n) (auto simp: quote_def)
  have "parse_value m (t @ w @ 125 # r) = Some (v, w @ 125 # r)"
    using last_member.IH n(2) delim_blank [OF last_member.hyps(4)] by simp
  then show ?case using last_member.hyps
    by (simp add: n(1) quote_def parse_string_loadable skip_ws_blank spells_skip)
next
  case (member k b v t w kvs u)
  then obtain m where n: "n = Suc m" "length t < m" "length u < m" by (cases n) (auto simp: quote_def)
  have "parse_value m (t @ 44 # w @ u @ r) = Some (v, 44 # w @ u @ r)" using member.IH(1) n(2) by simp
  moreover have "skip_ws (w @ u @ r) = u @ r"
    using member.hyps by (simp add: skip_ws_blank spells_starts starts_value_append starts_value_skip)
  ultimately show ?case using member.IH(2) member.hyps n(3)
    by (simp add: n(1) quote_def parse_string_loadable skip_ws_blank spells_skip cons_fst_def)
qed

lemma loads_spelt:
  assumes "spells j t" "blank w" "blank w'" shows "loads (w @ t @ w') = Inr j"
proof -
  have "delim w'" using assms(3) by (cases w') simp_all
  then have "parse_value (Suc (length (w @ t @ w'))) (t @ w') = Some (j, w')"
    using assms(1) by (intro parse_spelt(1)) simp_all
  moreover have "skip_ws (w @ t @ w') = t @ w'"
    using assms by (simp add: skip_ws_blank spells_skip)
  moreover have "skip_ws w' = []" using skip_ws_blank [OF assms(3), of "[]"] by simp
  ultimately show ?thesis by (simp add: loads_def)
qed

subsection \<open>Both layouts spell the sorted value\<close>

lemma spells_items_join:
  assumes "xs \<noteq> []" "\<And>x. x \<in> set xs \<Longrightarrow> spells (f x) (g x)" "blank w" "blank e"
  shows "spells_items (map f xs) (join (44 # w) (map g xs) @ e @ [93])"
  using assms(1,2)
proof (induction xs rule: remdups_adj.induct)
  case (2 x)
  then show ?case using last_item [of "f x" "g x" e] assms(4) by simp
next
  case (3 x y xs)
  have "spells_items (f y # map f xs) (join (44 # w) (g y # map g xs) @ e @ [93])"
    using 3 by (cases "x = y") auto
  with 3 item [of "f x" "g x" w "f y # map f xs"] assms(3) show ?case by simp
qed simp

lemma spells_members_join:
  assumes "kvs \<noteq> []" "\<And>k v. (k, v) \<in> set kvs \<Longrightarrow> loadable k \<and> spells (f v) (g v)"
    "blank w" "blank e" "blank b"
  shows "spells_members (map (\<lambda>(k, v). (k, f v)) kvs)
    (join (44 # w) (map (\<lambda>(k, v). quote k @ 58 # b @ g v) kvs) @ e @ [125])"
  using assms(1,2)
proof (induction kvs rule: list_nonempty_induct)
  case (single p)
  then show ?case using last_member [of _ b _ _ e] assms(4,5) by (cases p) simp
next
  case (cons p kvs)
  obtain k v where p: "p = (k, v)" by (cases p)
  have "spells_members (map (\<lambda>(k, v). (k, f v)) kvs)
    (join (44 # w) (map (\<lambda>(k, v). quote k @ 58 # b @ g v) kvs) @ e @ [125])"
    using cons by auto
  with cons.prems [of k v] cons.hyps show ?case
    using member [of k b "f v" "g v" w] assms(3,5) by (simp add: p join_Cons)
qed


text \<open>An object whose members are written in the order of their keys.\<close>

lemma spells_object:
  assumes "kvs \<noteq> []" "json_text (JObj kvs)" "\<And>k v. (k, v) \<in> set kvs \<Longrightarrow> spells (jsort v) (g v)"
    "blank a" "blank w" "blank e"
  shows "spells (jsort (JObj kvs))
    (123 # a @ join (44 # w)
       (map (\<lambda>(k, d). quote k @ lit '': '' @ d) (sort_key fst (map (\<lambda>(k, v). (k, g v)) kvs))) @ e @ [125])"
proof -
  define ms where "ms = sort_key fst kvs"
  have "ms \<noteq> []" "\<And>k v. (k, v) \<in> set ms \<Longrightarrow> loadable k \<and> spells (jsort v) (g v)"
    using assms(1,2,3) by (auto simp: ms_def) (metis list.size(3) length_sort length_0_conv)
  from spells_members_join [OF this assms(5,6), where b = "[32]"]
  have "spells_members (map (\<lambda>(k, v). (k, jsort v)) ms)
    (join (44 # w) (map (\<lambda>(k, v). quote k @ 58 # [32] @ g v) ms) @ e @ [125])"
    by (simp add: is_ws_def)
  moreover have "wf_dict (map (\<lambda>(k, v). (k, jsort v)) ms)"
    using assms(2) unfolding ms_def by (intro wf_dict_sorted) simp
  moreover have "map (\<lambda>(k, d). quote k @ lit '': '' @ d) (sort_key fst (map (\<lambda>(k, v). (k, g v)) kvs))
      = map (\<lambda>(k, v). quote k @ 58 # [32] @ g v) ms"
    by (simp only: sort_key_map_fst flip: ms_def) (simp add: lit_Cons split_def)
  ultimately show ?thesis
    using members [OF _ assms(4)] by (simp add: jsort_JObj del: jsort.simps flip: ms_def)
qed

lemma spells_atom: "is_atom j \<Longrightarrow> json_text j \<Longrightarrow> dumps j = t \<Longrightarrow> spells j t"
  using atom by blast

lemma dumps_indent_spells: "json_text j \<Longrightarrow> spells (jsort j) (dumps_indent n j)"
proof (induction n j rule: dumps_indent.induct)
  case (1 n xs)
  show ?case
  proof (cases "xs = []")
    case False
    have "spells_items (map jsort xs) (join (44 # newline (n + 1)) (map (dumps_indent (n + 1)) xs) @ newline n @ [93])"
      using 1 False by (intro spells_items_join blank_newline) auto
    with False items [OF _ blank_newline] show ?thesis by simp
  qed (simp add: lit_Cons no_items)
next
  case (2 n kvs)
  show ?case
  proof (cases "kvs = []")
    case False
    have "spells (jsort v) (dumps_indent (n + 1) v)" if "(k, v) \<in> set kvs" for k v
      using 2(1) [OF False, of "(k, v)" k v] 2(2) that by auto
    from spells_object [OF False 2(2) this blank_newline blank_newline blank_newline] False
    show ?thesis by (simp del: jsort.simps)
  qed (simp add: lit_Cons no_members)
qed (auto intro: spells_atom)

lemma dumps_spaced_spells: "json_text j \<Longrightarrow> spells (jsort j) (dumps_spaced j)"
proof (induction j rule: dumps_spaced.induct)
  case (1 xs)
  show ?case
  proof (cases "xs = []")
    case False
    have "spells_items (map jsort xs) (join (44 # [32]) (map dumps_spaced xs) @ [] @ [93])"
      using 1 False by (intro spells_items_join) (auto simp: is_ws_def)
    with items [OF _, of _ _ "[]"] show ?thesis by (simp add: lit_Cons)
  qed (simp add: no_items)
next
  case (2 kvs)
  show ?case
  proof (cases "kvs = []")
    case False
    have "spells (jsort v) (dumps_spaced v)" if "(k, v) \<in> set kvs" for k v
      using 2(1) [of "(k, v)" k v] 2(2) that by auto
    from spells_object [OF False 2(2) this, where a = "[]" and w = "[32]" and e = "[]"]
    show ?thesis by (simp add: lit_Cons is_ws_def del: jsort.simps)
  qed (simp add: no_members)
qed (auto intro: spells_atom)

theorem loads_layouts:
  assumes "json_text j"
  shows "loads (dumps_indent n j) = Inr (jsort j)" and "loads (dumps_spaced j) = Inr (jsort j)"
  using loads_spelt [of _ _ "[]" "[]"] dumps_indent_spells [OF assms] dumps_spaced_spells [OF assms]
  by simp_all

text \<open>Both layouts are ASCII.\<close>

lemma parse_frac_ascii: "parse_frac s = (fr, t) \<Longrightarrow> c \<in> set fr \<Longrightarrow> c < 128"
  by (auto simp: parse_frac_def is_digit_def split: list.splits if_splits dest!: set_takeWhileD)

lemma parse_exp_ascii: "parse_exp s = (ex, t) \<Longrightarrow> c \<in> set ex \<Longrightarrow> c < 128"
  by (auto simp: parse_exp_def parse_sign_def is_digit_def split: list.splits if_splits dest!: set_takeWhileD)

lemma parse_nat_ascii: "parse_nat s = Some (ds, t) \<Longrightarrow> c \<in> set ds \<Longrightarrow> c < 128"
  by (auto simp: parse_nat_def is_digit_def split: list.splits if_splits dest!: set_takeWhileD)

lemma number_text_ascii: "number_text l \<Longrightarrow> c \<in> set l \<Longrightarrow> c < 128"
proof -
  assume "number_text l" "c \<in> set l"
  then obtain neg s ds fr ex where l: "l = (if neg then [45] else []) @ s" "s = ds @ fr @ ex"
    "parse_nat (s @ []) = Some (ds, fr @ ex @ [])" "parse_frac (fr @ ex @ []) = (fr, ex @ [])"
    "parse_exp (ex @ []) = (ex, [])"
    by (elim number_text_shape) (metis delim_simps(1))
  with \<open>c \<in> set l\<close> parse_nat_ascii [OF l(3)] parse_frac_ascii [OF l(4)] parse_exp_ascii [OF l(5)]
  show ?thesis by (auto split: if_splits)
qed

lemma float_text_ascii: "float_repr l \<Longrightarrow> c \<in> set (float_text l) \<Longrightarrow> c < 128"
  using number_text_ascii by (auto simp: float_repr_def number_float_text) (auto simp: float_text_def lit_Cons)

lemma atom_ascii: "is_atom j \<Longrightarrow> json_text j \<Longrightarrow> c \<in> set (dumps j) \<Longrightarrow> c < 128"
  by (cases j) (auto simp: lit_Cons dest: float_text_ascii str_int_ascii quote_ascii split: if_splits)

lemma spells_ascii:
  "spells j t \<Longrightarrow> c \<in> set t \<Longrightarrow> c < 128" "spells_items xs u \<Longrightarrow> c \<in> set u \<Longrightarrow> c < 128"
  "spells_members kvs v \<Longrightarrow> c \<in> set v \<Longrightarrow> c < 128"
  by (induction rule: spells_spells_items_spells_members.inducts)
     (auto simp: list_all_iff is_ws_def dest: atom_ascii quote_ascii)

lemma layout_valid:
  assumes "json_text j" shows "valid_str (dumps_indent n j)" "valid_str (dumps_spaced j)"
  using spells_ascii(1) [OF dumps_indent_spells [OF assms]] spells_ascii(1) [OF dumps_spaced_spells [OF assms]]
  by (blast intro: ascii_valid_str)+

end
