(* ===== verification/Files.thy ===== *)
theory Files
  imports JsonLayout
begin

text \<open>
  What the scripts use of the file system and of the \<open>csv\<close> module, and how they are run: a
  script is a function from the state of its world to its result and the state that it leaves,
  so that an exception keeps what was done before it. A file is its text; a directory is known
  by its path.
\<close>

subsection \<open>Statements in sequence\<close>

type_synonym ('s, 'a) script = "'s \<Rightarrow> (exn + 'a) \<times> 's"

definition seq_do :: "('s, 'a) script \<Rightarrow> ('a \<Rightarrow> ('s, 'b) script) \<Rightarrow> ('s, 'b) script" where
  "seq_do m f s = (case m s of (Inl e, s') \<Rightarrow> (Inl e, s') | (Inr x, s') \<Rightarrow> f x s')"

definition give :: "exn + 'a \<Rightarrow> ('s, 'a) script" where
  "give r s = (r, s)"

definition change :: "('s \<Rightarrow> 's) \<Rightarrow> ('s, unit) script" where
  "change f s = (Inr (), f s)"

lemma seq_do_Inr: "m s = (Inr x, s') \<Longrightarrow> seq_do m f s = f x s'"
  by (simp add: seq_do_def)

lemma seq_do_Inl: "m s = (Inl e, s') \<Longrightarrow> seq_do m f s = (Inl e, s')"
  by (simp add: seq_do_def)

lemma give_do [simp]: "seq_do (give (Inr x)) f s = f x s" "seq_do (give (Inl e)) f s = (Inl e, s)"
  by (simp_all add: seq_do_def give_def)

lemma change_do [simp]: "seq_do (change g) f s = f () (g s)"
  by (simp add: seq_do_def change_def)

lemma seq_do_assoc: "seq_do (seq_do m f) g = seq_do m (\<lambda>x. seq_do (f x) g)"
  by (rule ext) (auto simp: seq_do_def split: prod.split sum.split)

subsection \<open>Files\<close>

record files =
  made :: "str list"
  texts :: "(str, str) dict"

definition file_exists :: "files \<Rightarrow> str \<Rightarrow> bool" where
  "file_exists fs p \<longleftrightarrow> dget (texts fs) p \<noteq> None"

text \<open>\<open>mkdir(parents=True, exist_ok=False)\<close>.\<close>

definition make_dir :: "str \<Rightarrow> (files, unit) script" where
  "make_dir p fs =
     (if p \<in> set (made fs) \<or> file_exists fs p then (Inl (FileExistsError p), fs)
      else (Inr (), fs\<lparr>made := made fs @ [p]\<rparr>))"

text \<open>
  \<open>mkdir(parents=True, exist_ok=True)\<close>, on the components of a path: every directory above it is made.
\<close>

definition dirs_down_to :: "str list \<Rightarrow> str list" where
  "dirs_down_to ps = map (\<lambda>n. join [47] (take n ps)) [1..<length ps + 1]"

definition make_dirs :: "str list \<Rightarrow> (files, unit) script" where
  "make_dirs ps fs =
     (case find (file_exists fs) (dirs_down_to ps) of
        Some p \<Rightarrow>
          (Inl (if p = join [47] ps then FileExistsError p else NotADirectoryError (join [47] ps)), fs)
      | None \<Rightarrow> (Inr (), fs\<lparr>made := made fs @ filter (\<lambda>p. p \<notin> set (made fs)) (dirs_down_to ps)\<rparr>))"

text \<open>\<open>try: m finally: fin\<close>: what \<open>fin\<close> raises replaces the outcome of \<open>m\<close>.\<close>

definition with_finally :: "('s, 'a) script \<Rightarrow> ('s, unit) script \<Rightarrow> ('s, 'a) script" where
  "with_finally m fin s =
     (case m s of (r, s') \<Rightarrow> (case fin s' of (Inl e, s'') \<Rightarrow> (Inl e, s'') | (Inr _, s'') \<Rightarrow> (r, s'')))"

text \<open>
  \<open>write_text(t, encoding="utf-8")\<close> opens the file first, so text that cannot be encoded leaves
  it empty.
\<close>

definition write_text :: "str \<Rightarrow> str \<Rightarrow> (files, unit) script" where
  "write_text p t fs =
     (if valid_str t then (Inr (), fs\<lparr>texts := dput (texts fs) p t\<rparr>)
      else (Inl UnicodeEncodeError, fs\<lparr>texts := dput (texts fs) p []\<rparr>))"

definition text_of :: "files \<Rightarrow> str \<Rightarrow> str" where
  "text_of fs p = (case dget (texts fs) p of None \<Rightarrow> [] | Some t \<Rightarrow> t)"

definition read_text :: "str \<Rightarrow> (files, str) script" where
  "read_text p fs =
     (case dget (texts fs) p of None \<Rightarrow> (Inl (FileNotFoundError p), fs) | Some t \<Rightarrow> (Inr t, fs))"

definition append_line :: "str \<Rightarrow> str \<Rightarrow> (files, unit) script" where
  "append_line p t fs =
     (if valid_str t then (Inr (), fs\<lparr>texts := dput (texts fs) p (text_of fs p @ t)\<rparr>)
      else (Inl UnicodeEncodeError, fs\<lparr>texts := dput (texts fs) p (text_of fs p)\<rparr>))"

fun append_lines :: "str \<Rightarrow> str list \<Rightarrow> (files, unit) script" where
  "append_lines p [] = give (Inr ())"
| "append_lines p (t # ts) = seq_do (append_line p t) (\<lambda>_. append_lines p ts)"

lemma append_lines_valid:
  "\<forall>t\<in>set ts. valid_str t \<Longrightarrow> ts \<noteq> [] \<Longrightarrow>
     append_lines p ts fs = (Inr (), fs\<lparr>texts := dput (texts fs) p (text_of fs p @ concat ts)\<rparr>)"
proof (induction ts arbitrary: fs)
  case (Cons t ts)
  define fs1 where "fs1 = fs\<lparr>texts := dput (texts fs) p (text_of fs p @ t)\<rparr>"
  have a: "append_line p t fs = (Inr (), fs1)" using Cons.prems by (simp add: append_line_def fs1_def)
  have t: "text_of fs1 p = text_of fs p @ t" by (simp add: text_of_def fs1_def dget_dput)
  show ?case
  proof (cases "ts = []")
    case True
    then show ?thesis using a by (simp add: seq_do_def give_def fs1_def)
  next
    case False
    then have "append_lines p ts fs1 = (Inr (), fs1\<lparr>texts := dput (texts fs1) p (text_of fs1 p @ concat ts)\<rparr>)"
      using Cons by simp
    moreover have "dput (dput d k u) k v = dput d k v" for d :: "(str, str) dict" and k u v
      by (induction d) auto
    ultimately show ?thesis using a by (simp add: seq_do_def t) (simp add: fs1_def)
  qed
qed simp

subsection \<open>Comma-separated values\<close>

text \<open>
  \<open>csv.writer\<close> with its defaults: a field that holds the delimiter, the quote or a character of
  the line terminator stands in quotes, with quotes doubled (rows of one field are not written here).
\<close>

definition csv_quoted :: "str \<Rightarrow> bool" where
  "csv_quoted s \<longleftrightarrow> list_ex (\<lambda>c. c \<in> {44, 34, 13, 10}) s"

definition csv_field :: "str \<Rightarrow> str" where
  "csv_field s =
     (if csv_quoted s then 34 # concat (map (\<lambda>c. if c = 34 then [34, 34] else [c]) s) @ [34] else s)"

definition csv_row :: "str list \<Rightarrow> str" where
  "csv_row row = join [44] (map csv_field row) @ [13, 10]"

text \<open>Reading it back: the field at the head of a text and what follows it.\<close>

fun csv_unquote :: "str \<Rightarrow> str \<times> str" where
  "csv_unquote (c # d # r) =
     (if c \<noteq> 34 then (let (s, t) = csv_unquote (d # r) in (c # s, t))
      else if d = 34 then (let (s, t) = csv_unquote r in (34 # s, t))
      else ([], d # r))"
| "csv_unquote [c] = (if c = 34 then ([], []) else ([c], []))"
| "csv_unquote [] = ([], [])"

definition csv_head :: "str \<Rightarrow> str \<times> str" where
  "csv_head t =
     (case t of
        c # r \<Rightarrow> if c = 34 then csv_unquote r else (takeWhile (\<lambda>c. c \<notin> {44, 13}) t, dropWhile (\<lambda>c. c \<notin> {44, 13}) t)
      | [] \<Rightarrow> ([], []))"

lemma csv_unquote_quoted:
  "d \<noteq> 34 \<Longrightarrow> csv_unquote (concat (map (\<lambda>c. if c = 34 then [34, 34] else [c]) s) @ 34 # d # r) = (s, d # r)"
proof (induction s)
  case (Cons c s)
  define u where "u = concat (map (\<lambda>c. if c = 34 then [34, 34] else [c]) s) @ 34 # d # r"
  have ne: "u \<noteq> []" by (simp add: u_def)
  have "csv_unquote u = (s, d # r)" using Cons by (simp add: u_def)
  with ne have "csv_unquote (c # u) = (c # s, d # r)" if "c \<noteq> 34"
    using that by (cases u) simp_all
  moreover have "csv_unquote (34 # 34 # u) = (34 # s, d # r)" using \<open>csv_unquote u = _\<close> by simp
  ultimately show ?case by (simp add: flip: u_def)
qed simp

lemma csv_head_field: "d \<in> {44, 13} \<Longrightarrow> csv_head (csv_field s @ d # r) = (s, d # r)"
proof (cases "csv_quoted s")
  case True
  assume "d \<in> {44, 13}"
  then show ?thesis using True csv_unquote_quoted [of d s r] by (auto simp: csv_field_def csv_head_def)
next
  case False
  assume d: "d \<in> {44, 13}"
  from False have s: "\<forall>c\<in>set s. c \<notin> {44, 13} \<and> c \<noteq> 34" by (auto simp: csv_quoted_def list_ex_iff)
  then have "takeWhile (\<lambda>c. c \<notin> {44, 13}) (s @ d # r) = s" "dropWhile (\<lambda>c. c \<notin> {44, 13}) (s @ d # r) = d # r"
    using d by (auto simp: takeWhile_tail dropWhile_append3 dropWhile_append2)
  then show ?thesis using False s d by (cases s) (auto simp: csv_field_def csv_head_def)
qed

lemma csv_field_inject:
  "d \<in> {44, 13} \<Longrightarrow> e \<in> {44, 13} \<Longrightarrow>
     csv_field s @ d # r = csv_field t @ e # u \<longleftrightarrow> s = t \<and> d = e \<and> r = u"
  by (metis csv_head_field list.inject prod.inject)

lemma csv_row_inject:
  "xs \<noteq> [] \<Longrightarrow> ys \<noteq> [] \<Longrightarrow> csv_row xs @ u = csv_row ys @ v \<longleftrightarrow> xs = ys \<and> u = v"
proof (induction xs arbitrary: ys rule: list_nonempty_induct)
  case (single x)
  then show ?case
    by (cases ys rule: remdups_adj.cases) (simp_all add: csv_row_def csv_field_inject)
next
  case (cons x xs)
  then obtain y zs where ys: "ys = y # zs" by (cases ys) auto
  have x: "csv_row (x # xs) @ u = csv_field x @ 44 # csv_row xs @ u"
    using cons.hyps by (simp add: csv_row_def join_Cons)
  show ?case
  proof (cases "zs = []")
    case True
    then show ?thesis using x cons.hyps by (simp add: ys) (simp add: csv_row_def csv_field_inject)
  next
    case False
    then have "csv_row ys @ v = csv_field y @ 44 # csv_row zs @ v" by (simp add: csv_row_def join_Cons ys)
    with x cons.IH [OF False] show ?thesis by (simp add: ys csv_field_inject)
  qed
qed

text \<open>Rows of one width or not: a file of rows is read back only as itself.\<close>

lemma csv_text_inject:
  "\<forall>r\<in>set rs. r \<noteq> [] \<Longrightarrow> \<forall>r\<in>set ss. r \<noteq> [] \<Longrightarrow>
     concat (map csv_row rs) = concat (map csv_row ss) \<longleftrightarrow> rs = ss"
proof (induction rs arbitrary: ss)
  case Nil
  then show ?case by (cases ss) (auto simp: csv_row_def)
next
  case (Cons r rs)
  show ?case
  proof (cases ss)
    case Nil
    then show ?thesis by (simp add: csv_row_def)
  next
    case (Cons s ts)
    with Cons.IH Cons.prems show ?thesis by (simp add: csv_row_inject)
  qed
qed

end
