(* ===== verification/Asset.thy ===== *)
theory Asset
  imports PyEnv
begin

text \<open>
  \<open>schemas/asset.py\<close>: the asset contract. The record holds the fields of
  \<open>AssetMetadata\<close>; \<open>new_asset\<close> is its constructor, with the validators in the order in which
  pydantic runs them (field constraints and field validators, which are collected into one
  \<open>ValidationError\<close>, then \<open>model_post_init\<close>). \<open>model_copy(update=...)\<close> is a record update:
  it validates nothing.
\<close>

definition schema_version_current :: str where
  "schema_version_current = lit ''0.2.0''"

record asset =
  schema_version :: str
  asset_id :: str
  custodian_id :: str
  tenant_id :: str
  content_hash :: str
  rights_mandate :: str
  mandate_signature :: str
  usage_constraints :: "str list"
  granted_scopes :: "str list"
  requires_consent :: bool
  valid_from :: datetime
  valid_until :: datetime
  withdrawn :: bool

definition len_between :: "nat \<Rightarrow> nat \<Rightarrow> str \<Rightarrow> bool" where
  "len_between lo hi s \<longleftrightarrow> lo \<le> length s \<and> length s \<le> hi"

text \<open>\<open>re.compile(r"^[0-9a-f]{64}$").match(s)\<close>: \<open>$\<close> also matches before a final newline.\<close>

definition hex64_match :: "str \<Rightarrow> bool" where
  "hex64_match s \<longleftrightarrow>
     64 \<le> length s \<and> (\<forall>c\<in>set (take 64 s). is_lower_hex c)
     \<and> (drop 64 s = [] \<or> drop 64 s = [10])"

definition must_be_sha256_hex :: "str \<Rightarrow> exn + str" where
  "must_be_sha256_hex v =
     (let lowered = map ascii_lower v
      in if hex64_match lowered then Inr lowered
         else Inl (ValueError (lit ''expected lowercase sha256 hex digest'')))"

text \<open>
  pydantic folds the error of a validator into one \<open>ValidationError\<close>, which carries no text in
  the model; so the version that the message of this one quotes is left out.
\<close>

definition version_must_match :: "str \<Rightarrow> exn + str" where
  "version_must_match v =
     (if v = schema_version_current then Inr v
      else Inl (ValueError (lit ''unsupported schema_version'')))"

definition asset_fields_ok :: "asset \<Rightarrow> bool" where
  "asset_fields_ok a \<longleftrightarrow>
     len_between 1 128 (asset_id a) \<and> len_between 1 128 (custodian_id a) \<and>
     len_between 1 128 (tenant_id a) \<and> len_between 64 64 (content_hash a) \<and>
     len_between 1 256 (rights_mandate a) \<and> len_between 64 64 (mandate_signature a)"

definition asset_post_init :: "asset \<Rightarrow> exn + asset" where
  "asset_post_init a =
     andthen (dt_le (valid_until a) (valid_from a))
       (\<lambda>b. if b then Inl ValidationError else Inr a)"

definition new_asset :: "asset \<Rightarrow> exn + asset" where
  "new_asset a =
     (if \<not> asset_fields_ok a then Inl ValidationError
      else (case (must_be_sha256_hex (content_hash a), must_be_sha256_hex (mandate_signature a),
                  version_must_match (schema_version a)) of
              (Inr h, Inr sg, Inr _) \<Rightarrow>
                asset_post_init (a\<lparr>content_hash := h, mandate_signature := sg\<rparr>)
            | _ \<Rightarrow> Inl ValidationError))"

subsection \<open>What a constructed asset satisfies\<close>

text \<open>
  The invariant of a constructed asset. \<open>asset_strings\<close> is what pydantic guarantees of every
  \<open>str\<close> field: it can be encoded (no lone surrogate).
\<close>

definition asset_ok :: "asset \<Rightarrow> bool" where
  "asset_ok a \<longleftrightarrow>
     asset_fields_ok a \<and> schema_version a = schema_version_current
     \<and> (\<forall>c\<in>set (content_hash a). is_lower_hex c)
     \<and> (\<forall>c\<in>set (mandate_signature a). is_lower_hex c)
     \<and> dt_lt (valid_from a) (valid_until a) = Inr True"

definition asset_strings :: "asset \<Rightarrow> bool" where
  "asset_strings a \<longleftrightarrow>
     valid_str (asset_id a) \<and> valid_str (content_hash a) \<and> valid_str (custodian_id a)
     \<and> valid_str (tenant_id a) \<and> valid_str (rights_mandate a)
     \<and> (\<forall>u\<in>set (usage_constraints a). valid_str u)
     \<and> (\<forall>g\<in>set (granted_scopes a). valid_str g)"

lemma must_be_sha256_hex_Inr:
  assumes "must_be_sha256_hex v = Inr w" and "length v = 64"
  shows "w = map ascii_lower v" and "\<forall>c\<in>set w. is_lower_hex c" and "length w = 64"
  using assms by (auto simp: must_be_sha256_hex_def hex64_match_def Let_def split: if_splits)

lemma must_be_sha256_hex_hex:
  "length b = 32 \<Longrightarrow> must_be_sha256_hex (hex b) = Inr (hex b)"
  by (simp add: must_be_sha256_hex_def hex64_match_def hex_lower)

lemma new_asset_ok:
  assumes "new_asset a = Inr b" shows "asset_ok b"
proof -
  from assms obtain h sg where h: "must_be_sha256_hex (content_hash a) = Inr h"
    and sg: "must_be_sha256_hex (mandate_signature a) = Inr sg"
    and v: "version_must_match (schema_version a) = Inr (schema_version a)"
    and f: "asset_fields_ok a"
    and p: "asset_post_init (a\<lparr>content_hash := h, mandate_signature := sg\<rparr>) = Inr b"
    by (fastforce simp: new_asset_def version_must_match_def split: if_splits sum.splits)
  from f have len: "length (content_hash a) = 64" "length (mandate_signature a) = 64"
    by (simp_all add: asset_fields_ok_def len_between_def)
  note hs = must_be_sha256_hex_Inr [OF h len(1)] must_be_sha256_hex_Inr [OF sg len(2)]
  from p have b: "b = a\<lparr>content_hash := h, mandate_signature := sg\<rparr>"
    and w: "dt_le (valid_until a) (valid_from a) = Inr False"
    by (auto simp: asset_post_init_def andthen_eq_Inr split: if_splits)
  from w have "dt_lt (valid_from a) (valid_until a) = Inr True"
    by (simp add: dt_le_not_lt)
  with b f v hs show ?thesis
    by (auto simp: asset_ok_def asset_fields_ok_def len_between_def version_must_match_def
        split: if_splits)
qed

text \<open>Constructing a second time from what was constructed changes nothing.\<close>

lemma lower_hex_match:
  "length v = 64 \<Longrightarrow> \<forall>c\<in>set v. is_lower_hex c \<Longrightarrow> must_be_sha256_hex v = Inr v"
  by (simp add: must_be_sha256_hex_def hex64_match_def Let_def map_idI ascii_lower_hex)

lemma new_asset_idem:
  assumes "asset_ok a" shows "new_asset a = Inr a"
proof -
  have "dt_le (valid_until a) (valid_from a) = Inr False"
    using assms by (simp add: asset_ok_def dt_le_not_lt)
  with assms show ?thesis
    by (simp add: asset_ok_def new_asset_def asset_fields_ok_def len_between_def lower_hex_match
        version_must_match_def asset_post_init_def)
qed

lemma new_asset_ValidationError_or_TypeError:
  "new_asset a = Inl e \<Longrightarrow> e = ValidationError \<or> e = TypeError"
  by (auto simp: new_asset_def asset_post_init_def andthen_eq_Inl dt_le_def
      split: if_splits sum.splits)

end
