(* ===== verification/Sha256.thy ===== *)
theory Sha256
  imports PyText
begin

text \<open>
  \<open>hashlib.sha256\<close> and \<open>hmac.new(key, msg, hashlib.sha256)\<close> of Python's standard
  library, executable: FIPS 180-4 on 32-bit words, RFC 2104 on top of it. The program uses
  them through \<open>digest()\<close> and \<open>hexdigest()\<close>.

  Nothing here assumes that the hash is free of collisions. A theorem of a later theory
  that rests on a commitment names the two messages that would collide.
\<close>

unbundle bit_operations_syntax

subsection \<open>Words and constants\<close>

type_synonym w32 = "32 word"

text \<open>The constants of the standard, in decimal; the test vector at the end pins them.\<close>

definition round_constants :: "w32 list" where
  "round_constants =
    [1116352408, 1899447441, 3049323471, 3921009573, 961987163, 1508970993, 2453635748,
     2870763221, 3624381080, 310598401, 607225278, 1426881987, 1925078388, 2162078206,
     2614888103, 3248222580, 3835390401, 4022224774, 264347078, 604807628, 770255983,
     1249150122, 1555081692, 1996064986, 2554220882, 2821834349, 2952996808, 3210313671,
     3336571891, 3584528711, 113926993, 338241895, 666307205, 773529912, 1294757372,
     1396182291, 1695183700, 1986661051, 2177026350, 2456956037, 2730485921, 2820302411,
     3259730800, 3345764771, 3516065817, 3600352804, 4094571909, 275423344, 430227734,
     506948616, 659060556, 883997877, 958139571, 1322822218, 1537002063, 1747873779,
     1955562222, 2024104815, 2227730452, 2361852424, 2428436474, 2756734187, 3204031479,
     3329325298]"

definition initial_hash :: "w32 list" where
  "initial_hash =
    [1779033703, 3144134277, 1013904242, 2773480762, 1359893119, 2600822924, 528734635,
     1541459225]"

definition rotr :: "nat \<Rightarrow> w32 \<Rightarrow> w32" where
  "rotr n x = drop_bit n x OR push_bit (32 - n) x"

definition ch :: "w32 \<Rightarrow> w32 \<Rightarrow> w32 \<Rightarrow> w32" where
  "ch x y z = (x AND y) XOR (NOT x AND z)"

definition maj :: "w32 \<Rightarrow> w32 \<Rightarrow> w32 \<Rightarrow> w32" where
  "maj x y z = (x AND y) XOR (x AND z) XOR (y AND z)"

definition bsig0 :: "w32 \<Rightarrow> w32" where
  "bsig0 x = rotr 2 x XOR rotr 13 x XOR rotr 22 x"

definition bsig1 :: "w32 \<Rightarrow> w32" where
  "bsig1 x = rotr 6 x XOR rotr 11 x XOR rotr 25 x"

definition ssig0 :: "w32 \<Rightarrow> w32" where
  "ssig0 x = rotr 7 x XOR rotr 18 x XOR drop_bit 3 x"

definition ssig1 :: "w32 \<Rightarrow> w32" where
  "ssig1 x = rotr 17 x XOR rotr 19 x XOR drop_bit 10 x"

subsection \<open>Bytes and words\<close>

fun be_words :: "bytes \<Rightarrow> w32 list" where
  "be_words (a # b # c # d # rest) =
     (push_bit 24 (ucast a) OR push_bit 16 (ucast b) OR push_bit 8 (ucast c) OR ucast d)
       # be_words rest"
| "be_words _ = []"

definition be_bytes :: "w32 \<Rightarrow> bytes" where
  "be_bytes w = [ucast (drop_bit 24 w), ucast (drop_bit 16 w), ucast (drop_bit 8 w), ucast w]"

text \<open>The message length in bits, as eight bytes, most significant first.\<close>

definition be_length :: "nat \<Rightarrow> bytes" where
  "be_length n = map (\<lambda>i. ucast (drop_bit i (of_nat n :: 64 word))) [56, 48, 40, 32, 24, 16, 8, 0]"

definition sha_pad :: "bytes \<Rightarrow> bytes" where
  "sha_pad m = m @ 0x80 # replicate ((119 - length m mod 64) mod 64) 0 @ be_length (8 * length m)"

subsection \<open>The compression function\<close>

text \<open>
  The message schedule is built backwards: the newest word stands first, so that the word
  of step \<open>t\<close> is made of those at positions 1, 6, 14 and 15.
\<close>

fun schedule :: "nat \<Rightarrow> w32 list \<Rightarrow> w32 list" where
  "schedule 0 ws = ws"
| "schedule (Suc n) ws =
     schedule n ((ssig1 (ws ! 1) + ws ! 6 + ssig0 (ws ! 14) + ws ! 15) # ws)"

datatype hstate = HS w32 w32 w32 w32 w32 w32 w32 w32

fun sha_round :: "w32 \<times> w32 \<Rightarrow> hstate \<Rightarrow> hstate" where
  "sha_round (k, w) (HS a b c d e f g h) =
     (let t1 = h + bsig1 e + ch e f g + k + w; t2 = bsig0 a + maj a b c
      in HS (t1 + t2) a b c (d + t1) e f g)"

fun hs_add :: "hstate \<Rightarrow> hstate \<Rightarrow> hstate" where
  "hs_add (HS a b c d e f g h) (HS a' b' c' d' e' f' g' h') =
     HS (a + a') (b + b') (c + c') (d + d') (e + e') (f + f') (g + g') (h + h')"

definition compress :: "hstate \<Rightarrow> w32 list \<Rightarrow> hstate" where
  "compress h block =
     hs_add h (fold sha_round (zip round_constants (rev (schedule 48 (rev block)))) h)"

text \<open>The blocks of 16 words, one after the other.\<close>

function compress_all :: "hstate \<Rightarrow> w32 list \<Rightarrow> hstate" where
  "compress_all h ws =
     (if ws = [] then h else compress_all (compress h (take 16 ws)) (drop 16 ws))"
  by pat_completeness auto
termination
  by (relation "measure (\<lambda>(h, ws). length ws)") auto

declare compress_all.simps [simp del]

fun hs_bytes :: "hstate \<Rightarrow> bytes" where
  "hs_bytes (HS a b c d e f g h) = concat (map be_bytes [a, b, c, d, e, f, g, h])"

definition sha_init :: hstate where
  "sha_init =
     HS (initial_hash ! 0) (initial_hash ! 1) (initial_hash ! 2) (initial_hash ! 3)
        (initial_hash ! 4) (initial_hash ! 5) (initial_hash ! 6) (initial_hash ! 7)"

subsection \<open>The digest and the keyed digest\<close>

definition sha256 :: "bytes \<Rightarrow> bytes" where
  "sha256 m = hs_bytes (compress_all sha_init (be_words (sha_pad m)))"

definition hmac_key :: "bytes \<Rightarrow> bytes" where
  "hmac_key k =
     (let k0 = (if 64 < length k then sha256 k else k) in k0 @ replicate (64 - length k0) 0)"

definition hmac_inner :: "bytes \<Rightarrow> bytes \<Rightarrow> bytes" where
  "hmac_inner k m = map ((XOR) 0x36) (hmac_key k) @ m"

definition hmac_outer :: "bytes \<Rightarrow> bytes \<Rightarrow> bytes" where
  "hmac_outer k m = map ((XOR) 0x5C) (hmac_key k) @ sha256 (hmac_inner k m)"

definition hmac_sha256 :: "bytes \<Rightarrow> bytes \<Rightarrow> bytes" where
  "hmac_sha256 k m = sha256 (hmac_outer k m)"

definition sha256_hex :: "bytes \<Rightarrow> str" where
  "sha256_hex m = hex (sha256 m)"

subsection \<open>Lengths\<close>

lemma length_be_bytes [simp]: "length (be_bytes w) = 4"
  by (simp add: be_bytes_def)

lemma length_hs_bytes [simp]: "length (hs_bytes h) = 32"
  by (cases h) simp

lemma length_sha256 [simp]: "length (sha256 m) = 32"
  by (simp add: sha256_def)

lemma length_hmac [simp]: "length (hmac_sha256 k m) = 32"
  by (simp add: hmac_sha256_def)

lemma length_sha256_hex [simp]: "length (sha256_hex m) = 64"
  by (simp add: sha256_hex_def)

text \<open>The padded message fills whole blocks, so \<open>compress_all\<close> takes 16 words each time.\<close>

lemma length_be_length [simp]: "length (be_length n) = 8"
  by (simp add: be_length_def)

lemma pad_to_block: "64 dvd l + 9 + (119 - l mod 64) mod (64::nat)"
proof -
  define r where "r = l mod 64"
  have l: "l = 64 * (l div 64) + r" and r: "r < 64" by (simp_all add: r_def)
  have "(119 - r) mod 64 = (if r \<le> 55 then 55 - r else 119 - r)"
    using r by (simp add: mod_if)
  then have "l + 9 + (119 - r) mod 64 = 64 * (l div 64 + (if r \<le> 55 then 1 else 2))"
    using l r by (simp split: if_splits)
  then have "64 dvd l + 9 + (119 - r) mod 64" by (rule dvdI)
  then show ?thesis by (simp only: r_def)
qed

lemma sha_pad_blocks: "64 dvd length (sha_pad m)"
proof -
  have "length (sha_pad m) = length m + 9 + (119 - length m mod 64) mod 64"
    by (simp add: sha_pad_def)
  then show ?thesis by (simp only: pad_to_block)
qed

subsection \<open>Collisions\<close>

text \<open>
  Two messages that collide under SHA-256. Collisions exist, so a theorem never says that
  there is none: it names the two messages, which an attacker would have had to find.
\<close>

definition sha_collision :: "bytes \<Rightarrow> bytes \<Rightarrow> bool" where
  "sha_collision x y \<longleftrightarrow> x \<noteq> y \<and> sha256 x = sha256 y"

lemma sha256_eqD: "sha256 x = sha256 y \<Longrightarrow> x = y \<or> sha_collision x y"
  by (auto simp: sha_collision_def)

lemma sha256_hex_eqD: "sha256_hex x = sha256_hex y \<Longrightarrow> x = y \<or> sha_collision x y"
  by (auto simp: sha_collision_def sha256_hex_def)

text \<open>
  Equal keyed digests of two messages under one key: the messages are equal, or the inner
  or the outer hash collides.
\<close>

definition hmac_collision :: "bytes \<Rightarrow> bytes \<Rightarrow> bytes \<Rightarrow> bool" where
  "hmac_collision k x y \<longleftrightarrow>
     sha_collision (hmac_inner k x) (hmac_inner k y)
     \<or> sha_collision (hmac_outer k x) (hmac_outer k y)"

lemma hmac_eqD: "hmac_sha256 k x = hmac_sha256 k y \<Longrightarrow> x = y \<or> hmac_collision k x y"
  by (auto simp: hmac_sha256_def hmac_collision_def sha_collision_def hmac_outer_def
      hmac_inner_def)

text \<open>The text of a digest: 64 ASCII characters.\<close>

definition digest_text :: "str \<Rightarrow> bool" where
  "digest_text p \<longleftrightarrow> length p = 64 \<and> (\<forall>c\<in>set p. c < 128)"

lemma digest_text_hex: "digest_text (sha256_hex m)"
  using hex_ascii by (fastforce simp: digest_text_def sha256_hex_def)

subsection \<open>A test vector\<close>

text \<open>FIPS 180-4's example message, evaluated by the kernel.\<close>

lemma sha256_abc:
  "sha256_hex [97, 98, 99] = lit ''ba7816bf8f01cfea414140de5dae2223b00361a396177a9cb410ff61f20015ad''"
  by code_simp

end
