(* ===== verification/Policy.thy ===== *)
theory Policy
  imports Asset Json Sha256
begin

text \<open>
  \<open>schemas/policy.py\<close> and \<open>src/policy/rules.py\<close>: requests, the four-state decision with its
  validators, and the identity of the rule set. A constructor returns the validated object or
  pydantic's \<open>ValidationError\<close>; a \<open>ValueError\<close> that a validator raises is turned into one.
\<close>

datatype policy_state = ALLOWED | CONDITIONAL | BLOCKED | HUMAN_REVIEW

fun state_value :: "policy_state \<Rightarrow> str" where
  "state_value ALLOWED = lit ''Allowed''"
| "state_value CONDITIONAL = lit ''Conditional''"
| "state_value BLOCKED = lit ''Blocked''"
| "state_value HUMAN_REVIEW = lit ''Human Review''"

record policy_request =
  req_id :: str
  req_asset_id :: str
  req_tenant_id :: str
  req_action :: str
  auth_scopes :: "str list"
  consent_tokens :: "str list"
  prompt_text :: str
  requested_at :: datetime

definition request_ok :: "policy_request \<Rightarrow> bool" where
  "request_ok r \<longleftrightarrow>
     len_between 1 128 (req_id r) \<and> len_between 1 128 (req_asset_id r)
     \<and> len_between 1 128 (req_tenant_id r) \<and> len_between 1 64 (req_action r)
     \<and> length (prompt_text r) \<le> 8192"

definition new_request :: "policy_request \<Rightarrow> exn + policy_request" where
  "new_request r = (if request_ok r then Inr r else Inl ValidationError)"

record reviewer_entry =
  reviewer_id :: str
  decided_at :: datetime
  review_note :: str

definition new_reviewer_entry :: "reviewer_entry \<Rightarrow> exn + reviewer_entry" where
  "new_reviewer_entry e = (if length (review_note e) \<le> 1024 then Inr e else Inl ValidationError)"

record policy_decision =
  d_schema_version :: str
  d_request_id :: str
  d_asset_id :: str
  d_state :: policy_state
  d_rule_version :: str
  d_rule_hash :: str
  required_conditions :: "str list"
  reviewer_trail :: "reviewer_entry list"
  d_reason :: str
  ticket_id :: "str option"
  evaluated_at :: datetime
  d_sequence :: int

text \<open>\<open>bool(s)\<close> of an optional string.\<close>

definition truthy :: "str option \<Rightarrow> bool" where
  "truthy s \<longleftrightarrow> s \<noteq> None \<and> s \<noteq> Some []"

definition decision_fields_ok :: "policy_decision \<Rightarrow> bool" where
  "decision_fields_ok d \<longleftrightarrow>
     len_between 64 64 (d_rule_hash d) \<and> length (d_reason d) \<le> 1024 \<and> 0 \<le> d_sequence d
     \<and> version_must_match (d_schema_version d) = Inr (d_schema_version d)"

definition decision_post_init :: "policy_decision \<Rightarrow> exn + policy_decision" where
  "decision_post_init d =
     (if d_state d = CONDITIONAL \<and> required_conditions d = []
      then Inl (ValueError (lit ''Conditional decisions require required_conditions''))
      else if d_state d = HUMAN_REVIEW \<and> \<not> truthy (ticket_id d)
      then Inl (ValueError (lit ''Human Review decisions require ticket_id''))
      else if d_state d \<in> {ALLOWED, BLOCKED} \<and> truthy (ticket_id d)
      then Inl (ValueError (lit ''terminal states must not carry ticket_id''))
      else Inr d)"

definition new_decision :: "policy_decision \<Rightarrow> exn + policy_decision" where
  "new_decision d =
     (if \<not> decision_fields_ok d then Inl ValidationError
      else case decision_post_init d of Inl _ \<Rightarrow> Inl ValidationError | Inr d' \<Rightarrow> Inr d')"

subsection \<open>The rule set\<close>

definition RULE_VERSION :: str where
  "RULE_VERSION = lit ''0.2.0''"

definition HIGH_RISK_ACTIONS :: "str list" where
  "HIGH_RISK_ACTIONS = [lit ''publish'', lit ''train_export'', lit ''bulk_export'']"

definition rule_order :: "str list" where
  "rule_order =
     map lit [''unknown_asset'', ''withdrawn'', ''mandate_signature'', ''tenant_isolation'',
       ''validity_window'', ''prompt_injection'', ''privilege_escalation'', ''action_scope'',
       ''consent_gate'', ''human_review_actions'', ''default_allow'']"

definition rule_document :: json where
  "rule_document =
     JObj [(lit ''version'', JStr RULE_VERSION), (lit ''order'', JArr (map JStr rule_order)),
           (lit ''human_review_actions'', JArr (map JStr HIGH_RISK_ACTIONS)),
           (lit ''fail_closed'', JBool True)]"

definition rule_hash_of :: "json \<Rightarrow> exn + str" where
  "rule_hash_of doc = andthen (utf8_encode (dumps doc)) (\<lambda>b. Inr (sha256_hex b))"

text \<open>The module's constant; loading the module would fail where \<open>rule_hash_of\<close> raises.\<close>

definition RULE_HASH :: str where
  "RULE_HASH = (case rule_hash_of rule_document of Inl _ \<Rightarrow> [] | Inr h \<Rightarrow> h)"

lemma rule_hash_of_ok:
  assumes "json_ok doc"
  shows "rule_hash_of doc = Inr (sha256_hex (map of_nat (dumps doc)))"
  using dumps_ascii [OF assms] by (simp add: rule_hash_of_def utf8_encode_ascii)

lemma valid_lit: "valid_str (lit s)"
proof (induction s)
  case (Cons c s)
  have "of_char c < (55296::nat)" by (rule less_trans [OF nat_of_char_less_256]) simp
  with Cons show ?case by (simp add: lit_Cons scalar_def)
qed simp

lemma rule_document_ok: "json_ok rule_document"
  by (simp add: rule_document_def wf_dict_def valid_lit rule_order_def HIGH_RISK_ACTIONS_def
      RULE_VERSION_def)

lemma rule_hash_ok: "rule_hash_of rule_document = Inr RULE_HASH"
  by (simp add: RULE_HASH_def rule_hash_of_ok [OF rule_document_ok])

lemma length_RULE_HASH [simp]: "length RULE_HASH = 64"
  by (simp add: RULE_HASH_def rule_hash_of_ok [OF rule_document_ok])

text \<open>
  An edit of the rule document changes the hash, unless it comes to the same document with
  its members in another order, or the two canonical texts collide under SHA-256.
\<close>

lemma rule_hash_binds:
  assumes "json_ok a" "json_ok b" "rule_hash_of a = rule_hash_of b"
  shows "jsort a = jsort b \<or> sha_collision (map of_nat (dumps a)) (map of_nat (dumps b))"
proof -
  from assms have "sha256_hex (map of_nat (dumps a)) = sha256_hex (map of_nat (dumps b))"
    by (simp add: rule_hash_of_ok)
  from sha256_hex_eqD [OF this] show ?thesis
  proof
    assume "map of_nat (dumps a) = (map of_nat (dumps b) :: bytes)"
    then have "dumps a = dumps b"
      using map_of_nat_inject_ascii dumps_ascii assms(1,2) by blast
    with dumps_inject assms(1,2) show ?thesis by blast
  qed simp
qed

subsection \<open>What a constructed decision satisfies\<close>

definition decision_ok :: "policy_decision \<Rightarrow> bool" where
  "decision_ok d \<longleftrightarrow>
     decision_fields_ok d
     \<and> (d_state d = CONDITIONAL \<longrightarrow> required_conditions d \<noteq> [])
     \<and> (d_state d = HUMAN_REVIEW \<longrightarrow> truthy (ticket_id d))
     \<and> (d_state d \<in> {ALLOWED, BLOCKED} \<longrightarrow> \<not> truthy (ticket_id d))"

lemma new_decision_iff: "new_decision d = Inr d' \<longleftrightarrow> d' = d \<and> decision_ok d"
  by (auto simp: new_decision_def decision_post_init_def decision_ok_def)

lemma new_decision_Inl: "new_decision d = Inl e \<longleftrightarrow> e = ValidationError \<and> \<not> decision_ok d"
  by (auto simp: new_decision_def decision_post_init_def decision_ok_def)

end
