(* ===== verification/Mandate.thy ===== *)
theory Mandate
  imports Asset Sha256
begin

text \<open>
  \<open>src/records/mandate.py\<close>: the mandate signature that binds an asset record to its
  custodian's key, and what it does and does not bind.
\<close>

definition mandate_parts :: "asset \<Rightarrow> str list" where
  "mandate_parts a =
     [asset_id a, content_hash a, custodian_id a, tenant_id a,
      isoformat (valid_from a), isoformat (valid_until a), rights_mandate a,
      join (lit '','') (sort (usage_constraints a)),
      join (lit '','') (sort (granted_scopes a)),
      (if requires_consent a then lit ''consent'' else lit ''no-consent'')]"

definition mandate_message :: "asset \<Rightarrow> exn + bytes" where
  "mandate_message a = utf8_encode (join (lit ''|'') (mandate_parts a))"

definition sign_mandate :: "asset \<Rightarrow> bytes \<Rightarrow> exn + str" where
  "sign_mandate a key = andthen (mandate_message a) (\<lambda>m. Inr (hex (hmac_sha256 key m)))"

definition verify_mandate :: "asset \<Rightarrow> bytes \<Rightarrow> exn + bool" where
  "verify_mandate a key =
     andthen (mandate_message a)
       (\<lambda>m. case fromhex (mandate_signature a) of
              None \<Rightarrow> Inr False
            | Some provided \<Rightarrow> Inr (provided = hmac_sha256 key m))"

subsection \<open>Signing and verifying\<close>

lemma mandate_parts_sig [simp]:
  "mandate_parts (a\<lparr>mandate_signature := s\<rparr>) = mandate_parts a"
  "mandate_parts (a\<lparr>withdrawn := w\<rparr>) = mandate_parts a"
  "mandate_parts (a\<lparr>schema_version := v\<rparr>) = mandate_parts a"
  by (simp_all add: mandate_parts_def)

lemma mandate_message_sig [simp]:
  "mandate_message (a\<lparr>mandate_signature := s\<rparr>) = mandate_message a"
  "mandate_message (a\<lparr>withdrawn := w\<rparr>) = mandate_message a"
  "mandate_message (a\<lparr>schema_version := v\<rparr>) = mandate_message a"
  by (simp_all add: mandate_message_def)

lemma valid_str_join: "valid_str sep \<Longrightarrow> (\<And>p. p \<in> set ps \<Longrightarrow> valid_str p) \<Longrightarrow> valid_str (join sep ps)"
  by (induction sep ps rule: join.induct) auto

lemma mandate_message_valid:
  assumes "asset_strings a" shows "\<exists>m. mandate_message a = Inr m"
proof -
  have "valid_str (lit ''|'')" "valid_str (lit '','')" "valid_str (lit ''consent'')"
    "valid_str (lit ''no-consent'')"
    by (simp_all add: lit_Cons scalar_def)
  moreover have "valid_str (isoformat d)" for d
    by (rule ascii_valid_str) (rule isoformat_ascii)
  ultimately have "valid_str (join (lit ''|'') (mandate_parts a))"
    using assms
    by (intro valid_str_join) (auto simp: mandate_parts_def asset_strings_def intro: valid_str_join)
  then show ?thesis by (simp add: mandate_message_def utf8_encode_valid)
qed

lemma verify_sign:
  "sign_mandate a key = Inr s \<Longrightarrow> verify_mandate (a\<lparr>mandate_signature := s\<rparr>) key = Inr True"
  by (auto simp: sign_mandate_def verify_mandate_def andthen_eq_Inr)

lemma verify_mandate_iff:
  "verify_mandate a key = Inr True \<longleftrightarrow>
     (\<exists>m. mandate_message a = Inr m \<and> fromhex (mandate_signature a) = Some (hmac_sha256 key m))"
  by (auto simp: verify_mandate_def andthen_eq_Inr split: option.splits)

lemma verify_mandate_withdrawn [simp]:
  "verify_mandate (a\<lparr>withdrawn := w\<rparr>) key = verify_mandate a key"
  by (simp add: verify_mandate_def)

subsection \<open>What the signature binds\<close>

text \<open>
  The fields of the message are joined by \<open>|\<close> and those of the two tuples by \<open>,\<close>, with no
  escaping. Where no field holds a separator and no tuple holds an empty string, the message
  determines every field in it, the tuples up to their order.
\<close>

definition separable :: "asset \<Rightarrow> bool" where
  "separable a \<longleftrightarrow>
     (\<forall>s\<in>{asset_id a, content_hash a, custodian_id a, tenant_id a, rights_mandate a}. 124 \<notin> set s)
     \<and> (\<forall>s\<in>set (usage_constraints a) \<union> set (granted_scopes a).
          s \<noteq> [] \<and> 44 \<notin> set s \<and> 124 \<notin> set s)"

lemma join_sep_inject:
  assumes "\<And>x. x \<in> set xs \<Longrightarrow> x \<noteq> [] \<and> c \<notin> set x" and "\<And>y. y \<in> set ys \<Longrightarrow> y \<noteq> [] \<and> c \<notin> set y"
    and "join [c] xs = join [c] ys"
  shows "xs = ys"
  using assms
proof (induction xs arbitrary: ys)
  case Nil
  then show ?case by (cases ys rule: remdups_adj.cases) auto
next
  case (Cons x xs)
  have one: "x' = u @ c # v \<Longrightarrow> c \<in> set x'" for x' u v by simp
  from Cons.prems obtain y ys' where ys: "ys = y # ys'"
    by (cases ys) (cases xs; auto)+
  have x: "x \<noteq> []" "c \<notin> set x" and y: "y \<noteq> []" "c \<notin> set y"
    using Cons.prems(1) [of x] Cons.prems(2) [of y] ys by auto
  show ?case
  proof (cases "xs = [] \<or> ys' = []")
    case True
    with Cons.prems(3) ys x y have "xs = [] \<and> ys' = [] \<and> x = y"
      by (cases xs; cases ys') (auto dest: one)
    with ys show ?thesis by simp
  next
    case False
    with Cons.prems(3) ys have "x @ c # join [c] xs = y @ c # join [c] ys'"
      by (simp add: join_Cons)
    with x y have "x = y" "join [c] xs = join [c] ys'" by (simp_all add: sep_append_inject)
    with Cons.IH [of ys'] Cons.prems(1,2) ys show ?thesis by simp
  qed
qed

lemma join_no_bar:
  "124 \<notin> set sep \<Longrightarrow> (\<And>p. p \<in> set ps \<Longrightarrow> 124 \<notin> set p) \<Longrightarrow> 124 \<notin> set (join sep ps)"
  by (induction sep ps rule: join.induct) auto

lemma mandate_parts_no_bar:
  assumes "separable a" "p \<in> set (mandate_parts a)" shows "124 \<notin> set p"
proof -
  have "124 \<notin> set (join (lit '','') (sort us))" if "\<forall>s\<in>set us. 124 \<notin> set s" for us
    using that by (intro join_no_bar) (auto simp: lit_Cons)
  moreover have "124 \<notin> set (if requires_consent a then lit ''consent'' else lit ''no-consent'')"
    by (simp add: lit_Cons)
  ultimately show ?thesis
    using assms isoformat_no_bar by (fastforce simp: mandate_parts_def separable_def)
qed

text \<open>The fields a signature covers, the two tuples without their order.\<close>

definition same_mandate :: "asset \<Rightarrow> asset \<Rightarrow> bool" where
  "same_mandate a b \<longleftrightarrow>
     asset_id a = asset_id b \<and> content_hash a = content_hash b \<and> custodian_id a = custodian_id b
     \<and> tenant_id a = tenant_id b \<and> isoformat (valid_from a) = isoformat (valid_from b)
     \<and> isoformat (valid_until a) = isoformat (valid_until b)
     \<and> rights_mandate a = rights_mandate b
     \<and> sort (usage_constraints a) = sort (usage_constraints b)
     \<and> sort (granted_scopes a) = sort (granted_scopes b)
     \<and> requires_consent a = requires_consent b"

lemma mandate_message_inject:
  assumes "separable a" "separable b" "mandate_message a = Inr m" "mandate_message b = Inr m"
  shows "same_mandate a b"
proof -
  have "join (lit ''|'') (mandate_parts a) = join (lit ''|'') (mandate_parts b)"
    using assms(3,4) by (simp add: mandate_message_def utf8_encode_inject)
  then have parts: "mandate_parts a = mandate_parts b"
    using mandate_parts_no_bar assms(1,2)
    by (intro join_inject [where c = 124]) (auto simp: mandate_parts_def lit_Cons)
  have "sort (usage_constraints a) = sort (usage_constraints b)"
    "sort (granted_scopes a) = sort (granted_scopes b)"
    using parts assms(1,2)
    by (auto simp: mandate_parts_def separable_def lit_Cons intro!: join_sep_inject [where c = 44])
  with parts show ?thesis
    by (auto simp: mandate_parts_def same_mandate_def split: if_splits)
qed

text \<open>
  Two records that verify under one key with one signature agree in every field the message
  covers, or the keyed hash collides on their two messages.
\<close>

lemma verify_binds:
  assumes "verify_mandate a key = Inr True" "verify_mandate b key = Inr True"
    and "mandate_signature a = mandate_signature b"
    and "mandate_message a = Inr m" "mandate_message b = Inr n"
  shows "hmac_collision key m n \<or> m = n \<and> (separable a \<and> separable b \<longrightarrow> same_mandate a b)"
proof -
  from assms have "hmac_sha256 key m = hmac_sha256 key n"
    by (auto simp: verify_mandate_iff)
  from hmac_eqD [OF this] show ?thesis
    using mandate_message_inject assms(4,5) by blast
qed

text \<open>A signature over a separable record leaves the set of permitted actions fixed.\<close>

lemma same_mandate_sets:
  assumes "same_mandate a b"
  shows "set (usage_constraints a) = set (usage_constraints b)"
    and "set (granted_scopes a) = set (granted_scopes b)"
    and "usage_constraints a = [] \<longleftrightarrow> usage_constraints b = []"
proof -
  from assms have "set (sort (usage_constraints a)) = set (sort (usage_constraints b))"
    "set (sort (granted_scopes a)) = set (sort (granted_scopes b))"
    by (simp_all only: same_mandate_def)
  then show s: "set (usage_constraints a) = set (usage_constraints b)"
    "set (granted_scopes a) = set (granted_scopes b)" by simp_all
  from s(1) show "usage_constraints a = [] \<longleftrightarrow> usage_constraints b = []"
    by (metis set_empty)
qed

subsection \<open>What it does not bind\<close>

text \<open>
  The withdrawal flag and the schema version are outside the message. And because the
  tuples are joined without escaping, the tuple with one empty string (which permits no
  action) and the empty tuple (which permits every action) have one mandate.
\<close>

lemma mandate_empty_constraint:
  "mandate_message (a\<lparr>usage_constraints := [[]]\<rparr>) = mandate_message (a\<lparr>usage_constraints := []\<rparr>)"
  by (simp add: mandate_message_def mandate_parts_def)

lemma mandate_comma:
  assumes "x \<le> y"
  shows "mandate_message (a\<lparr>usage_constraints := [x @ lit '','' @ y]\<rparr>)
       = mandate_message (a\<lparr>usage_constraints := [x, y]\<rparr>)"
  using assms by (simp add: mandate_message_def mandate_parts_def)

end
