(* ===== verification/AssetStore.thy ===== *)
theory AssetStore
  imports Asset
begin

text \<open>
  \<open>src/records/store.py\<close>: the asset registry with its revocation listeners. Every method
  holds the store's lock for its whole body but for the calls of the listeners, so a method
  is one atomic step on the record below. A listener is a function on whatever state it
  changes, the type parameter \<open>'s\<close>; \<open>Connectors\<close> supplies the program's own listener.
  The clock reading of \<open>time.monotonic_ns()\<close> is an argument.
\<close>

type_synonym 's listener = "str \<Rightarrow> int \<Rightarrow> 's \<Rightarrow> 's"

record 's asset_store =
  assets :: "(str, asset) dict"
  revoked_at :: "(str, int) dict"
  listeners :: "'s listener list"

definition new_store :: "'s asset_store" where
  "new_store = \<lparr>assets = [], revoked_at = [], listeners = []\<rparr>"

definition register :: "pyenv \<Rightarrow> 's asset_store \<Rightarrow> asset \<Rightarrow> exn + 's asset_store" where
  "register env s a =
     (case dget (assets s) (asset_id a) of
        Some _ \<Rightarrow> Inl (ValueError (lit ''asset '' @ py_repr env (asset_id a) @ lit '' already registered''))
      | None \<Rightarrow> Inr (s\<lparr>assets := dput (assets s) (asset_id a) a\<rparr>))"

definition get_asset :: "'s asset_store \<Rightarrow> str \<Rightarrow> exn + asset" where
  "get_asset s k =
     (case dget (assets s) k of None \<Rightarrow> Inl (AssetNotFound k) | Some a \<Rightarrow> Inr a)"

definition contains_asset :: "'s asset_store \<Rightarrow> str \<Rightarrow> bool" where
  "contains_asset s k \<longleftrightarrow> dget (assets s) k \<noteq> None"

definition store_len :: "'s asset_store \<Rightarrow> nat" where
  "store_len s = length (assets s)"

definition asset_ids :: "'s asset_store \<Rightarrow> str list" where
  "asset_ids s = sort (dkeys (assets s))"

definition add_revocation_listener :: "'s asset_store \<Rightarrow> 's listener \<Rightarrow> 's asset_store" where
  "add_revocation_listener s l = s\<lparr>listeners := listeners s @ [l]\<rparr>"

text \<open>The listeners run after the lock is released, in the order in which they were added.\<close>

definition notify :: "'s listener list \<Rightarrow> str \<Rightarrow> int \<Rightarrow> 's \<Rightarrow> 's" where
  "notify ls k ns x = fold (\<lambda>l y. l k ns y) ls x"

definition withdraw ::
    "'s asset_store \<Rightarrow> str \<Rightarrow> int \<Rightarrow> 's \<Rightarrow> exn + (asset \<times> 's asset_store \<times> 's)" where
  "withdraw s k ns x =
     (case dget (assets s) k of
        None \<Rightarrow> Inl (AssetNotFound k)
      | Some current \<Rightarrow>
          (let updated = current\<lparr>withdrawn := True\<rparr>;
               s' = s\<lparr>assets := dput (assets s) k updated,
                      revoked_at := dput (revoked_at s) k ns\<rparr>
           in Inr (updated, s', notify (listeners s) k ns x)))"

definition revoked_at_monotonic_ns :: "'s asset_store \<Rightarrow> str \<Rightarrow> int option" where
  "revoked_at_monotonic_ns s k = dget (revoked_at s) k"

subsection \<open>The invariant of the store\<close>

text \<open>
  The dictionary is keyed by the assets' own ids, and every id with a revocation time
  names a withdrawn asset.
\<close>

definition store_inv :: "'s asset_store \<Rightarrow> bool" where
  "store_inv s \<longleftrightarrow>
     wf_dict (assets s)
     \<and> (\<forall>k a. dget (assets s) k = Some a \<longrightarrow> asset_id a = k)
     \<and> (\<forall>k ns. dget (revoked_at s) k = Some ns \<longrightarrow>
          (\<exists>a. dget (assets s) k = Some a \<and> withdrawn a))"

lemma store_inv_new: "store_inv new_store"
  by (simp add: store_inv_def new_store_def)

lemma store_inv_register:
  assumes "store_inv s" "register env s a = Inr s'" shows "store_inv s'"
proof -
  from assms(2) have n: "dget (assets s) (asset_id a) = None"
    and s': "s' = s\<lparr>assets := dput (assets s) (asset_id a) a\<rparr>"
    by (auto simp: register_def split: option.splits)
  from assms(1) n have "dget (revoked_at s) (asset_id a) = None"
    by (cases "dget (revoked_at s) (asset_id a)") (auto simp: store_inv_def)
  with assms(1) n show ?thesis
    unfolding store_inv_def s' by (auto simp: dget_dput)
qed

lemma store_inv_withdraw: "store_inv s \<Longrightarrow> withdraw s k ns x = Inr (a, s', y) \<Longrightarrow> store_inv s'"
  by (auto simp: store_inv_def withdraw_def Let_def dget_dput split: option.splits if_splits)

lemma store_inv_listener: "store_inv s \<Longrightarrow> store_inv (add_revocation_listener s l)"
  by (simp add: store_inv_def add_revocation_listener_def)

subsection \<open>Lookups after operations\<close>

lemma get_asset_iff: "get_asset s k = Inr a \<longleftrightarrow> dget (assets s) k = Some a"
  by (simp add: get_asset_def split: option.split)

lemma register_get:
  "register env s a = Inr s' \<Longrightarrow>
     get_asset s' k = (if k = asset_id a then Inr a else get_asset s k)"
  by (auto simp: register_def get_asset_def dget_dput split: option.splits if_splits)

lemma register_once: "register env s a = Inr s' \<Longrightarrow> \<exists>m. register env s' b = Inl (ValueError m)"
  if "asset_id b = asset_id a" for b
  using that by (auto simp: register_def dget_dput split: option.splits)

lemma withdraw_get:
  "withdraw s k ns x = Inr (a, s', y) \<Longrightarrow>
     withdrawn a \<and> get_asset s' k' = (if k' = k then Inr a else get_asset s k')"
  by (auto simp: withdraw_def Let_def get_asset_def dget_dput split: option.splits if_splits)

lemma withdraw_defined: "(\<exists>r. withdraw s k ns x = Inr r) \<longleftrightarrow> contains_asset s k"
  by (auto simp: withdraw_def contains_asset_def Let_def split: option.split)

lemma asset_ids_sorted: "sorted (asset_ids s)" and set_asset_ids: "set (asset_ids s) = set (dkeys (assets s))"
  by (simp_all add: asset_ids_def)

subsection \<open>Registries that never re-admit\<close>

text \<open>
  The contract that the gateway and the catalog rely on: whatever operation runs, a
  registered asset stays registered under its id, no field of it but the withdrawal flag
  changes, and the flag is never taken back.
\<close>

definition keeps_asset :: "asset option \<Rightarrow> asset option \<Rightarrow> bool" where
  "keeps_asset x y \<longleftrightarrow>
     (\<forall>a. x = Some a \<longrightarrow> (\<exists>b. y = Some b \<and> b = a\<lparr>withdrawn := withdrawn b\<rparr> \<and>
        (withdrawn a \<longrightarrow> withdrawn b)))"

lemma keeps_asset_refl [simp]: "keeps_asset x x"
  by (auto simp: keeps_asset_def)

lemma keeps_asset_trans [trans]: "keeps_asset x y \<Longrightarrow> keeps_asset y z \<Longrightarrow> keeps_asset x z"
  unfolding keeps_asset_def by (metis asset.surjective asset.update_convs(13) asset.select_convs(13))

lemma keeps_withdrawn:
  "keeps_asset x y \<Longrightarrow> x = Some a \<Longrightarrow> withdrawn a \<Longrightarrow> \<exists>b. y = Some b \<and> withdrawn b"
  unfolding keeps_asset_def by blast

locale monotone_registry =
  fixes step :: "'st \<Rightarrow> 'op \<Rightarrow> 'st" and lookup :: "'st \<Rightarrow> str \<Rightarrow> asset option"
  assumes step_keeps: "keeps_asset (lookup s k) (lookup (step s opn) k)"
begin

lemma run_keeps: "keeps_asset (lookup s k) (lookup (foldl step s opns) k)"
proof (induction opns arbitrary: s)
  case (Cons opn opns)
  have "keeps_asset (lookup s k) (lookup (step s opn) k)" by (rule step_keeps)
  also have "keeps_asset (lookup (step s opn) k) (lookup (foldl step (step s opn) opns) k)"
    by (rule Cons.IH)
  finally show ?case by simp
qed simp

lemma withdrawn_forever:
  assumes "lookup s k = Some a" "withdrawn a"
  shows "\<exists>b. lookup (foldl step s opns) k = Some b \<and> withdrawn b"
  using keeps_withdrawn [OF run_keeps assms] .

end

text \<open>The store with its operations as one step function; a call that raises changes nothing.\<close>

datatype 's store_op = OpRegister asset | OpWithdraw str int | OpListen "'s listener"

fun store_step :: "pyenv \<Rightarrow> 's asset_store \<times> 's \<Rightarrow> 's store_op \<Rightarrow> 's asset_store \<times> 's" where
  "store_step env (s, x) (OpRegister a) =
     (case register env s a of Inl _ \<Rightarrow> (s, x) | Inr s' \<Rightarrow> (s', x))"
| "store_step env (s, x) (OpWithdraw k ns) =
     (case withdraw s k ns x of Inl _ \<Rightarrow> (s, x) | Inr (_, s', y) \<Rightarrow> (s', y))"
| "store_step env (s, x) (OpListen l) = (add_revocation_listener s l, x)"

lemma register_keeps:
  "register env s a = Inr s' \<Longrightarrow> keeps_asset (dget (assets s) k) (dget (assets s') k)"
  by (auto simp: register_def keeps_asset_def dget_dput split: option.splits)

lemma withdraw_keeps:
  "withdraw s k' ns x = Inr (a, s', y) \<Longrightarrow> keeps_asset (dget (assets s) k) (dget (assets s') k)"
  by (auto simp: withdraw_def Let_def keeps_asset_def dget_dput split: option.splits)

interpretation stores: monotone_registry "store_step env" "\<lambda>(s, x). dget (assets s)"
proof unfold_locales
  fix s :: "'s asset_store \<times> 's" and k opn
  obtain st x where s: "s = (st, x)" by (cases s)
  show "keeps_asset ((\<lambda>(s, x). dget (assets s)) s k)
          ((\<lambda>(s, x). dget (assets s)) (store_step env s opn) k)"
    by (cases opn)
       (auto simp: s add_revocation_listener_def split: sum.split intro: register_keeps withdraw_keeps)
qed

end
