(* ===== verification/Injection.thy ===== *)
theory Injection
  imports PyEnv
begin

text \<open>
  \<open>src/policy/injection.py\<close>: the prompt-injection screen. The regular expressions are data
  (\<open>pat\<close>), \<open>ends\<close> computes every position at which a match that starts at a given
  position can end, and \<open>pmatch\<close> is the relation that says what the expressions mean;
  \<open>ends_iff\<close> shows that the two agree. Whether some match exists does not depend on the
  order in which Python's engine tries the alternatives.
\<close>

subsection \<open>Character classes\<close>

text \<open>
  A letter of a pattern under \<open>re.IGNORECASE\<close> (\<open>i\<close>, \<open>s\<close> and \<open>k\<close> also match the code
  points beyond ASCII that Unicode folds to them), \<open>\s\<close> and \<open>.\<close>.
\<close>

datatype cls = Letter nat | Blank | Dot

definition is_blank :: "nat \<Rightarrow> bool" where
  "is_blank c \<longleftrightarrow>
     9 \<le> c \<and> c \<le> 13 \<or> 28 \<le> c \<and> c \<le> 32 \<or> c = 0x85 \<or> c = 0xA0 \<or> c = 0x1680
     \<or> 0x2000 \<le> c \<and> c \<le> 0x200A \<or> c = 0x2028 \<or> c = 0x2029 \<or> c = 0x202F
     \<or> c = 0x205F \<or> c = 0x3000"

fun cls_has :: "cls \<Rightarrow> nat \<Rightarrow> bool" where
  "cls_has (Letter l) c \<longleftrightarrow>
     ascii_lower c = l \<or> l = 105 \<and> (c = 0x130 \<or> c = 0x131) \<or> l = 115 \<and> c = 0x17F
     \<or> l = 107 \<and> c = 0x212A"
| "cls_has Blank c \<longleftrightarrow> is_blank c"
| "cls_has Dot c \<longleftrightarrow> c \<noteq> 10"

text \<open>\<open>\w\<close>, which \<open>\b\<close> looks at on both sides of a position.\<close>

definition is_word :: "pyenv \<Rightarrow> nat \<Rightarrow> bool" where
  "is_word env c \<longleftrightarrow>
     48 \<le> c \<and> c \<le> 57 \<or> 65 \<le> c \<and> c \<le> 90 \<or> 97 \<le> c \<and> c \<le> 122 \<or> c = 95
     \<or> 128 \<le> c \<and> alnum env c"

definition word_before :: "pyenv \<Rightarrow> str \<Rightarrow> nat \<Rightarrow> bool" where
  "word_before env s i \<longleftrightarrow> 0 < i \<and> i \<le> length s \<and> is_word env (s ! (i - 1))"

definition word_after :: "pyenv \<Rightarrow> str \<Rightarrow> nat \<Rightarrow> bool" where
  "word_after env s i \<longleftrightarrow> i < length s \<and> is_word env (s ! i)"

subsection \<open>Patterns\<close>

datatype pat =
    One cls
  | Many cls           \<comment> \<open>\<open>c*\<close>\<close>
  | Edge               \<comment> \<open>\<open>\b\<close>\<close>
  | Empty
  | Then pat pat
  | Either pat pat

fun ends :: "pyenv \<Rightarrow> str \<Rightarrow> pat \<Rightarrow> nat \<Rightarrow> nat list" where
  "ends env s (One c) i = (if i < length s \<and> cls_has c (s ! i) then [Suc i] else [])"
| "ends env s (Many c) i = [i ..< Suc (i + length (takeWhile (cls_has c) (drop i s)))]"
| "ends env s Edge i = (if word_before env s i \<noteq> word_after env s i then [i] else [])"
| "ends env s Empty i = [i]"
| "ends env s (Then p q) i = remdups (concat (map (ends env s q) (ends env s p i)))"
| "ends env s (Either p q) i = ends env s p i @ ends env s q i"

text \<open>\<open>p.search(s) is not None\<close>.\<close>

definition search_pat :: "pyenv \<Rightarrow> str \<Rightarrow> pat \<Rightarrow> bool" where
  "search_pat env s p \<longleftrightarrow> list_ex (\<lambda>i. ends env s p i \<noteq> []) [0 ..< Suc (length s)]"

definition letters :: "string \<Rightarrow> pat" where
  "letters w = foldr (\<lambda>c p. Then (One (Letter (of_char c))) p) w Empty"

definition blanks :: pat where
  "blanks = Then (One Blank) (Many Blank)"

fun seq :: "pat list \<Rightarrow> pat" where
  "seq [] = Empty"
| "seq (p # ps) = Then p (seq ps)"

fun anyof :: "pat \<Rightarrow> pat list \<Rightarrow> pat" where
  "anyof p [] = p"
| "anyof p (q # qs) = Either p (anyof q qs)"

definition words :: "string list \<Rightarrow> pat" where
  "words ws = anyof (letters (hd ws)) (map letters (tl ws))"

definition patterns :: "pat list" where
  "patterns =
    [seq [letters ''ignore'', blanks, Either (Then (letters ''all'') blanks) Empty,
          words [''previous'', ''prior'', ''earlier''], blanks, letters ''instructions''],
     seq [letters ''disregard'', blanks, Many Dot,
          words [''policy'', ''policies'', ''guardrail'', ''restriction'', ''instruction'']],
     seq [letters ''bypass'', blanks, Many Dot,
          words [''policy'', ''gateway'', ''filter'', ''guardrail'', ''check'']],
     seq [letters ''override'', blanks, Many Dot,
          words [''safety'', ''policy'', ''guardrail'', ''restriction'']],
     seq [letters ''reveal'', blanks, Many Dot,
          anyof (seq [letters ''system'', blanks, letters ''prompt''])
            [letters ''secret'', seq [letters ''api'', Many Blank, letters ''key'']]],
     letters ''exfiltrate'',
     letters ''jailbreak'',
     seq [Edge, letters ''do'', blanks, letters ''anything'', blanks, letters ''now'', Edge],
     seq [letters ''pretend'', blanks, letters ''you'', blanks, letters ''have'', blanks,
          letters ''no'', blanks, letters ''restriction''],
     seq [letters ''developer'', blanks, letters ''mode'', blanks, letters ''enabled''],
     seq [letters ''ignore'', blanks, Many Dot, letters ''safety'']]"

definition contains_injection :: "pyenv \<Rightarrow> str \<Rightarrow> bool" where
  "contains_injection env prompt_text =
     (if prompt_text = [] then False
      else list_ex (search_pat env (take 8192 prompt_text)) patterns)"

subsection \<open>What the expressions mean\<close>

inductive pmatch :: "pyenv \<Rightarrow> str \<Rightarrow> pat \<Rightarrow> nat \<Rightarrow> nat \<Rightarrow> bool" for env s where
  one: "i < length s \<Longrightarrow> cls_has c (s ! i) \<Longrightarrow> pmatch env s (One c) i (Suc i)"
| many_stop: "pmatch env s (Many c) i i"
| many_step: "pmatch env s (One c) i j \<Longrightarrow> pmatch env s (Many c) j k \<Longrightarrow> pmatch env s (Many c) i k"
| edge: "word_before env s i \<noteq> word_after env s i \<Longrightarrow> pmatch env s Edge i i"
| empty: "pmatch env s Empty i i"
| seqn: "pmatch env s p i j \<Longrightarrow> pmatch env s q j k \<Longrightarrow> pmatch env s (Then p q) i k"
| left: "pmatch env s p i j \<Longrightarrow> pmatch env s (Either p q) i j"
| right: "pmatch env s q i j \<Longrightarrow> pmatch env s (Either p q) i j"

inductive_simps pmatch_simps [simp]:
  "pmatch env s (One c) i j" "pmatch env s Edge i j" "pmatch env s Empty i j"
  "pmatch env s (Then p q) i j" "pmatch env s (Either p q) i j"

lemma pmatch_many_sound:
  "pmatch env s (Many c) i j \<Longrightarrow> i \<le> j \<and> j \<le> i + length (takeWhile (cls_has c) (drop i s))"
proof (induction "Many c" i j rule: pmatch.induct)
  case (many_step i j k)
  then have "i < length s" "cls_has c (s ! i)" "j = Suc i" by auto
  with many_step show ?case by (simp flip: Cons_nth_drop_Suc)
qed simp

lemma pmatch_many_complete:
  "n \<le> length (takeWhile (cls_has c) (drop i s)) \<Longrightarrow> pmatch env s (Many c) i (i + n)"
proof (induction n arbitrary: i)
  case (Suc n)
  then have "i < length s" by (cases "i < length s") auto
  with Suc.prems have c: "cls_has c (s ! i)" "n \<le> length (takeWhile (cls_has c) (drop (Suc i) s))"
    by (simp_all flip: Cons_nth_drop_Suc split: if_splits)
  from Suc.IH [OF c(2)] \<open>i < length s\<close> c(1) show ?case
    by (auto intro: many_step [where j = "Suc i"])
qed (simp add: many_stop)

lemma pmatch_many:
  "pmatch env s (Many c) i j \<longleftrightarrow>
     i \<le> j \<and> j \<le> i + length (takeWhile (cls_has c) (drop i s))"
  using pmatch_many_sound pmatch_many_complete by (metis le_Suc_ex nat_add_left_cancel_le)

lemma ends_iff: "j \<in> set (ends env s p i) \<longleftrightarrow> pmatch env s p i j"
  by (induction p arbitrary: i j) (auto simp: pmatch_many)

lemma ends_nonempty: "ends env s p i \<noteq> [] \<longleftrightarrow> (\<exists>j. pmatch env s p i j)"
  unfolding ends_iff [symmetric] by (cases "ends env s p i") auto

lemma search_pat_iff: "search_pat env s p \<longleftrightarrow> (\<exists>i\<le>length s. \<exists>j. pmatch env s p i j)"
  unfolding search_pat_def list_ex_iff ends_nonempty set_upt by (auto simp: less_Suc_eq_le)

lemma contains_injection_iff:
  "contains_injection env t \<longleftrightarrow>
     t \<noteq> [] \<and>
     (\<exists>p\<in>set patterns. \<exists>i j. i \<le> length (take 8192 t) \<and> pmatch env (take 8192 t) p i j)"
  by (auto simp: contains_injection_def list_ex_iff search_pat_iff)

text \<open>The screen reads the first 8192 code points and nothing after them.\<close>

lemma contains_injection_clip: "contains_injection env (take 8192 t) = contains_injection env t"
  by (cases t) (simp_all add: contains_injection_def)

subsection \<open>Upper and lower case\<close>

lemma same_classes_ends:
  assumes cls: "\<And>c x. cls_has c (f x) = cls_has c x"
    and word: "\<And>x. is_word env (f x) = is_word env x"
  shows "ends env (map f s) p i = ends env s p i"
proof (induction p arbitrary: i)
  case (Then p q)
  have "ends env (map f s) q = ends env s q" by (rule ext) (rule Then.IH)
  with Then.IH(1) show ?case by simp
qed (auto simp: word_before_def word_after_def drop_map takeWhile_map comp_def cls word)

lemma ascii_upper_classes: "cls_has c (ascii_upper x) = cls_has c x"
  by (cases c) (auto simp: ascii_upper_def ascii_lower_def is_blank_def split: if_splits)

lemma ascii_upper_word: "is_word env (ascii_upper x) = is_word env x"
  by (auto simp: ascii_upper_def is_word_def)

lemma contains_injection_upper:
  "contains_injection env (map ascii_upper t) = contains_injection env t"
proof -
  have "search_pat env (map ascii_upper s) = search_pat env s" for s
    by (rule ext)
       (simp add: search_pat_def same_classes_ends [OF ascii_upper_classes ascii_upper_word])
  then show ?thesis by (simp add: contains_injection_def take_map)
qed

text \<open>On ASCII text the screen does not depend on the Unicode tables.\<close>

lemma contains_injection_ascii:
  assumes "\<forall>c\<in>set t. c < 128"
  shows "contains_injection env t = contains_injection env' t"
proof -
  have word: "is_word env c = is_word env' c" if "c < 128" for c
    using that by (auto simp: is_word_def)
  have "ends env s p i = ends env' s p i" if s: "\<forall>c\<in>set s. c < 128" for s p i
  proof (induction p arbitrary: i)
    case Edge
    have "is_word env (s ! j) = is_word env' (s ! j)" if "j < length s" for j
      using s that word by simp
    then have "word_before env s i = word_before env' s i" "word_after env s i = word_after env' s i"
      by (auto simp: word_before_def word_after_def)
    then show ?case by simp
  next
    case (Then p q)
    have "ends env s q = ends env' s q" by (rule ext) (rule Then.IH)
    with Then.IH(1) show ?case by simp
  qed simp_all
  moreover have "\<forall>c\<in>set (take 8192 t). c < 128" using assms by (auto dest: in_set_takeD)
  ultimately have "search_pat env (take 8192 t) = search_pat env' (take 8192 t)"
    by (intro ext) (simp add: search_pat_def)
  then show ?thesis by (simp add: contains_injection_def)
qed

subsection \<open>Surrounding text\<close>

text \<open>Every expression but the one with \<open>\b\<close> is found wherever it stands in the prompt.\<close>

fun edge_free :: "pat \<Rightarrow> bool" where
  "edge_free Edge \<longleftrightarrow> False"
| "edge_free (Then p q) \<longleftrightarrow> edge_free p \<and> edge_free q"
| "edge_free (Either p q) \<longleftrightarrow> edge_free p \<and> edge_free q"
| "edge_free _ \<longleftrightarrow> True"

lemma pmatch_embed:
  "pmatch env s p i j \<Longrightarrow> edge_free p \<Longrightarrow>
     pmatch env (u @ s @ v) p (length u + i) (length u + j)"
proof (induction rule: pmatch.induct)
  case (many_step c i j k)
  then show ?case by (auto intro: pmatch.many_step [where j = "length u + j"])
qed (auto simp: nth_append intro: pmatch.intros)

lemma found_embedded:
  assumes "pmatch env x p 0 j" "edge_free p" "p \<in> set patterns" "length u + length x \<le> 8192"
    and "x \<noteq> []"
  shows "contains_injection env (u @ x @ v)"
proof -
  have "take 8192 (u @ x @ v) = u @ x @ take (8192 - length u - length x) v"
    using assms(4) by simp
  with pmatch_embed [OF assms(1,2), of u "take (8192 - length u - length x) v"] assms(3-5)
  show ?thesis unfolding contains_injection_iff
    by (intro conjI bexI [of _ p] exI [of _ "length u"] exI [of _ "length u + j"]) auto
qed

text \<open>A whole text that a pattern matches, and the ways to build one.\<close>

definition whole :: "pyenv \<Rightarrow> str \<Rightarrow> pat \<Rightarrow> bool" where
  "whole env s p \<longleftrightarrow> edge_free p \<and> pmatch env s p 0 (length s)"

lemma whole_Then: "whole env s p \<Longrightarrow> whole env t q \<Longrightarrow> whole env (s @ t) (Then p q)"
  using pmatch_embed [of env s p 0 "length s" "[]" t] pmatch_embed [of env t q 0 "length t" s "[]"]
  by (auto simp: whole_def)

lemma whole_Either: "edge_free p \<Longrightarrow> edge_free q \<Longrightarrow> whole env s p \<or> whole env s q \<Longrightarrow> whole env s (Either p q)"
  by (auto simp: whole_def)

lemma whole_Empty: "whole env [] Empty"
  by (simp add: whole_def)

lemma edge_free_letters [simp]: "edge_free (letters w)"
  by (induction w) (simp_all add: letters_def)

lemma whole_letters: "map ascii_lower s = lit w \<Longrightarrow> whole env s (letters w)"
proof (induction w arbitrary: s)
  case (Cons c w)
  then obtain x s' where s: "s = x # s'" "ascii_lower x = of_char c" "map ascii_lower s' = lit w"
    by (auto simp: lit_Cons)
  then have "whole env [x] (One (Letter (of_char c)))" by (simp add: whole_def)
  from whole_Then [OF this Cons.IH [OF s(3)]] s(1) show ?case by (simp add: letters_def)
qed (simp add: letters_def whole_Empty)

lemma whole_Many: "\<forall>x\<in>set s. cls_has c x \<Longrightarrow> whole env s (Many c)"
  by (simp add: whole_def pmatch_many takeWhile_eq_all_conv [THEN iffD2])

lemma whole_blanks: "s \<noteq> [] \<Longrightarrow> \<forall>x\<in>set s. is_blank x \<Longrightarrow> whole env s blanks"
proof (cases s)
  case (Cons x s')
  assume "\<forall>x\<in>set s. is_blank x"
  with Cons have "whole env [x] (One Blank)" "whole env s' (Many Blank)"
    by (auto simp: whole_def [of _ "[x]"] intro: whole_Many)
  from whole_Then [OF this] Cons show ?thesis by (simp add: blanks_def)
qed simp

lemma whole_found:
  "whole env x p \<Longrightarrow> p \<in> set patterns \<Longrightarrow> x \<noteq> [] \<Longrightarrow> length u + length x \<le> 8192 \<Longrightarrow>
     contains_injection env (u @ x @ v)"
  by (auto simp: whole_def intro: found_embedded)

lemmas whole_intros = whole_Then whole_letters whole_blanks whole_Many whole_Empty

text \<open>The first pattern, spelled out.\<close>

lemma bypass_found:
  assumes "map ascii_lower a = lit ''ignore''" "map ascii_lower c = lit ''instructions''"
    and "map ascii_lower b \<in> {lit ''previous'', lit ''prior'', lit ''earlier''}"
    and "x \<noteq> []" "y \<noteq> []" "\<forall>z\<in>set x \<union> set y. is_blank z"
    and "length u + length (a @ x @ b @ y @ c) \<le> 8192"
  shows "contains_injection env (u @ (a @ x @ b @ y @ c) @ v)"
proof -
  let ?p = "seq [letters ''ignore'', blanks, Either (Then (letters ''all'') blanks) Empty,
      words [''previous'', ''prior'', ''earlier''], blanks, letters ''instructions'']"
  have none: "whole env [] (Either (Then (letters ''all'') blanks) Empty)"
    by (rule whole_Either) (simp_all add: whole_Empty blanks_def)
  have b: "whole env b (words [''previous'', ''prior'', ''earlier''])"
    using assms(3) by (auto simp: words_def intro!: whole_Either intro: whole_letters)
  have "whole env (a @ x @ [] @ b @ y @ c @ []) ?p"
    unfolding seq.simps
    by (intro whole_Then none b whole_letters whole_blanks whole_Empty) (use assms in auto)
  from whole_found [OF this, of u v] assms(4,7) show ?thesis
    by (simp add: patterns_def)
qed

end
