(* ===== verification/Base64.thy ===== *)
theory Base64
  imports PyText
begin

text \<open>
  The URL-safe base64 helpers \<open>_b64e\<close> and \<open>_b64d\<close> of \<open>src/policy/tokens.py\<close>, over
  \<open>base64.urlsafe_b64encode\<close> and the lenient \<open>base64.urlsafe_b64decode\<close>, which skips
  characters outside the alphabet and stops at a complete padding.
\<close>

definition b64char :: "nat \<Rightarrow> nat" where
  "b64char v =
     (if v < 26 then 65 + v else if v < 52 then 71 + v else if v < 62 then v - 4
      else if v = 62 then 45 else 95)"

definition b64val :: "nat \<Rightarrow> nat option" where
  "b64val c =
     (if 65 \<le> c \<and> c \<le> 90 then Some (c - 65)
      else if 97 \<le> c \<and> c \<le> 122 then Some (c - 71)
      else if 48 \<le> c \<and> c \<le> 57 then Some (c + 4)
      else if c = 43 \<or> c = 45 then Some 62
      else if c = 47 \<or> c = 95 then Some 63
      else None)"

fun urlsafe_b64encode :: "nat list \<Rightarrow> str" where
  "urlsafe_b64encode (a # b # c # rest) =
     b64char (a div 4) # b64char (a mod 4 * 16 + b div 16)
       # b64char (b mod 16 * 4 + c div 64) # b64char (c mod 64) # urlsafe_b64encode rest"
| "urlsafe_b64encode [a, b] =
     [b64char (a div 4), b64char (a mod 4 * 16 + b div 16), b64char (b mod 16 * 4), 61]"
| "urlsafe_b64encode [a] = [b64char (a div 4), b64char (a mod 4 * 16), 61, 61]"
| "urlsafe_b64encode [] = []"

definition rstrip :: "nat \<Rightarrow> str \<Rightarrow> str" where
  "rstrip c s = rev (dropWhile ((=) c) (rev s))"

definition b64e :: "bytes \<Rightarrow> str" where
  "b64e raw = rstrip 61 (urlsafe_b64encode (map unat raw))"

text \<open>
  The decoder of \<open>binascii.a2b_base64\<close>: \<open>q\<close> counts the characters of the current group of
  four, \<open>l\<close> holds the bits left over from the last one and \<open>p\<close> the padding seen since.
\<close>

fun a2b_base64 :: "nat \<Rightarrow> nat \<Rightarrow> nat \<Rightarrow> nat list \<Rightarrow> nat list option" where
  "a2b_base64 q l p [] = (if q = 0 then Some [] else None)"
| "a2b_base64 q l p (c # cs) =
     (if c = 61 then
        (if 2 \<le> q \<and> 4 \<le> q + Suc p then Some []
         else a2b_base64 q l (if 2 \<le> q then Suc p else p) cs)
      else (case b64val c of
              None \<Rightarrow> a2b_base64 q l p cs
            | Some v \<Rightarrow>
                if q = 0 then a2b_base64 1 v 0 cs
                else if q = 1 then map_option ((#) (l * 4 + v div 16)) (a2b_base64 2 (v mod 16) 0 cs)
                else if q = 2 then map_option ((#) (l * 16 + v div 4)) (a2b_base64 3 (v mod 4) 0 cs)
                else map_option ((#) (l * 64 + v)) (a2b_base64 0 0 0 cs)))"

text \<open>\<open>-len(s) % 4\<close>.\<close>

definition padding :: "str \<Rightarrow> str" where
  "padding s = replicate ((4 - length s mod 4) mod 4) 61"

definition b64d :: "str \<Rightarrow> exn + bytes" where
  "b64d s =
     (if \<exists>c\<in>set s. 128 \<le> c then Inl (ValueError (lit ''string argument should contain only ASCII characters''))
      else (case a2b_base64 0 0 0 (s @ padding s) of
              None \<Rightarrow> Inl (ValueError (lit ''Incorrect padding''))
            | Some ns \<Rightarrow> Inr (map of_nat ns)))"

subsection \<open>Round trip\<close>

lemma b64_props:
  assumes "v < 64"
  shows "b64val (b64char v) = Some v" and "b64char v \<noteq> 61" and "b64char v < 128"
    and "b64char v \<noteq> 46"
  using assms by (auto simp: b64char_def b64val_def)

text \<open>The text without its padding, which is what \<open>rstrip("=")\<close> leaves.\<close>

fun b64_plain :: "nat list \<Rightarrow> str" where
  "b64_plain (a # b # c # rest) =
     b64char (a div 4) # b64char (a mod 4 * 16 + b div 16)
       # b64char (b mod 16 * 4 + c div 64) # b64char (c mod 64) # b64_plain rest"
| "b64_plain [a, b] = [b64char (a div 4), b64char (a mod 4 * 16 + b div 16), b64char (b mod 16 * 4)]"
| "b64_plain [a] = [b64char (a div 4), b64char (a mod 4 * 16)]"
| "b64_plain [] = []"

lemma six_bits:
  assumes "(a::nat) < 256" "b < 256"
  shows "a div 4 < 64" "a mod 4 * 16 + b div 16 < 64" "b mod 16 * 4 + a div 64 < 64"
    "a mod 4 * 16 < 64" "a mod 16 * 4 < 64" "a mod 64 < 64"
proof -
  have "a mod 4 < 4" "b div 16 < 16" "b mod 16 < 16" "a div 64 < 4" "a mod 16 < 16"
    using assms by auto
  then show "a div 4 < 64" "a mod 4 * 16 + b div 16 < 64" "b mod 16 * 4 + a div 64 < 64"
    "a mod 4 * 16 < 64" "a mod 16 * 4 < 64" "a mod 64 < 64"
    using assms by auto
qed

lemma b64_plain_chars:
  "\<forall>n\<in>set ns. n < 256 \<Longrightarrow> c \<in> set (b64_plain ns) \<Longrightarrow> c \<noteq> 61 \<and> c < 128 \<and> c \<noteq> 46"
  by (induction ns rule: b64_plain.induct) (auto simp: b64_props six_bits)

lemma padding_simps [simp]:
  "padding [] = []" "padding [x, y] = [61, 61]" "padding [x, y, z] = [61]"
  "padding (w # x # y # z # s) = padding s"
proof -
  show "padding [x, y] = [61, 61]" by (simp add: padding_def numeral_2_eq_2)
qed (simp_all add: padding_def)

lemma urlsafe_plain: "urlsafe_b64encode ns = b64_plain ns @ padding (b64_plain ns)"
  by (induction ns rule: b64_plain.induct) simp_all

lemma rstrip_append:
  assumes "c \<notin> set s" shows "rstrip c (s @ replicate n c) = s"
proof -
  have "dropWhile ((=) c) (replicate n c @ rev s) = rev s"
    using assms by (induction n) (auto simp: dropWhile_eq_self_iff hd_rev)
  then show ?thesis by (simp add: rstrip_def)
qed

lemma b64e_plain: "b64e raw = b64_plain (map unat raw)"
proof -
  have "61 \<notin> set (b64_plain (map unat raw))"
    using b64_plain_chars [of "map unat raw" 61] unat_byte_less by auto
  then show ?thesis by (simp add: b64e_def urlsafe_plain padding_def rstrip_append)
qed

lemma b64e_chars: "c \<in> set (b64e raw) \<Longrightarrow> c \<noteq> 61 \<and> c < 128 \<and> c \<noteq> 46"
  using b64_plain_chars [of "map unat raw" c] unat_byte_less by (auto simp: b64e_plain)

lemma regroup:
  fixes a b c :: nat
  shows "b < 256 \<Longrightarrow> a div 4 * 4 + (a mod 4 * 16 + b div 16) div 16 = a"
    and "c < 256 \<Longrightarrow> b < 256 \<Longrightarrow>
      (a mod 4 * 16 + b div 16) mod 16 * 16 + (b mod 16 * 4 + c div 64) div 4 = b"
    and "c < 256 \<Longrightarrow> (b mod 16 * 4 + c div 64) mod 4 * 64 + c mod 64 = c"
proof -
  assume "b < 256"
  then have "b div 16 < 16" by simp
  then show "a div 4 * 4 + (a mod 4 * 16 + b div 16) div 16 = a" by simp
next
  assume "c < 256" "b < 256"
  then have "b div 16 < 16" "c div 64 < 4" by simp_all
  then show "(a mod 4 * 16 + b div 16) mod 16 * 16 + (b mod 16 * 4 + c div 64) div 4 = b" by simp
next
  assume "c < 256"
  then have "c div 64 < 4" by simp
  then show "(b mod 16 * 4 + c div 64) mod 4 * 64 + c mod 64 = c" by simp
qed

lemma a2b_plain:
  "\<forall>n\<in>set ns. n < 256 \<Longrightarrow> a2b_base64 0 0 0 (b64_plain ns @ padding (b64_plain ns)) = Some ns"
proof (induction ns rule: b64_plain.induct)
  case (1 a b c rest)
  then have lt: "a < 256" "b < 256" "c < 256" by auto
  from 1 lt regroup(1) [OF lt(2), of a] regroup(2) [OF lt(3,2), of a] regroup(3) [OF lt(3), of b]
  show ?case by (simp add: b64_props six_bits)
next
  case (2 a b)
  then have "a < 256" "b < 256" by auto
  with regroup(1) [of b a] regroup(2) [of 0 b a] show ?case by (simp add: b64_props six_bits)
next
  case (3 a)
  then have "a < 256" by auto
  with regroup(1) [of 0 a] show ?case by (simp add: b64_props six_bits)
next
  case 4
  then show ?case by simp
qed

theorem b64d_b64e: "b64d (b64e raw) = Inr raw"
proof -
  have "a2b_base64 0 0 0 (b64e raw @ padding (b64e raw)) = Some (map unat raw)"
    using a2b_plain [of "map unat raw"] unat_byte_less by (auto simp: b64e_plain)
  moreover have "\<not> (\<exists>c\<in>set (b64e raw). 128 \<le> c)"
    using b64e_chars by (auto simp: not_le)
  ultimately show ?thesis by (simp add: b64d_def comp_def)
qed

lemma b64e_inject [simp]: "b64e a = b64e b \<longleftrightarrow> a = b"
  by (metis b64d_b64e sum.inject(2))

end
