(* ===== verification/Once.thy ===== *)
theory Once
  imports Prelude
begin

text \<open>
  The contract of everything that may happen at most once: a step hands out at most one mark,
  a mark it hands out was not spent before and is spent from then on, and nothing spent is
  ever given back. The nonces of consent tokens, the runs posted to the ledger, the
  dispute ids and the admitted assets of a training cut all obey it.
\<close>

text \<open>The marks that a run hands out, in order.\<close>

fun marks ::
    "('st \<Rightarrow> 'op \<Rightarrow> 'st) \<Rightarrow> ('st \<Rightarrow> 'op \<Rightarrow> 'm option) \<Rightarrow> 'st \<Rightarrow> 'op list \<Rightarrow> 'm list" where
  "marks step mark s [] = []"
| "marks step mark s (opn # opns) =
     (case mark s opn of None \<Rightarrow> [] | Some m \<Rightarrow> [m]) @ marks step mark (step s opn) opns"

locale single_use =
  fixes step :: "'st \<Rightarrow> 'op \<Rightarrow> 'st" and mark :: "'st \<Rightarrow> 'op \<Rightarrow> 'm option"
    and spent :: "'st \<Rightarrow> 'm set" and inv :: "'st \<Rightarrow> bool"
  assumes inv_step: "inv s \<Longrightarrow> inv (step s opn)"
    and marked: "inv s \<Longrightarrow> mark s opn = Some m \<Longrightarrow> m \<notin> spent s \<and> m \<in> spent (step s opn)"
    and spent_mono: "inv s \<Longrightarrow> spent s \<subseteq> spent (step s opn)"
begin

lemma run_inv: "inv s \<Longrightarrow> inv (foldl step s opns)"
  using inv_step by (induction opns arbitrary: s) simp_all

lemma run_mono: "inv s \<Longrightarrow> spent s \<subseteq> spent (foldl step s opns)"
proof (induction opns arbitrary: s)
  case (Cons opn opns)
  from Cons.IH [OF inv_step [OF Cons.prems, of opn]] spent_mono [OF Cons.prems, of opn] show ?case
    by (simp add: subset_trans)
qed simp

lemma marks_fresh: "inv s \<Longrightarrow> m \<in> set (marks step mark s opns) \<Longrightarrow> m \<notin> spent s"
proof (induction opns arbitrary: s)
  case (Cons opn opns)
  from Cons.prems(2) consider "mark s opn = Some m" | "m \<in> set (marks step mark (step s opn) opns)"
    by (auto split: option.splits)
  then show ?case
  proof cases
    case 1
    with marked [OF Cons.prems(1)] show ?thesis by blast
  next
    case 2
    from Cons.IH [OF inv_step [OF Cons.prems(1)] this] spent_mono [OF Cons.prems(1), of opn]
    show ?thesis by blast
  qed
qed simp

lemma at_most_once: "inv s \<Longrightarrow> distinct (marks step mark s opns)"
proof (induction opns arbitrary: s)
  case (Cons opn opns)
  note inv = inv_step [OF Cons.prems, of opn]
  have "m \<notin> set (marks step mark (step s opn) opns)" if "mark s opn = Some m" for m
    using marks_fresh [OF inv] marked [OF Cons.prems that] by blast
  with Cons.IH [OF inv] show ?case by (simp split: option.split)
qed simp

lemma marks_spent: "inv s \<Longrightarrow> set (marks step mark s opns) \<subseteq> spent (foldl step s opns)"
proof (induction opns arbitrary: s)
  case (Cons opn opns)
  note inv = inv_step [OF Cons.prems, of opn]
  have "m \<in> spent (foldl step (step s opn) opns)" if "mark s opn = Some m" for m
    using marked [OF Cons.prems that] run_mono [OF inv] by blast
  with Cons.IH [OF inv] show ?case by (auto split: option.splits)
qed simp

text \<open>What is spent stays refused.\<close>

lemma refused_after:
  assumes "inv s" "m \<in> spent s" shows "mark (foldl step s opns) opn \<noteq> Some m"
  using marked [OF run_inv [OF assms(1)], of opns opn m] run_mono [OF assms(1), of opns] assms(2)
  by blast

end

end
