(* ===== verification/Tokens.thy ===== *)
theory Tokens
  imports Json Base64 Sha256 Once
begin

text \<open>
  \<open>src/policy/tokens.py\<close>: consent tokens and their single-use nonces. A method that takes the
  store's lock does so around the last check and the insertion, so a call is one step on the
  record. The random bytes of \<open>secrets.token_hex(16)\<close> and the time are arguments. The limits
  of the interpreter on nesting depth and on the digits of a number are not modelled.
\<close>

subsection \<open>\<open>str(x)\<close> and \<open>int(x)\<close> of a decoded JSON value\<close>

fun json_repr :: "pyenv \<Rightarrow> json \<Rightarrow> str" where
  "json_repr env JNull = lit ''None''"
| "json_repr env (JBool b) = (if b then lit ''True'' else lit ''False'')"
| "json_repr env (JInt n) = str_int n"
| "json_repr env (JFloat l) = float_str env l"
| "json_repr env (JStr s) = py_repr env s"
| "json_repr env (JArr xs) = lit ''['' @ join (lit '', '') (map (json_repr env) xs) @ lit '']''"
| "json_repr env (JObj kvs) =
     lit ''{'' @ join (lit '', '')
       (map (\<lambda>(k, v). py_repr env k @ lit '': '' @ json_repr env v) kvs) @ lit ''}''"

fun json_str :: "pyenv \<Rightarrow> json \<Rightarrow> str" where
  "json_str env (JStr s) = s"
| "json_str env j = json_repr env j"

fun json_int :: "pyenv \<Rightarrow> json \<Rightarrow> exn + int" where
  "json_int env (JInt n) = Inr n"
| "json_int env (JBool b) = Inr (if b then 1 else 0)"
| "json_int env (JStr s) = int_of_str env s"
| "json_int env (JFloat l) = float_int env l"
| "json_int env j = Inl TypeError"

text \<open>\<open>payload[k]\<close>.\<close>

fun json_item :: "json \<Rightarrow> str \<Rightarrow> exn + json" where
  "json_item (JObj kvs) k =
     (case dget kvs k of None \<Rightarrow> Inl (KeyError k) | Some v \<Rightarrow> Inr v)"
| "json_item j k = Inl TypeError"

text \<open>\<open>hmac.compare_digest\<close> of two strings refuses what is not ASCII.\<close>

definition compare_digest_str :: "str \<Rightarrow> str \<Rightarrow> exn + bool" where
  "compare_digest_str a b =
     (if (\<forall>c\<in>set a. c < 128) \<and> (\<forall>c\<in>set b. c < 128) then Inr (a = b) else Inl TypeError)"

subsection \<open>The store\<close>

record claim =
  c_asset_id :: str
  c_tenant_id :: str
  c_nonce :: str
  c_issued_at :: int
  c_expires_at :: int

record token_store =
  token_key :: bytes
  used_nonces :: "str set"

definition new_token_store :: "bytes \<Rightarrow> exn + token_store" where
  "new_token_store key =
     (if length key < 32 then Inl (ValueError (lit ''token_key must be at least 32 bytes''))
      else Inr \<lparr>token_key = key, used_nonces = {}\<rparr>)"

definition mint_payload :: "str \<Rightarrow> str \<Rightarrow> int \<Rightarrow> int \<Rightarrow> bytes \<Rightarrow> json" where
  "mint_payload asset tenant ttl now rand =
     JObj [(lit ''asset_id'', JStr asset), (lit ''tenant_id'', JStr tenant),
           (lit ''nonce'', JStr (hex rand)), (lit ''iat'', JInt now), (lit ''exp'', JInt (now + ttl))]"

definition mint :: "token_store \<Rightarrow> str \<Rightarrow> str \<Rightarrow> int \<Rightarrow> int \<Rightarrow> bytes \<Rightarrow> exn + str" where
  "mint s asset tenant ttl now rand =
     andthen (utf8_encode (dumps (mint_payload asset tenant ttl now rand))) (\<lambda>raw.
       let payload_b64 = b64e raw
       in andthen (ascii_encode payload_b64) (\<lambda>m.
            Inr (payload_b64 @ lit ''.'' @ b64e (hmac_sha256 (token_key s) m))))"

text \<open>\<open>token.split(".", 1)\<close>, when it gives two parts.\<close>

definition split_dot :: "str \<Rightarrow> (str \<times> str) option" where
  "split_dot t =
     (if 46 \<in> set t then Some (takeWhile (\<lambda>c. c \<noteq> 46) t, tl (dropWhile (\<lambda>c. c \<noteq> 46) t))
      else None)"

definition token_error :: "string \<Rightarrow> exn" where
  "token_error m = TokenError (lit m)"

text \<open>
  The part that \<open>verify\<close> and \<open>verify_without_consuming\<close> have in common, up to the decoded
  payload's bytes: they decode the two parts in different orders, but either failure gives
  the same error.
\<close>

definition decode_token :: "token_store \<Rightarrow> str \<Rightarrow> exn + bytes" where
  "decode_token s token =
     (case split_dot token of
        None \<Rightarrow> Inl (token_error ''malformed token'')
      | Some (payload_b64, sig_b64) \<Rightarrow>
          (case (b64d payload_b64, b64d sig_b64) of
             (Inr payload_raw, Inr provided_sig) \<Rightarrow>
               andthen (ascii_encode payload_b64) (\<lambda>m.
                 if provided_sig = hmac_sha256 (token_key s) m then Inr payload_raw
                 else Inl (token_error ''invalid signature''))
           | _ \<Rightarrow> Inl (token_error ''malformed token'')))"

definition decode_payload :: "bytes \<Rightarrow> exn + json" where
  "decode_payload raw = andthen (utf8_decode raw) loads"

definition read_claim :: "pyenv \<Rightarrow> json \<Rightarrow> exn + claim" where
  "read_claim env payload =
     andthen (json_item payload (lit ''asset_id'')) (\<lambda>a.
     andthen (json_item payload (lit ''tenant_id'')) (\<lambda>t.
     andthen (json_item payload (lit ''nonce'')) (\<lambda>n.
     andthen (andthen (json_item payload (lit ''iat'')) (json_int env)) (\<lambda>i.
     andthen (andthen (json_item payload (lit ''exp'')) (json_int env)) (\<lambda>e.
       Inr \<lparr>c_asset_id = json_str env a, c_tenant_id = json_str env t,
            c_nonce = json_str env n, c_issued_at = i, c_expires_at = e\<rparr>)))))"

definition map_exn :: "(exn \<Rightarrow> exn) \<Rightarrow> exn + 'a \<Rightarrow> exn + 'a" where
  "map_exn f r = (case r of Inl e \<Rightarrow> Inl (f e) | Inr x \<Rightarrow> Inr x)"

definition verify ::
    "pyenv \<Rightarrow> token_store \<Rightarrow> str \<Rightarrow> str \<Rightarrow> str \<Rightarrow> int \<Rightarrow> exn + (claim \<times> token_store)" where
  "verify env s token expected_asset expected_tenant current =
     andthen (decode_token s token) (\<lambda>raw.
     andthen (map_exn (\<lambda>_. token_error ''malformed payload'') (decode_payload raw)) (\<lambda>payload.
     andthen (map_exn
         (\<lambda>e. if is_KeyError e \<or> is_ValueError e \<or> e = TypeError
              then token_error ''missing claim fields'' else e)
         (read_claim env payload)) (\<lambda>cl.
     andthen (compare_digest_str (c_asset_id cl) expected_asset) (\<lambda>same_asset.
     if \<not> same_asset then Inl (token_error ''asset scope mismatch'') else
     andthen (compare_digest_str (c_tenant_id cl) expected_tenant) (\<lambda>same_tenant.
     if \<not> same_tenant then Inl (token_error ''tenant scope mismatch'')
     else if c_expires_at cl \<le> current then Inl (token_error ''token expired'')
     else if current + 60 < c_issued_at cl then Inl (token_error ''token issued in the future'')
     else if c_nonce cl \<in> used_nonces s then Inl (token_error ''token replay detected'')
     else Inr (cl, s\<lparr>used_nonces := insert (c_nonce cl) (used_nonces s)\<rparr>))))))"

definition verify_without_consuming ::
    "pyenv \<Rightarrow> token_store \<Rightarrow> str \<Rightarrow> str \<Rightarrow> str \<Rightarrow> int \<Rightarrow> exn + claim" where
  "verify_without_consuming env s token expected_asset expected_tenant current =
     andthen (decode_token s token) (\<lambda>raw.
     andthen (decode_payload raw) (\<lambda>payload.
     andthen (read_claim env payload) (\<lambda>cl.
     if c_asset_id cl \<noteq> expected_asset then Inl (token_error ''asset scope mismatch'')
     else if c_tenant_id cl \<noteq> expected_tenant then Inl (token_error ''tenant scope mismatch'')
     else if c_expires_at cl \<le> current then Inl (token_error ''token expired'')
     else if c_nonce cl \<in> used_nonces s then Inl (token_error ''token replay detected'')
     else Inr cl)))"

definition used_nonce_count :: "token_store \<Rightarrow> nat" where
  "used_nonce_count s = card (used_nonces s)"

subsection \<open>A minted token reads back\<close>

lemma mint_payload_ok:
  "valid_str a \<Longrightarrow> valid_str t \<Longrightarrow> json_ok (mint_payload a t ttl now rand)"
proof -
  assume "valid_str a" "valid_str t"
  moreover have "valid_str (hex rand)" by (rule ascii_valid_str) (rule hex_ascii)
  ultimately show ?thesis
    by (simp add: mint_payload_def wf_dict_def) (simp add: lit_Cons scalar_def)
qed

definition mint_claim :: "str \<Rightarrow> str \<Rightarrow> int \<Rightarrow> int \<Rightarrow> bytes \<Rightarrow> claim" where
  "mint_claim a t ttl now rand =
     \<lparr>c_asset_id = a, c_tenant_id = t, c_nonce = hex rand, c_issued_at = now,
      c_expires_at = now + ttl\<rparr>"

lemma read_mint_payload:
  assumes "valid_str a" "valid_str t"
  shows "read_claim env (jsort (mint_payload a t ttl now rand)) = Inr (mint_claim a t ttl now rand)"
proof -
  define kvs where "kvs = [(lit ''asset_id'', JStr a), (lit ''tenant_id'', JStr t),
           (lit ''nonce'', JStr (hex rand)), (lit ''iat'', JInt now), (lit ''exp'', JInt (now + ttl))]"
  have wf: "wf_dict kvs" by (simp add: kvs_def wf_dict_def)
  obtain kvs' where kvs': "jsort (JObj kvs) = JObj kvs'" by simp
  have "json_item (JObj kvs') k =
      (case dget kvs k of None \<Rightarrow> Inl (KeyError k) | Some v \<Rightarrow> Inr (jsort v))" for k
    by (simp add: dget_jsort [OF wf kvs'] split: option.split)
  with kvs' show ?thesis
    by (simp add: mint_payload_def flip: kvs_def)
       (simp add: read_claim_def kvs_def mint_claim_def)
qed

lemma split_dot_append: "46 \<notin> set p \<Longrightarrow> split_dot (p @ 46 # q) = Some (p, q)"
  by (induction p) (auto simp: split_dot_def)

lemma mint_decodes:
  assumes "mint s a t ttl now rand = Inr tok"
  obtains raw where "utf8_encode (dumps (mint_payload a t ttl now rand)) = Inr raw"
    and "decode_token s tok = Inr raw"
proof -
  from assms obtain raw m where raw: "utf8_encode (dumps (mint_payload a t ttl now rand)) = Inr raw"
    and m: "ascii_encode (b64e raw) = Inr m"
    and tok: "tok = b64e raw @ 46 # b64e (hmac_sha256 (token_key s) m)"
    by (auto simp: mint_def andthen_eq_Inr Let_def lit_Cons)
  have "46 \<notin> set (b64e raw)" by (auto dest: b64e_chars)
  with tok m have "decode_token s tok = Inr raw"
    by (simp add: decode_token_def split_dot_append b64d_b64e)
  with raw show ?thesis by (rule that)
qed

lemma mint_defined:
  assumes "valid_str a" "valid_str t" shows "\<exists>tok. mint s a t ttl now rand = Inr tok"
proof -
  have "utf8_encode (dumps (mint_payload a t ttl now rand)) =
      Inr (map of_nat (dumps (mint_payload a t ttl now rand)))"
    using dumps_ascii [OF mint_payload_ok [OF assms]] by (rule utf8_encode_ascii)
  moreover obtain m where
    "ascii_encode (b64e (map of_nat (dumps (mint_payload a t ttl now rand)))) = Inr m"
    using b64e_chars by (fastforce simp: ascii_encode_def)
  ultimately show ?thesis by (simp add: mint_def Let_def)
qed

lemma mint_payload_decodes:
  assumes "valid_str a" "valid_str t"
    and "utf8_encode (dumps (mint_payload a t ttl now rand)) = Inr raw"
  shows "decode_payload raw = Inr (jsort (mint_payload a t ttl now rand))"
  using utf8_decode_encode [OF assms(3)] loads_dumps [OF mint_payload_ok [OF assms(1,2)]]
  by (simp add: decode_payload_def)

subsection \<open>What the two checks decide\<close>

text \<open>The signed claim of a token: what both checks compute before they compare anything.\<close>

definition signed_claim :: "pyenv \<Rightarrow> token_store \<Rightarrow> str \<Rightarrow> exn + claim" where
  "signed_claim env s token =
     andthen (decode_token s token) (\<lambda>raw. andthen (decode_payload raw) (read_claim env))"

lemma signed_claim_mint:
  assumes "valid_str a" "valid_str t" "mint s a t ttl now rand = Inr tok"
  shows "signed_claim env s tok = Inr (mint_claim a t ttl now rand)"
  using mint_decodes [OF assms(3)] mint_payload_decodes [OF assms(1,2)] read_mint_payload [OF assms(1,2)]
  by (metis signed_claim_def andthen_simps(2))

definition is_ascii :: "str \<Rightarrow> bool" where
  "is_ascii s \<longleftrightarrow> (\<forall>c\<in>set s. c < 128)"

lemma map_exn_simps [simp]: "map_exn f (Inr x) = Inr x" "map_exn f (Inl e) = Inl (f e)"
  by (simp_all add: map_exn_def)

lemma verify_iff:
  "verify env s token a t current = Inr (cl, s') \<longleftrightarrow>
     signed_claim env s token = Inr cl \<and> is_ascii a \<and> is_ascii t
     \<and> c_asset_id cl = a \<and> c_tenant_id cl = t \<and> current < c_expires_at cl
     \<and> c_issued_at cl \<le> current + 60 \<and> c_nonce cl \<notin> used_nonces s
     \<and> s' = s\<lparr>used_nonces := insert (c_nonce cl) (used_nonces s)\<rparr>"
proof (cases "signed_claim env s token")
  case (Inl e)
  then show ?thesis
    by (auto simp: verify_def signed_claim_def andthen_eq_Inl)
next
  case (Inr cl')
  then obtain raw p where "decode_token s token = Inr raw" "decode_payload raw = Inr p"
    "read_claim env p = Inr cl'"
    by (auto simp: signed_claim_def andthen_eq_Inr)
  then have "verify env s token a t current =
     andthen (compare_digest_str (c_asset_id cl') a) (\<lambda>same_asset.
     if \<not> same_asset then Inl (token_error ''asset scope mismatch'') else
     andthen (compare_digest_str (c_tenant_id cl') t) (\<lambda>same_tenant.
     if \<not> same_tenant then Inl (token_error ''tenant scope mismatch'')
     else if c_expires_at cl' \<le> current then Inl (token_error ''token expired'')
     else if current + 60 < c_issued_at cl' then Inl (token_error ''token issued in the future'')
     else if c_nonce cl' \<in> used_nonces s then Inl (token_error ''token replay detected'')
     else Inr (cl', s\<lparr>used_nonces := insert (c_nonce cl') (used_nonces s)\<rparr>)))"
    by (simp add: verify_def)
  with Inr show ?thesis
    by (auto simp: compare_digest_str_def is_ascii_def)
qed

lemma probe_iff:
  "verify_without_consuming env s token a t current = Inr cl \<longleftrightarrow>
     signed_claim env s token = Inr cl \<and> c_asset_id cl = a \<and> c_tenant_id cl = t
     \<and> current < c_expires_at cl \<and> c_nonce cl \<notin> used_nonces s"
proof (cases "signed_claim env s token")
  case (Inl e)
  then show ?thesis
    by (auto simp: verify_without_consuming_def signed_claim_def andthen_eq_Inl)
next
  case (Inr cl')
  then obtain raw p where "decode_token s token = Inr raw" "decode_payload raw = Inr p"
    "read_claim env p = Inr cl'"
    by (auto simp: signed_claim_def andthen_eq_Inr)
  with Inr show ?thesis by (auto simp: verify_without_consuming_def)
qed

lemma verify_probe:
  "verify env s token a t current = Inr (cl, s') \<Longrightarrow>
     verify_without_consuming env s token a t current = Inr cl"
  by (simp add: verify_iff probe_iff)

lemma verify_mint:
  assumes "valid_str a" "valid_str t" "is_ascii a" "is_ascii t"
    and "mint s a t ttl now rand = Inr tok"
    and "current < now + ttl" "now \<le> current + 60" "hex rand \<notin> used_nonces s'"
    and "token_key s' = token_key s"
  shows "verify env s' tok a t current =
    Inr (mint_claim a t ttl now rand, s'\<lparr>used_nonces := insert (hex rand) (used_nonces s')\<rparr>)"
proof -
  have "signed_claim env s' tok = signed_claim env s tok"
    unfolding signed_claim_def decode_token_def assms(9) ..
  with assms signed_claim_mint [OF assms(1,2,5)] show ?thesis
    by (simp add: verify_iff mint_claim_def)
qed

text \<open>For an id outside ASCII the constant-time comparison raises, whatever the token.\<close>

lemma verify_mint_raises:
  assumes "valid_str a" "valid_str t" "\<not> (is_ascii a \<and> is_ascii t)"
    and "mint s a t ttl now rand = Inr tok" "token_key s' = token_key s"
  shows "verify env s' tok a t current = Inl TypeError"
proof -
  have "signed_claim env s' tok = signed_claim env s tok"
    unfolding signed_claim_def decode_token_def assms(5) ..
  then obtain raw p where "decode_token s' tok = Inr raw" "decode_payload raw = Inr p"
    "read_claim env p = Inr (mint_claim a t ttl now rand)"
    using signed_claim_mint [OF assms(1,2,4), of env] by (auto simp: signed_claim_def andthen_eq_Inr)
  with assms(3) show ?thesis
    by (auto simp: verify_def mint_claim_def compare_digest_str_def is_ascii_def)
qed

text \<open>What has been accepted is refused from then on, with the message that names the replay.\<close>

lemma verify_again:
  assumes "verify env s token a t current = Inr (cl, s')"
  shows "verify env s' token a t current = Inl (token_error ''token replay detected'')"
proof -
  have s': "s' = s\<lparr>used_nonces := insert (c_nonce cl) (used_nonces s)\<rparr>"
    using assms by (auto simp: verify_def andthen_eq_Inr split: if_splits)
  then have key: "token_key s' = token_key s" by simp
  have "decode_token s' token = decode_token s token" unfolding decode_token_def key ..
  with assms s' show ?thesis by (auto simp: verify_def andthen_eq_Inr split: if_splits)
qed

subsection \<open>Which errors leave the checks\<close>

text \<open>What the conversions of the interpreter raise: \<open>int\<close> of a string a \<open>ValueError\<close>,
  of a float a \<open>ValueError\<close> (nan) or an \<open>OverflowError\<close> (an infinity).\<close>

definition conversions_ok :: "pyenv \<Rightarrow> bool" where
  "conversions_ok env \<longleftrightarrow>
     (\<forall>s e. int_of_str env s = Inl e \<longrightarrow> is_ValueError e)
     \<and> (\<forall>s e. float_int env s = Inl e \<longrightarrow> is_ValueError e \<or> e = OverflowError)"

lemma ascii_env_conversions: "conversions_ok ascii_env"
  by (simp add: conversions_ok_def ascii_env_def)

definition conversion_error :: "exn \<Rightarrow> bool" where
  "conversion_error e \<longleftrightarrow> is_KeyError e \<or> is_ValueError e \<or> e = TypeError \<or> e = OverflowError"

lemma json_item_raises: "raises_only conversion_error (json_item j k)"
  by (cases "(j, k)" rule: json_item.cases) (auto simp: conversion_error_def split: option.splits)

lemma json_int_raises: "conversions_ok env \<Longrightarrow> raises_only conversion_error (json_int env j)"
  by (cases j) (auto simp: conversion_error_def conversions_ok_def raises_only_def)

lemma read_claim_raises: "conversions_ok env \<Longrightarrow> raises_only conversion_error (read_claim env j)"
  unfolding read_claim_def by (intro raises_intros json_item_raises json_int_raises)

lemma decode_token_raises: "raises_only is_TokenError (decode_token s token)"
proof -
  have "\<exists>m. ascii_encode p = Inr m" if "b64d p = Inr r" for p r
    using that by (fastforce simp: b64d_def ascii_encode_def not_le split: if_splits)
  then show ?thesis
    by (fastforce simp: decode_token_def token_error_def split: option.splits sum.splits)
qed

lemma raises_map_exn: "raises_only P r \<Longrightarrow> (\<And>e. P e \<Longrightarrow> Q (f e)) \<Longrightarrow> raises_only Q (map_exn f r)"
  by (cases r) auto

definition verify_error :: "exn \<Rightarrow> bool" where
  "verify_error e \<longleftrightarrow> is_TokenError e \<or> e = TypeError \<or> e = OverflowError"

lemma verify_error_token [simp]: "verify_error (token_error m)"
  by (simp add: verify_error_def token_error_def)

lemma verify_raises:
  assumes "conversions_ok env" shows "raises_only verify_error (verify env s token a t current)"
proof -
  have "raises_only verify_error (decode_token s token)"
    using decode_token_raises by (rule raises_mono) (simp add: verify_error_def)
  moreover have "raises_only verify_error (map_exn (\<lambda>_. token_error ''malformed payload'') r)"
    for r :: "exn + json"
    by (rule raises_map_exn [where P = "\<lambda>_. True"]) (simp_all add: raises_only_def)
  moreover have "raises_only verify_error (map_exn (\<lambda>e. if is_KeyError e \<or> is_ValueError e \<or> e = TypeError
              then token_error ''missing claim fields'' else e) (read_claim env p))" for p
    by (rule raises_map_exn [OF read_claim_raises [OF assms]])
       (auto simp: conversion_error_def verify_error_def token_error_def)
  moreover have "raises_only verify_error (compare_digest_str x y)" for x y
    by (simp add: compare_digest_str_def verify_error_def)
  ultimately show ?thesis
    unfolding verify_def by (intro raises_intros) (simp_all add: raises_intros)
qed

text \<open>A scope with a character beyond ASCII can never be verified.\<close>

lemma verify_needs_ascii: "\<not> (is_ascii a \<and> is_ascii t) \<Longrightarrow> verify env s token a t current \<noteq> Inr r"
  by (cases r) (auto simp: verify_iff)

subsection \<open>A nonce is accepted at most once\<close>

datatype token_op = OpVerify str str str int | OpProbe str str str int | OpMint str str int int bytes

fun token_mark :: "pyenv \<Rightarrow> token_store \<Rightarrow> token_op \<Rightarrow> str option" where
  "token_mark env s (OpVerify token a t now) =
     (case verify env s token a t now of Inl _ \<Rightarrow> None | Inr (cl, _) \<Rightarrow> Some (c_nonce cl))"
| "token_mark env s _ = None"

fun token_step :: "pyenv \<Rightarrow> token_store \<Rightarrow> token_op \<Rightarrow> token_store" where
  "token_step env s (OpVerify token a t now) =
     (case verify env s token a t now of Inl _ \<Rightarrow> s | Inr (_, s') \<Rightarrow> s')"
| "token_step env s _ = s"

lemma token_mark_Some:
  "token_mark env s opn = Some m \<Longrightarrow>
     m \<notin> used_nonces s \<and> used_nonces (token_step env s opn) = insert m (used_nonces s)"
proof (cases opn)
  case (OpVerify token a t now)
  assume "token_mark env s opn = Some m"
  with OpVerify obtain cl s' where v: "verify env s token a t now = Inr (cl, s')" and m: "m = c_nonce cl"
    by (auto split: sum.splits)
  from v [unfolded verify_iff] v m OpVerify show ?thesis by simp
qed simp_all

lemma token_mark_None: "token_mark env s opn = None \<Longrightarrow> token_step env s opn = s"
  by (cases opn) (auto split: sum.splits)

interpretation nonces: single_use "token_step env" "token_mark env" used_nonces "\<lambda>_. True"
proof unfold_locales
  fix s opn m assume "token_mark env s opn = Some m"
  from token_mark_Some [OF this]
  show "m \<notin> used_nonces s \<and> m \<in> used_nonces (token_step env s opn)" by simp
next
  fix s opn show "used_nonces s \<subseteq> used_nonces (token_step env s opn)"
    by (cases "token_mark env s opn") (auto dest: token_mark_Some token_mark_None)
qed

lemma verify_key: "verify env s token a t now = Inr (cl, s') \<Longrightarrow> token_key s' = token_key s"
  by (drule verify_iff [THEN iffD1]) simp

lemma token_step_key [simp]: "token_key (token_step env s opn) = token_key s"
  by (cases opn) (auto dest: verify_key split: sum.split)

end
