(* ===== verification/Gateway.thy ===== *)
theory Gateway
  imports Policy Mandate AssetStore Injection Tokens
begin

text \<open>
  \<open>src/policy/gateway.py\<close>: the four-state decision function. The gateway's mutable state is
  the token store and the counter of sequence numbers; the asset store is only read. A step
  may raise after it has changed that state, so every part of the evaluation returns the
  state beside the result. The random bytes of a review ticket are an argument. Here
  an evaluation is one function: nothing else runs between the probe of the consent tokens
  and their consumption. \<open>Threads\<close> has the same evaluation as steps between which others run.
\<close>

record gateway_state =
  tokens :: token_store
  counter :: int

type_synonym 'a step = "gateway_state \<Rightarrow> (exn + 'a) \<times> gateway_state"

type_synonym keyring = "(str, bytes) dict"

definition next_sequence :: "gateway_state \<Rightarrow> int \<times> gateway_state" where
  "next_sequence gs = (counter gs, gs\<lparr>counter := counter gs + 1\<rparr>)"

definition draft ::
    "policy_request \<Rightarrow> str \<Rightarrow> policy_state \<Rightarrow> str list \<Rightarrow> str \<Rightarrow> str option \<Rightarrow> datetime \<Rightarrow> int
     \<Rightarrow> policy_decision" where
  "draft req asset state conditions reason ticket now n =
     \<lparr>d_schema_version = schema_version_current, d_request_id = req_id req,
      d_asset_id = asset, d_state = state, d_rule_version = RULE_VERSION,
      d_rule_hash = RULE_HASH, required_conditions = conditions, reviewer_trail = [],
      d_reason = reason, ticket_id = ticket, evaluated_at = now, d_sequence = n\<rparr>"

text \<open>The arguments of \<open>PolicyDecision\<close> are evaluated, and a number taken, before it validates.\<close>

definition decide ::
    "policy_request \<Rightarrow> str \<Rightarrow> policy_state \<Rightarrow> str list \<Rightarrow> str \<Rightarrow> str option \<Rightarrow> datetime
     \<Rightarrow> policy_decision step" where
  "decide req asset state conditions reason ticket now gs =
     (let (n, gs') = next_sequence gs
      in (new_decision (draft req asset state conditions reason ticket now n), gs'))"

definition blocked ::
    "policy_request \<Rightarrow> str \<Rightarrow> datetime \<Rightarrow> str option \<Rightarrow> policy_decision step" where
  "blocked req reason now asset =
     decide req (if truthy asset then the asset else req_asset_id req) BLOCKED [] reason None now"

text \<open>\<open>if c: return stop\<close>, where computing \<open>c\<close> may raise.\<close>

definition guard :: "exn + bool \<Rightarrow> 'a step \<Rightarrow> 'a step \<Rightarrow> 'a step" where
  "guard c stop go gs =
     (case c of Inl e \<Rightarrow> (Inl e, gs) | Inr b \<Rightarrow> if b then stop gs else go gs)"

definition mandate_refused :: "keyring \<Rightarrow> asset \<Rightarrow> exn + bool" where
  "mandate_refused keys a =
     (case dget keys (custodian_id a) of
        None \<Rightarrow> Inr True
      | Some key \<Rightarrow> andthen (verify_mandate a key) (\<lambda>ok. Inr (\<not> ok)))"

text \<open>\<open>needle in s\<close>.\<close>

fun occurs :: "str \<Rightarrow> str \<Rightarrow> bool" where
  "occurs p [] = (p = [])"
| "occurs p (c # s) = (strip_prefix p (c # s) \<noteq> None \<or> occurs p s)"

text \<open>
  The loop that probes: \<open>None\<close> when it breaks at a token that passes, \<open>Some t\<close> when every
  token failed, with the message of the last \<open>TokenError\<close>.
\<close>

fun probe_loop ::
    "pyenv \<Rightarrow> token_store \<Rightarrow> str \<Rightarrow> str \<Rightarrow> int \<Rightarrow> str list \<Rightarrow> str option \<Rightarrow> exn + str option option" where
  "probe_loop env ts a t now [] tamper = Inr (Some tamper)"
| "probe_loop env ts a t now (token # toks) tamper =
     (case verify_without_consuming env ts token a t now of
        Inr _ \<Rightarrow> Inr None
      | Inl (TokenError m) \<Rightarrow> probe_loop env ts a t now toks (Some m)
      | Inl e \<Rightarrow> Inl e)"

fun consume_loop ::
    "pyenv \<Rightarrow> token_store \<Rightarrow> str \<Rightarrow> str \<Rightarrow> int \<Rightarrow> str list \<Rightarrow> (exn + bool) \<times> token_store" where
  "consume_loop env ts a t now [] = (Inr False, ts)"
| "consume_loop env ts a t now (token # toks) =
     (case verify env ts token a t now of
        Inr (_, ts') \<Rightarrow> (Inr True, ts')
      | Inl (TokenError _) \<Rightarrow> consume_loop env ts a t now toks
      | Inl e \<Rightarrow> (Inl e, ts))"

definition refuse_tokens ::
    "policy_request \<Rightarrow> asset \<Rightarrow> datetime \<Rightarrow> str option \<Rightarrow> policy_decision step" where
  "refuse_tokens req a now tamper =
     (let message = (case tamper of Some m \<Rightarrow> m | None \<Rightarrow> lit ''consent validation failed'')
      in if occurs (lit ''replay'') message
         then blocked req (lit ''consent token replay detected'') now (Some (asset_id a))
         else if occurs (lit ''expired'') message
         then blocked req (lit ''consent token expired'') now (Some (asset_id a))
         else blocked req (lit ''consent token invalid: '' @ message) now (Some (asset_id a)))"

definition consent_gate ::
    "pyenv \<Rightarrow> policy_request \<Rightarrow> asset \<Rightarrow> datetime \<Rightarrow> policy_decision step \<Rightarrow> policy_decision step" where
  "consent_gate env req a now go gs =
     (if \<not> requires_consent a then go gs
      else if consent_tokens req = [] then
        decide req (asset_id a) CONDITIONAL [lit ''consent_token:valid'']
          (lit ''awaiting valid consent token'') None now gs
      else
        (let probe_now = timestamp (local_off env) now
         in case probe_loop env (tokens gs) (asset_id a) (tenant_id a) probe_now
                   (consent_tokens req) None of
              Inl e \<Rightarrow> (Inl e, gs)
            | Inr (Some tamper) \<Rightarrow> refuse_tokens req a now tamper gs
            | Inr None \<Rightarrow>
                (case consume_loop env (tokens gs) (asset_id a) (tenant_id a) probe_now
                        (consent_tokens req) of
                   (Inl e, ts) \<Rightarrow> (Inl e, gs\<lparr>tokens := ts\<rparr>)
                 | (Inr False, ts) \<Rightarrow>
                     blocked req (lit ''consent token replay detected'') now (Some (asset_id a))
                       (gs\<lparr>tokens := ts\<rparr>)
                 | (Inr True, ts) \<Rightarrow> go (gs\<lparr>tokens := ts\<rparr>))))"

definition scope_refused :: "policy_request \<Rightarrow> asset \<Rightarrow> str option" where
  "scope_refused req a = find (\<lambda>s. s \<notin> set (granted_scopes a)) (auth_scopes req)"

definition conclude ::
    "pyenv \<Rightarrow> bytes \<Rightarrow> policy_request \<Rightarrow> asset \<Rightarrow> datetime \<Rightarrow> policy_decision step" where
  "conclude env rand req a now =
     (if req_action req \<in> set HIGH_RISK_ACTIONS
      then decide req (asset_id a) HUMAN_REVIEW []
             (lit ''high-risk action '' @ py_repr env (req_action req) @ lit '' requires human review'')
             (Some (lit ''REV-'' @ map ascii_upper (hex rand))) now
      else decide req (asset_id a) ALLOWED [] (lit ''within assessed scope'') None now)"

definition evaluate_inner ::
    "pyenv \<Rightarrow> keyring \<Rightarrow> 's asset_store \<Rightarrow> bytes \<Rightarrow> policy_request \<Rightarrow> datetime \<Rightarrow> policy_decision step" where
  "evaluate_inner env keys store rand req now =
     (case get_asset store (req_asset_id req) of
        Inl (AssetNotFound _) \<Rightarrow> blocked req (lit ''unknown asset_id'') now None
      | Inl e \<Rightarrow> (\<lambda>gs. (Inl e, gs))
      | Inr a \<Rightarrow>
          (let stop = (\<lambda>reason. blocked req reason now (Some (asset_id a)))
           in guard (Inr (withdrawn a)) (stop (lit ''asset rights withdrawn''))
             (guard (mandate_refused keys a) (stop (lit ''mandate signature invalid''))
             (guard (Inr (req_tenant_id req \<noteq> tenant_id a)) (stop (lit ''cross-tenant access denied''))
             (guard (dt_lt now (valid_from a)) (stop (lit ''rights not yet valid''))
             (guard (dt_lt (valid_until a) now) (stop (lit ''rights expired''))
             (guard (Inr (contains_injection env (prompt_text req)))
               (stop (lit ''prompt injection rejected''))
             (case scope_refused req a of
                Some s \<Rightarrow>
                  stop (lit ''privilege escalation: scope '' @ py_repr env s @ lit '' not granted'')
              | None \<Rightarrow>
             (guard (Inr (usage_constraints a \<noteq> [] \<and> req_action req \<notin> set (usage_constraints a)))
               (stop (lit ''action '' @ py_repr env (req_action req) @ lit '' outside usage constraints''))
             (consent_gate env req a now
             (conclude env rand req a now)))))))))))"

definition evaluate ::
    "pyenv \<Rightarrow> keyring \<Rightarrow> 's asset_store \<Rightarrow> bytes \<Rightarrow> policy_request \<Rightarrow> datetime \<Rightarrow> policy_decision step" where
  "evaluate env keys store rand req now gs =
     (case evaluate_inner env keys store rand req now gs of
        (Inr d, gs') \<Rightarrow> (Inr d, gs')
      | (Inl e, gs') \<Rightarrow>
          blocked req (lit ''fail-closed on internal error: '' @ exn_name e) now None gs')"

subsection \<open>The order of the rules\<close>

text \<open>
  A reference interpreter for the rules that need no state: a list of named checks, each of
  which passes (\<open>Inr None\<close>), refuses with a reason, or raises. The evaluation is this
  interpreter on the checks in the order that the rule document publishes.
\<close>

type_synonym check = "exn + str option"

fun run_rules :: "(str \<Rightarrow> 'a step) \<Rightarrow> (str \<times> check) list \<Rightarrow> 'a step \<Rightarrow> 'a step" where
  "run_rules stop [] go gs = go gs"
| "run_rules stop ((n, Inl e) # rs) go gs = (Inl e, gs)"
| "run_rules stop ((n, Inr (Some reason)) # rs) go gs = stop reason gs"
| "run_rules stop ((n, Inr None) # rs) go gs = run_rules stop rs go gs"

definition refuse_if :: "exn + bool \<Rightarrow> str \<Rightarrow> check" where
  "refuse_if c reason = andthen c (\<lambda>b. Inr (if b then Some reason else None))"

definition window_check :: "asset \<Rightarrow> datetime \<Rightarrow> check" where
  "window_check a now =
     andthen (refuse_if (dt_lt now (valid_from a)) (lit ''rights not yet valid''))
       (\<lambda>r. case r of Some m \<Rightarrow> Inr (Some m)
             | None \<Rightarrow> refuse_if (dt_lt (valid_until a) now) (lit ''rights expired''))"

definition checks ::
    "pyenv \<Rightarrow> keyring \<Rightarrow> policy_request \<Rightarrow> datetime \<Rightarrow> asset \<Rightarrow> (str \<times> check) list" where
  "checks env keys req now a =
     [(lit ''withdrawn'', refuse_if (Inr (withdrawn a)) (lit ''asset rights withdrawn'')),
      (lit ''mandate_signature'',
        refuse_if (mandate_refused keys a) (lit ''mandate signature invalid'')),
      (lit ''tenant_isolation'',
        refuse_if (Inr (req_tenant_id req \<noteq> tenant_id a)) (lit ''cross-tenant access denied'')),
      (lit ''validity_window'', window_check a now),
      (lit ''prompt_injection'',
        refuse_if (Inr (contains_injection env (prompt_text req))) (lit ''prompt injection rejected'')),
      (lit ''privilege_escalation'',
        Inr (map_option
               (\<lambda>s. lit ''privilege escalation: scope '' @ py_repr env s @ lit '' not granted'')
               (scope_refused req a))),
      (lit ''action_scope'',
        refuse_if (Inr (usage_constraints a \<noteq> [] \<and> req_action req \<notin> set (usage_constraints a)))
          (lit ''action '' @ py_repr env (req_action req) @ lit '' outside usage constraints''))]"

lemma guard_rules:
  "guard c (stop reason) (run_rules stop rs go) = run_rules stop ((n, refuse_if c reason) # rs) go"
  by (rule ext) (auto simp: guard_def refuse_if_def split: sum.split)

lemma window_rules:
  "guard (dt_lt now (valid_from a)) (stop (lit ''rights not yet valid''))
     (guard (dt_lt (valid_until a) now) (stop (lit ''rights expired'')) (run_rules stop rs go)) =
   run_rules stop ((n, window_check a now) # rs) go"
  by (rule ext) (auto simp: guard_def refuse_if_def window_check_def split: sum.split)

lemma scope_rules:
  "(case scope_refused req a of Some s \<Rightarrow> stop (f s) | None \<Rightarrow> run_rules stop rs go) =
   run_rules stop ((n, Inr (map_option f (scope_refused req a))) # rs) go"
  by (rule ext) (auto split: option.split)

lemma run_rules_Nil: "run_rules stop [] go = go"
  by (rule ext) simp

lemma evaluate_inner_rules:
  assumes "get_asset store (req_asset_id req) = Inr a"
  shows "evaluate_inner env keys store rand req now =
    run_rules (\<lambda>reason. blocked req reason now (Some (asset_id a))) (checks env keys req now a)
      (consent_gate env req a now (conclude env rand req a now))"
  unfolding checks_def
  by (simp only: guard_rules [symmetric] window_rules [symmetric] scope_rules [symmetric]
      run_rules_Nil)
     (simp add: assms evaluate_inner_def Let_def)

lemma checks_order: "map fst (checks env keys req now a) = take 7 (drop 1 rule_order)"
  by (simp add: checks_def rule_order_def)

end
