(* ===== verification/GatewaySpec.thy ===== *)
theory GatewaySpec
  imports Gateway
begin

text \<open>
  What the gateway promises. \<open>outcome\<close> is the abstract specification: the state of the
  decision and the token store afterwards, as a function of the rules, with no messages,
  numbers or errors in it. \<open>evaluate_outcome\<close> shows that the evaluation never raises and
  refines it; the guarantees of the four states follow.
\<close>

subsection \<open>Decisions that are built\<close>

lemma draft_ok:
  "decision_ok (draft req asset st conds reason ticket now n) \<longleftrightarrow>
     length reason \<le> 1024 \<and> 0 \<le> n
     \<and> (st = CONDITIONAL \<longrightarrow> conds \<noteq> []) \<and> (st = HUMAN_REVIEW \<longrightarrow> truthy ticket)
     \<and> (st \<in> {ALLOWED, BLOCKED} \<longrightarrow> \<not> truthy ticket)"
  by (auto simp: decision_ok_def draft_def decision_fields_ok_def len_between_def
      version_must_match_def)

lemma draft_sel [simp]:
  "d_state (draft req asset st conds reason ticket now n) = st"
  "d_reason (draft req asset st conds reason ticket now n) = reason"
  "d_asset_id (draft req asset st conds reason ticket now n) = asset"
  "d_request_id (draft req asset st conds reason ticket now n) = req_id req"
  "d_sequence (draft req asset st conds reason ticket now n) = n"
  "d_rule_hash (draft req asset st conds reason ticket now n) = RULE_HASH"
  "d_rule_version (draft req asset st conds reason ticket now n) = RULE_VERSION"
  "evaluated_at (draft req asset st conds reason ticket now n) = now"
  "ticket_id (draft req asset st conds reason ticket now n) = ticket"
  by (simp_all add: draft_def)

definition bump :: "gateway_state \<Rightarrow> gateway_state" where
  "bump gs = gs\<lparr>counter := counter gs + 1\<rparr>"

lemma bump_simps [simp]: "tokens (bump gs) = tokens gs" "counter (bump gs) = counter gs + 1"
  by (simp_all add: bump_def)

lemma decide_eq:
  "decide req asset st conds reason ticket now gs =
     (let d = draft req asset st conds reason ticket now (counter gs)
      in (if decision_ok d then Inr d else Inl ValidationError, bump gs))"
  using new_decision_iff new_decision_Inl
  by (auto simp: decide_def next_sequence_def bump_def Let_def)

lemma blocked_short:
  assumes "length reason \<le> 1024" "0 \<le> counter gs"
  shows "blocked req reason now asset gs =
    (Inr (draft req (if truthy asset then the asset else req_asset_id req) BLOCKED [] reason None now
        (counter gs)), bump gs)"
  using assms by (simp add: blocked_def decide_eq draft_ok Let_def truthy_def)

lemma blocked_snd [simp]: "snd (blocked req reason now asset gs) = bump gs"
  by (simp add: blocked_def decide_eq Let_def)

lemma blocked_state: "fst (blocked req reason now asset gs) = Inr d \<Longrightarrow> d_state d = BLOCKED"
  by (auto simp: blocked_def decide_eq Let_def split: if_splits)

subsection \<open>What every step keeps\<close>

definition well_formed_step ::
    "policy_request \<Rightarrow> datetime \<Rightarrow> gateway_state \<Rightarrow> (exn + policy_decision) \<times> gateway_state \<Rightarrow> bool" where
  "well_formed_step req now gs out \<longleftrightarrow>
     (case out of (r, gs') \<Rightarrow>
        counter gs \<le> counter gs'
        \<and> used_nonces (tokens gs) \<subseteq> used_nonces (tokens gs')
        \<and> token_key (tokens gs') = token_key (tokens gs)
        \<and> (\<forall>d. r = Inr d \<longrightarrow>
             decision_ok d \<and> counter gs \<le> d_sequence d \<and> d_sequence d < counter gs'
             \<and> d_request_id d = req_id req \<and> evaluated_at d = now
             \<and> d_rule_version d = RULE_VERSION \<and> d_rule_hash d = RULE_HASH))"

lemma wf_decide: "well_formed_step req now gs (decide req asset st conds reason ticket now gs)"
  by (simp add: well_formed_step_def decide_eq Let_def)

lemma wf_blocked: "well_formed_step req now gs (blocked req reason now asset gs)"
  by (simp add: blocked_def wf_decide)

lemma wf_raise: "well_formed_step req now gs (Inl e, gs)"
  by (simp add: well_formed_step_def)

lemma wf_trans:
  assumes "well_formed_step req now gs (r, gs1)" "well_formed_step req now gs1 out"
  shows "well_formed_step req now gs out"
  using assms by (auto simp: well_formed_step_def split: prod.splits)

lemma wf_tokens:
  assumes "used_nonces (tokens gs) \<subseteq> used_nonces ts" "token_key ts = token_key (tokens gs)"
    and "well_formed_step req now (gs\<lparr>tokens := ts\<rparr>) out"
  shows "well_formed_step req now gs out"
  using assms by (auto simp: well_formed_step_def split: prod.splits)

lemma consume_loop_store:
  "consume_loop env ts a t now toks = (r, ts') \<Longrightarrow>
     used_nonces ts \<subseteq> used_nonces ts' \<and> token_key ts' = token_key ts \<and> (r \<noteq> Inr True \<longrightarrow> ts' = ts)"
proof (induction toks)
  case (Cons token toks)
  show ?case
  proof (cases "verify env ts token a t now")
    case (Inl e)
    with Cons show ?thesis by (cases e) auto
  next
    case (Inr p)
    obtain cl ts'' where p: "p = (cl, ts'')" by (cases p)
    with Cons.prems Inr have "ts' = ts''" "r = Inr True" by auto
    with verify_iff [THEN iffD1, OF Inr [unfolded p]] show ?thesis by auto
  qed
qed auto

lemma wf_refuse_tokens: "well_formed_step req now gs (refuse_tokens req a now tamper gs)"
  by (simp add: refuse_tokens_def Let_def wf_blocked)

lemma wf_consent_gate:
  assumes "\<And>gs. well_formed_step req now gs (go gs)"
  shows "well_formed_step req now gs (consent_gate env req a now go gs)"
proof -
  have "well_formed_step req now gs
      (case consume_loop env (tokens gs) x y z toks of
         (Inl e, ts) \<Rightarrow> (Inl e, gs\<lparr>tokens := ts\<rparr>)
       | (Inr False, ts) \<Rightarrow> blocked req m now as (gs\<lparr>tokens := ts\<rparr>)
       | (Inr True, ts) \<Rightarrow> go (gs\<lparr>tokens := ts\<rparr>))" for x y z toks m as
  proof -
    obtain r ts where c: "consume_loop env (tokens gs) x y z toks = (r, ts)" by force
    note s = consume_loop_store [OF this]
    show ?thesis
      using s by (cases r) (auto simp: c wf_raise wf_blocked intro!: wf_tokens [OF _ _ assms] split: bool.split)
  qed
  then show ?thesis
    unfolding consent_gate_def Let_def
    by (auto simp: assms wf_decide wf_raise wf_refuse_tokens split: sum.split option.split)
qed

lemma wf_run_rules:
  assumes "\<And>m gs. well_formed_step req now gs (stop m gs)" "\<And>gs. well_formed_step req now gs (go gs)"
  shows "well_formed_step req now gs (run_rules stop rs go gs)"
proof (induction rs arbitrary: gs)
  case (Cons r rs)
  obtain n c where r: "r = (n, c)" by (cases r)
  consider e where "c = Inl e" | m where "c = Inr (Some m)" | "c = Inr None"
    by (cases c) (auto simp: not_None_eq)
  then show ?case using assms Cons.IH by cases (auto simp: r wf_raise)
qed (use assms in simp)

lemma wf_evaluate_inner:
  "well_formed_step req now gs (evaluate_inner env keys store rand req now gs)"
proof (cases "get_asset store (req_asset_id req)")
  case (Inl e)
  then show ?thesis by (cases e) (simp_all add: evaluate_inner_def wf_blocked wf_raise)
next
  case (Inr a)
  then show ?thesis
    by (simp add: evaluate_inner_rules wf_run_rules wf_blocked wf_consent_gate conclude_def wf_decide)
qed

lemma fail_closed_short: "length (lit ''fail-closed on internal error: '' @ exn_name e) \<le> 1024"
  using exn_name_short [of e] by simp

lemma evaluate_total:
  assumes "0 \<le> counter gs"
  shows "\<exists>d gs'. evaluate env keys store rand req now gs = (Inr d, gs')
    \<and> well_formed_step req now gs (Inr d, gs')"
proof (cases "evaluate_inner env keys store rand req now gs")
  case (Pair r gs1)
  have wf: "well_formed_step req now gs (r, gs1)"
    using wf_evaluate_inner [of req now gs env keys store rand] by (simp add: Pair)
  show ?thesis
  proof (cases r)
    case (Inr d)
    with wf Pair show ?thesis by (simp add: evaluate_def)
  next
    case (Inl e)
    from wf assms have "0 \<le> counter gs1" by (simp add: well_formed_step_def)
    note b = blocked_short [OF fail_closed_short [of e] this, of req now None]
    with Pair Inl have e: "evaluate env keys store rand req now gs =
        blocked req (lit ''fail-closed on internal error: '' @ exn_name e) now None gs1"
      by (simp add: evaluate_def)
    show ?thesis
      unfolding e using wf_trans [OF wf wf_blocked, of _ None] b by metis
  qed
qed

subsection \<open>The abstract specification\<close>

definition all_pass :: "(str \<times> check) list \<Rightarrow> bool" where
  "all_pass cs \<longleftrightarrow> list_all (\<lambda>(n, c). c = Inr None) cs"

definition consent_taken ::
    "pyenv \<Rightarrow> token_store \<Rightarrow> policy_request \<Rightarrow> asset \<Rightarrow> datetime \<Rightarrow> token_store option" where
  "consent_taken env ts req a now =
     (let t = timestamp (local_off env) now
      in case (probe_loop env ts (asset_id a) (tenant_id a) t (consent_tokens req) None,
               consume_loop env ts (asset_id a) (tenant_id a) t (consent_tokens req)) of
           (Inr None, (Inr True, ts')) \<Rightarrow> Some ts'
         | _ \<Rightarrow> None)"

definition granted_state :: "policy_request \<Rightarrow> policy_state" where
  "granted_state req = (if req_action req \<in> set HIGH_RISK_ACTIONS then HUMAN_REVIEW else ALLOWED)"

definition outcome ::
    "pyenv \<Rightarrow> keyring \<Rightarrow> 's asset_store \<Rightarrow> policy_request \<Rightarrow> datetime \<Rightarrow> token_store
     \<Rightarrow> policy_state \<times> token_store" where
  "outcome env keys store req now ts =
     (case get_asset store (req_asset_id req) of
        Inl _ \<Rightarrow> (BLOCKED, ts)
      | Inr a \<Rightarrow>
          if \<not> all_pass (checks env keys req now a) then (BLOCKED, ts)
          else if \<not> requires_consent a then (granted_state req, ts)
          else if consent_tokens req = [] then (CONDITIONAL, ts)
          else case consent_taken env ts req a now of
                 None \<Rightarrow> (BLOCKED, ts)
               | Some ts' \<Rightarrow> (granted_state req, ts'))"

text \<open>A step that ends in a refusal, or in an exception that \<open>evaluate\<close> turns into one.\<close>

definition refuses :: "gateway_state \<Rightarrow> (exn + policy_decision) \<times> gateway_state \<Rightarrow> bool" where
  "refuses gs out \<longleftrightarrow>
     tokens (snd out) = tokens gs \<and> (\<forall>d. fst out = Inr d \<longrightarrow> d_state d = BLOCKED)"

lemma refuses_blocked: "refuses gs (blocked req reason now asset gs)"
  using blocked_state by (auto simp: refuses_def)

lemma run_rules_fail:
  assumes "\<not> all_pass rs" "\<And>m. refuses gs (stop m gs)"
  shows "refuses gs (run_rules stop rs go gs)"
  using assms(1)
proof (induction rs)
  case (Cons r rs)
  obtain n c where r: "r = (n, c)" by (cases r)
  consider e where "c = Inl e" | m where "c = Inr (Some m)" | "c = Inr None"
    by (cases c) (auto simp: not_None_eq)
  then show ?case using assms(2) Cons by cases (auto simp: r all_pass_def refuses_def)
qed (simp add: all_pass_def)

lemma run_rules_pass: "all_pass rs \<Longrightarrow> run_rules stop rs go gs = go gs"
proof (induction rs)
  case (Cons r rs)
  then show ?case by (cases r) (simp add: all_pass_def)
qed simp

lemma conclude_granted:
  assumes "length (req_action req) \<le> 64" "0 \<le> counter gs"
  shows "\<exists>d. conclude env rand req a now gs = (Inr d, bump gs) \<and> d_state d = granted_state req"
proof -
  have "length (py_repr env (req_action req)) \<le> 642"
    using length_py_repr [of env "req_action req"] assms(1) by linarith
  with assms(2) show ?thesis
    by (auto simp: conclude_def decide_eq draft_ok Let_def granted_state_def truthy_def)
qed

lemma consent_gate_outcome:
  assumes "requires_consent a" "consent_tokens req \<noteq> []"
  shows "case consent_taken env (tokens gs) req a now of
      None \<Rightarrow> refuses gs (consent_gate env req a now go gs)
    | Some ts' \<Rightarrow> consent_gate env req a now go gs = go (gs\<lparr>tokens := ts'\<rparr>)"
proof -
  define t where "t = timestamp (local_off env) now"
  define p where "p = probe_loop env (tokens gs) (asset_id a) (tenant_id a) t (consent_tokens req) None"
  obtain r ts where c: "consume_loop env (tokens gs) (asset_id a) (tenant_id a) t (consent_tokens req) = (r, ts)"
    by force
  note s = consume_loop_store [OF this]
  have gate: "consent_gate env req a now go gs =
      (case p of Inl e \<Rightarrow> (Inl e, gs)
       | Inr (Some tamper) \<Rightarrow> refuse_tokens req a now tamper gs
       | Inr None \<Rightarrow> (case r of Inl e \<Rightarrow> (Inl e, gs\<lparr>tokens := ts\<rparr>)
            | Inr False \<Rightarrow> blocked req (lit ''consent token replay detected'') now (Some (asset_id a))
                       (gs\<lparr>tokens := ts\<rparr>)
            | Inr True \<Rightarrow> go (gs\<lparr>tokens := ts\<rparr>)))"
    using assms
    by (simp add: consent_gate_def Let_def c flip: t_def p_def split: sum.split option.split bool.split)
  have taken: "consent_taken env (tokens gs) req a now = (if p = Inr None \<and> r = Inr True then Some ts else None)"
    by (auto simp: consent_taken_def Let_def c simp flip: t_def p_def split: sum.split option.split bool.split)
  show ?thesis
  proof (cases "p = Inr None \<and> r = Inr True")
    case True
    then show ?thesis by (simp add: gate taken)
  next
    case False
    then show ?thesis
      using s unfolding taken
      by (auto simp: gate refuse_tokens_def Let_def refuses_blocked refuses_def dest!: blocked_state
          split: sum.split option.split bool.split)
  qed
qed

lemma refuses_evaluate:
  assumes "refuses gs (evaluate_inner env keys store rand req now gs)"
  shows "refuses gs (evaluate env keys store rand req now gs)"
  using assms blocked_state
  by (auto simp: evaluate_def refuses_def split: prod.splits sum.splits)

lemma inner_outcome:
  assumes "0 \<le> counter gs" "request_ok req"
    and out: "outcome env keys store req now (tokens gs) = (st, ts)"
  shows "refuses gs (evaluate_inner env keys store rand req now gs) \<and> st = BLOCKED \<and> ts = tokens gs
    \<or> (\<exists>d gs'. evaluate_inner env keys store rand req now gs = (Inr d, gs') \<and> d_state d = st
          \<and> tokens gs' = ts)"
proof (cases "get_asset store (req_asset_id req)")
  case (Inl e)
  with out show ?thesis
    by (cases e) (auto simp: outcome_def evaluate_inner_def refuses_blocked,
        auto simp: refuses_def)
next
  case (Inr a)
  define stop where "stop = (\<lambda>reason. blocked req reason now (Some (asset_id a)))"
  define go where "go = conclude env rand req a now"
  have inner: "evaluate_inner env keys store rand req now gs =
      run_rules stop (checks env keys req now a) (consent_gate env req a now go) gs"
    by (simp add: evaluate_inner_rules [OF Inr] stop_def go_def)
  have len: "length (req_action req) \<le> 64"
    using assms(2) by (simp add: request_ok_def len_between_def)
  show ?thesis
  proof (cases "all_pass (checks env keys req now a)")
    case False
    then have "refuses gs (evaluate_inner env keys store rand req now gs)"
      unfolding inner by (rule run_rules_fail) (simp add: stop_def refuses_blocked)
    with False out Inr show ?thesis by (auto simp: outcome_def)
  next
    case True
    note inner = inner [unfolded run_rules_pass [OF True]]
    consider (free) "\<not> requires_consent a" | (await) "requires_consent a" "consent_tokens req = []"
      | (tokens) "requires_consent a" "consent_tokens req \<noteq> []" by blast
    then show ?thesis
    proof cases
      case free
      with conclude_granted [OF len assms(1), of env rand a now] out True Inr show ?thesis
        unfolding inner go_def by (auto simp: outcome_def consent_gate_def)
    next
      case await
      with out True Inr assms(1) show ?thesis
        unfolding inner by (auto simp: outcome_def consent_gate_def decide_eq draft_ok Let_def truthy_def)
    next
      case tokens
      show ?thesis
      proof (cases "consent_taken env (tokens gs) req a now")
        case None
        with consent_gate_outcome [OF tokens, of gs env now go] tokens out True Inr show ?thesis
          unfolding inner by (auto simp: outcome_def)
      next
        case (Some ts')
        have "0 \<le> counter (gs\<lparr>tokens := ts'\<rparr>)" using assms(1) by simp
        from conclude_granted [OF len this, of env rand a now]
          consent_gate_outcome [OF tokens, of gs env now go] tokens out True Inr Some
        show ?thesis unfolding inner go_def by (auto simp: outcome_def)
      qed
    qed
  qed
qed

theorem evaluate_outcome:
  assumes "0 \<le> counter gs" "request_ok req"
  shows "\<exists>d gs'. evaluate env keys store rand req now gs = (Inr d, gs')
    \<and> (d_state d, tokens gs') = outcome env keys store req now (tokens gs)"
proof -
  obtain st ts where out: "outcome env keys store req now (tokens gs) = (st, ts)" by force
  from inner_outcome [OF assms out, of rand] show ?thesis
  proof (elim disjE conjE exE)
    assume "refuses gs (evaluate_inner env keys store rand req now gs)" "st = BLOCKED" "ts = tokens gs"
    moreover from this obtain d gs' where "evaluate env keys store rand req now gs = (Inr d, gs')"
      using evaluate_total [OF assms(1)] by blast
    ultimately show ?thesis
      using refuses_evaluate [of gs env keys store rand req now] by (auto simp: refuses_def out)
  next
    fix d gs' assume "evaluate_inner env keys store rand req now gs = (Inr d, gs')"
      "d_state d = st" "tokens gs' = ts"
    then show ?thesis by (simp add: evaluate_def out)
  qed
qed

text \<open>
  Fail-closed: where the evaluation raises, the decision is \<open>Blocked\<close> and names the exception; and
  any other state means that the asset was found and every rule was evaluated and passed.
\<close>

lemma evaluate_fail_closed:
  assumes "0 \<le> counter gs" "evaluate env keys store rand req now gs = (Inr d, gs')"
    and "evaluate_inner env keys store rand req now gs = (Inl e, gs1)"
  shows "d_state d = BLOCKED \<and> d_reason d = lit ''fail-closed on internal error: '' @ exn_name e \<and> tokens gs' = tokens gs1"
proof -
  have "0 \<le> counter gs1"
    using wf_evaluate_inner [of req now gs env keys store rand] assms(1,3) by (simp add: well_formed_step_def)
  from blocked_short [OF fail_closed_short [of e] this, of req now None] assms(2,3) show ?thesis
    by (auto simp: evaluate_def)
qed

lemma evaluate_passed:
  assumes "evaluate env keys store rand req now gs = (Inr d, gs')" "d_state d \<noteq> BLOCKED"
  shows "\<exists>a. get_asset store (req_asset_id req) = Inr a \<and> all_pass (checks env keys req now a)"
proof (rule ccontr)
  assume none: "\<not> ?thesis"
  have "refuses gs (evaluate_inner env keys store rand req now gs)"
  proof (cases "get_asset store (req_asset_id req)")
    case (Inl e)
    then show ?thesis
      by (cases e) (auto simp: evaluate_inner_def refuses_blocked, auto simp: refuses_def)
  next
    case (Inr a)
    with none have "\<not> all_pass (checks env keys req now a)" by blast
    then show ?thesis unfolding evaluate_inner_rules [OF Inr] by (rule run_rules_fail) (rule refuses_blocked)
  qed
  from refuses_evaluate [OF this] assms show False by (simp add: refuses_def)
qed

lemma evaluate_outcomeD:
  assumes "0 \<le> counter gs" "request_ok req" "evaluate env keys store rand req now gs = (Inr d, gs')"
  shows "outcome env keys store req now (tokens gs) = (d_state d, tokens gs')"
  using evaluate_outcome [OF assms(1,2), of env keys store rand now] assms(3) by auto

subsection \<open>What the states guarantee\<close>

text \<open>The rules of the asset, read as one condition.\<close>

definition within_rights ::
    "pyenv \<Rightarrow> keyring \<Rightarrow> policy_request \<Rightarrow> datetime \<Rightarrow> asset \<Rightarrow> bool" where
  "within_rights env keys req now a \<longleftrightarrow>
     \<not> withdrawn a
     \<and> (\<exists>key. dget keys (custodian_id a) = Some key \<and> verify_mandate a key = Inr True)
     \<and> req_tenant_id req = tenant_id a
     \<and> comparable now (valid_from a) \<and> comparable (valid_until a) now
     \<and> instant (valid_from a) \<le> instant now \<and> instant now \<le> instant (valid_until a)
     \<and> \<not> contains_injection env (prompt_text req)
     \<and> set (auth_scopes req) \<subseteq> set (granted_scopes a)
     \<and> (usage_constraints a = [] \<or> req_action req \<in> set (usage_constraints a))"

lemma refuse_if_pass: "refuse_if c m = Inr None \<longleftrightarrow> c = Inr False"
  by (cases c) (auto simp: refuse_if_def)

lemma all_pass_iff: "all_pass (checks env keys req now a) \<longleftrightarrow> within_rights env keys req now a"
proof -
  have "mandate_refused keys a = Inr False \<longleftrightarrow>
      (\<exists>key. dget keys (custodian_id a) = Some key \<and> verify_mandate a key = Inr True)"
    by (auto simp: mandate_refused_def andthen_eq_Inr split: option.split)
  moreover have "window_check a now = Inr None \<longleftrightarrow>
      comparable now (valid_from a) \<and> comparable (valid_until a) now
      \<and> instant (valid_from a) \<le> instant now \<and> instant now \<le> instant (valid_until a)"
    by (auto simp: window_check_def refuse_if_def dt_lt_def)
  moreover have "scope_refused req a = None \<longleftrightarrow> set (auth_scopes req) \<subseteq> set (granted_scopes a)"
    by (auto simp: scope_refused_def find_None_iff)
  ultimately show ?thesis
    by (auto simp: all_pass_def checks_def refuse_if_pass within_rights_def)
qed

text \<open>A token that passes every check, and the store after its nonce is spent.\<close>

definition spends ::
    "pyenv \<Rightarrow> token_store \<Rightarrow> str \<Rightarrow> asset \<Rightarrow> datetime \<Rightarrow> claim \<Rightarrow> token_store \<Rightarrow> bool" where
  "spends env ts token a now cl ts' \<longleftrightarrow>
     signed_claim env ts token = Inr cl \<and> c_asset_id cl = asset_id a \<and> c_tenant_id cl = tenant_id a
     \<and> timestamp (local_off env) now < c_expires_at cl
     \<and> c_issued_at cl \<le> timestamp (local_off env) now + 60
     \<and> c_nonce cl \<notin> used_nonces ts
     \<and> ts' = ts\<lparr>used_nonces := insert (c_nonce cl) (used_nonces ts)\<rparr>"

lemma consume_loop_True:
  "consume_loop env ts a t now toks = (Inr True, ts') \<Longrightarrow>
     \<exists>token\<in>set toks. \<exists>cl. verify env ts token a t now = Inr (cl, ts')"
proof (induction toks)
  case (Cons token toks)
  show ?case
  proof (cases "verify env ts token a t now")
    case (Inl e)
    with Cons show ?thesis by (cases e) auto
  next
    case (Inr p)
    with Cons.prems show ?thesis by (cases p) auto
  qed
qed simp

lemma consent_taken_spends:
  assumes "consent_taken env ts req a now = Some ts'"
  shows "\<exists>token\<in>set (consent_tokens req). \<exists>cl. spends env ts token a now cl ts'"
proof -
  have "consume_loop env ts (asset_id a) (tenant_id a) (timestamp (local_off env) now)
      (consent_tokens req) = (Inr True, ts')"
    using assms by (auto simp: consent_taken_def Let_def split: sum.splits option.splits bool.splits prod.splits)
  from consume_loop_True [OF this] show ?thesis
    unfolding verify_iff spends_def by blast
qed

lemma outcome_cases:
  "outcome env keys store req now ts = (st, ts') \<Longrightarrow> st \<noteq> BLOCKED \<Longrightarrow>
     \<exists>a. get_asset store (req_asset_id req) = Inr a \<and> within_rights env keys req now a
       \<and> (if st = CONDITIONAL then requires_consent a \<and> consent_tokens req = [] \<and> ts' = ts
          else st = granted_state req
            \<and> (if requires_consent a then consent_taken env ts req a now = Some ts' else ts' = ts))"
  by (auto simp: outcome_def all_pass_iff granted_state_def split: sum.splits if_splits option.splits)

lemma outcome_blocked: "outcome env keys store req now ts = (BLOCKED, ts') \<Longrightarrow> ts' = ts"
  by (auto simp: outcome_def granted_state_def split: sum.splits if_splits option.splits)

end
