(* ===== verification/Trace.thy ===== *)
theory Trace
  imports Json Sha256
begin

text \<open>
  \<open>schemas/trace.py\<close> and \<open>src/records/trace.py\<close>: the hash-chained execution trace. The
  recorder's \<open>append\<close> and \<open>verify_chain\<close> hold its lock, so each is one step. The two clock
  readings of an append are arguments. The details of an event are a JSON object by value;
  a caller that later changes an object nested in it is outside the model.
\<close>

definition canonical_json :: "json \<Rightarrow> str" where
  "canonical_json payload = dumps payload"

definition chain_hash :: "str \<Rightarrow> json \<Rightarrow> exn + str" where
  "chain_hash prev payload =
     andthen (ascii_encode prev) (\<lambda>p.
     andthen (utf8_encode (canonical_json payload)) (\<lambda>b. Inr (sha256_hex (p @ b))))"

definition GENESIS_HASH :: str where
  "GENESIS_HASH = replicate 64 48"

record trace_event =
  t_trace_id :: str
  t_request_id :: str
  t_sequence :: int
  wall_time :: datetime
  monotonic_ns :: int
  event :: str
  actor :: str
  detail :: "(str, json) dict"
  prev_hash :: str
  event_hash :: str

definition event_body ::
    "str \<Rightarrow> str \<Rightarrow> int \<Rightarrow> datetime \<Rightarrow> int \<Rightarrow> str \<Rightarrow> str \<Rightarrow> (str, json) dict \<Rightarrow> json" where
  "event_body tid rid sequence wall ns ev act det =
     JObj [(lit ''trace_id'', JStr tid), (lit ''request_id'', JStr rid),
           (lit ''sequence'', JInt sequence), (lit ''wall_time'', JStr (isoformat wall)),
           (lit ''monotonic_ns'', JInt ns), (lit ''event'', JStr ev),
           (lit ''actor'', JStr act), (lit ''detail'', JObj det)]"

definition body_of :: "trace_event \<Rightarrow> json" where
  "body_of r = event_body (t_trace_id r) (t_request_id r) (t_sequence r) (wall_time r)
     (monotonic_ns r) (event r) (actor r) (detail r)"

definition new_trace_event :: "trace_event \<Rightarrow> exn + trace_event" where
  "new_trace_event r =
     (if 0 \<le> t_sequence r \<and> 0 \<le> monotonic_ns r \<and> 1 \<le> length (event r) \<and> length (event r) \<le> 64
         \<and> 1 \<le> length (actor r) \<and> length (actor r) \<le> 64
         \<and> length (prev_hash r) = 64 \<and> length (event_hash r) = 64
      then Inr r else Inl ValidationError)"

definition verify_link :: "trace_event \<Rightarrow> str \<Rightarrow> exn + bool" where
  "verify_link r expected_prev =
     (if prev_hash r \<noteq> expected_prev then Inr False
      else andthen (chain_hash (prev_hash r) (body_of r)) (\<lambda>h. Inr (h = event_hash r)))"

subsection \<open>The recorder\<close>

record recorder =
  rec_trace_id :: str
  events :: "trace_event list"

definition new_recorder :: "str \<Rightarrow> recorder" where
  "new_recorder tid = \<lparr>rec_trace_id = tid, events = []\<rparr>"

definition head_hash :: "trace_event list \<Rightarrow> str" where
  "head_hash es = (if es = [] then GENESIS_HASH else event_hash (last es))"

definition append_event ::
    "recorder \<Rightarrow> str \<Rightarrow> str \<Rightarrow> str \<Rightarrow> (str, json) dict option \<Rightarrow> datetime \<Rightarrow> int
     \<Rightarrow> exn + (trace_event \<times> recorder)" where
  "append_event rc rid ev act det wall ns =
     (let sequence = int (length (events rc));
          prev = head_hash (events rc);
          d = (case det of None \<Rightarrow> [] | Some kvs \<Rightarrow> kvs);
          body = event_body (rec_trace_id rc) rid sequence wall ns ev act d
      in andthen (chain_hash prev body) (\<lambda>h.
         andthen (new_trace_event
             \<lparr>t_trace_id = rec_trace_id rc, t_request_id = rid, t_sequence = sequence,
              wall_time = wall, monotonic_ns = ns, event = ev, actor = act, detail = d,
              prev_hash = prev, event_hash = h\<rparr>) (\<lambda>r.
           Inr (r, rc\<lparr>events := events rc @ [r]\<rparr>))))"

fun verify_loop :: "str \<Rightarrow> int \<Rightarrow> trace_event list \<Rightarrow> exn + bool" where
  "verify_loop expected last_mono [] = Inr True"
| "verify_loop expected last_mono (r # rs) =
     andthen (verify_link r expected) (\<lambda>ok.
       if \<not> ok then Inr False
       else if monotonic_ns r < last_mono then Inr False
       else verify_loop (event_hash r) (monotonic_ns r) rs)"

definition verify_chain :: "recorder \<Rightarrow> exn + bool" where
  "verify_chain rc = verify_loop GENESIS_HASH (-1) (events rc)"

subsection \<open>Hash chains\<close>

text \<open>
  The contract behind a hash chain: a hash of a predecessor and a body determines both, up
  to a sameness of bodies, unless the two hashed messages clash. Two chains of one length
  with one head then agree body by body, or some two messages at one position clash.
\<close>

locale hash_chain =
  fixes H :: "'h \<Rightarrow> 'b \<Rightarrow> 'h" and good :: "'h \<Rightarrow> bool" and ok :: "'b \<Rightarrow> bool"
    and same :: "'b \<Rightarrow> 'b \<Rightarrow> bool" and clash :: "'h \<Rightarrow> 'b \<Rightarrow> 'h \<Rightarrow> 'b \<Rightarrow> bool"
  assumes good_H: "good p \<Longrightarrow> ok b \<Longrightarrow> good (H p b)"
    and binding: "good p \<Longrightarrow> good q \<Longrightarrow> ok b \<Longrightarrow> ok c \<Longrightarrow> H p b = H q c \<Longrightarrow>
      (p = q \<and> same b c) \<or> clash p b q c"
begin

lemma good_chain: "good p \<Longrightarrow> \<forall>b\<in>set bs. ok b \<Longrightarrow> good (foldl H p bs)"
  by (induction bs arbitrary: p) (auto simp: good_H)

lemma same_head:
  assumes "length bs = length cs" "good p" "\<forall>b\<in>set bs. ok b" "\<forall>c\<in>set cs. ok c"
    and "foldl H p bs = foldl H p cs"
  shows "list_all2 same bs cs \<or>
    (\<exists>i<length bs. clash (foldl H p (take i bs)) (bs ! i) (foldl H p (take i cs)) (cs ! i))"
    (is "_ \<or> ?clash bs cs")
  using assms
proof (induction bs arbitrary: cs rule: rev_induct)
  case (snoc b bs)
  from snoc.prems(1) obtain cs' c where cs: "cs = cs' @ [c]" "length bs = length cs'"
    by (cases cs rule: rev_cases) auto
  let ?p = "foldl H p bs" and ?q = "foldl H p cs'"
  have ok: "\<forall>b\<in>set bs. ok b" "\<forall>c\<in>set cs'. ok c" "ok b" "ok c"
    using snoc.prems(3,4) cs by auto
  have "good ?p" "good ?q" using good_chain [OF snoc.prems(2)] ok by simp_all
  moreover have "H ?p b = H ?q c" using snoc.prems(5) cs by simp
  ultimately consider "?p = ?q" "same b c" | "clash ?p b ?q c" using binding ok by blast
  then show ?case
  proof cases
    case 1
    from snoc.IH [OF cs(2) snoc.prems(2) ok(1,2) 1(1)] show ?thesis
    proof
      assume "list_all2 same bs cs'"
      with 1(2) show ?thesis by (simp add: cs list_all2_appendI)
    next
      assume "?clash bs cs'"
      then obtain i where i: "i < length bs"
        "clash (foldl H p (take i bs)) (bs ! i) (foldl H p (take i cs')) (cs' ! i)" by blast
      with cs(2) show ?thesis
        by (intro disjI2 exI [of _ i]) (simp add: cs(1) nth_append)
    qed
  next
    case 2
    with cs(2) show ?thesis
      by (intro disjI2 exI [of _ "length bs"]) (simp add: cs(1) nth_append)
  qed
qed simp

end

text \<open>The program's chain: SHA-256 over the predecessor's digest and the canonical body.\<close>

definition link_message :: "str \<Rightarrow> json \<Rightarrow> bytes" where
  "link_message p b = map of_nat p @ map of_nat (canonical_json b)"

definition link_hash :: "str \<Rightarrow> json \<Rightarrow> str" where
  "link_hash p b = sha256_hex (link_message p b)"

definition same_json :: "json \<Rightarrow> json \<Rightarrow> bool" where
  "same_json a b \<longleftrightarrow> jsort a = jsort b"

definition link_clash :: "str \<Rightarrow> json \<Rightarrow> str \<Rightarrow> json \<Rightarrow> bool" where
  "link_clash p b q c \<longleftrightarrow> sha_collision (link_message p b) (link_message q c)"

lemma digest_text_genesis: "digest_text GENESIS_HASH"
  by (simp add: digest_text_def GENESIS_HASH_def)

lemma chain_hash_eq:
  "digest_text p \<Longrightarrow> json_ok b \<Longrightarrow> chain_hash p b = Inr (link_hash p b)"
  using dumps_ascii [of b]
  by (simp add: chain_hash_def digest_text_def ascii_encode_ascii utf8_encode_ascii
      canonical_json_def link_hash_def link_message_def)

interpretation trace_chain: hash_chain link_hash digest_text json_ok same_json link_clash
proof unfold_locales
  fix p b show "digest_text (link_hash p b)" by (simp add: link_hash_def digest_text_hex)
next
  fix p q b c
  assume p: "digest_text p" "digest_text q" and ok: "json_ok b" "json_ok c"
    and eq: "link_hash p b = link_hash q c"
  from sha256_hex_eqD [OF eq [unfolded link_hash_def]]
  show "p = q \<and> same_json b c \<or> link_clash p b q c"
  proof
    assume "link_message p b = link_message q c"
    then have "(map of_nat p :: bytes) = map of_nat q"
      "(map of_nat (dumps b) :: bytes) = map of_nat (dumps c)"
      using p by (auto simp: link_message_def canonical_json_def digest_text_def)
    then have "p = q" "dumps b = dumps c"
      using p dumps_ascii [OF ok(1)] dumps_ascii [OF ok(2)]
      by (auto simp: digest_text_def dest!: map_of_nat_inject_ascii [rotated 2])
    then show ?thesis using dumps_inject [OF ok] by (simp add: same_json_def)
  qed (simp add: link_clash_def)
qed

subsection \<open>Appending keeps the chain\<close>

definition head_from :: "str \<Rightarrow> trace_event list \<Rightarrow> str" where
  "head_from e es = (if es = [] then e else event_hash (last es))"

definition clock_from :: "int \<Rightarrow> trace_event list \<Rightarrow> int" where
  "clock_from l es = (if es = [] then l else monotonic_ns (last es))"

lemma verify_loop_append:
  "verify_loop e l (xs @ ys) =
     andthen (verify_loop e l xs)
       (\<lambda>b. if b then verify_loop (head_from e xs) (clock_from l xs) ys else Inr False)"
proof (induction xs arbitrary: e l)
  case (Cons r xs)
  have "head_from e (r # xs) = head_from (event_hash r) xs"
    "clock_from l (r # xs) = clock_from (monotonic_ns r) xs"
    by (simp_all add: head_from_def clock_from_def)
  note eqs = this
  show ?case
    by (cases "verify_link r e") (simp_all only: eqs, simp_all add: Cons.IH)
qed (simp add: head_from_def clock_from_def)

lemma append_event_Inr:
  assumes "append_event rc rid ev act det wall ns = Inr (r, rc')"
  shows "rc' = rc\<lparr>events := events rc @ [r]\<rparr>" and "monotonic_ns r = ns" and "0 \<le> ns"
    and "verify_link r (head_hash (events rc)) = Inr True"
    and "t_sequence r = int (length (events rc))" and "t_trace_id r = rec_trace_id rc"
    and "event r = ev" "t_request_id r = rid" "actor r = act"
  using assms
  by (auto simp: append_event_def Let_def andthen_eq_Inr new_trace_event_def verify_link_def
      body_of_def split: if_splits)

text \<open>An append succeeds on what the recorder is given: a canonical body within the limits.\<close>

lemma chain_hash_digest: "chain_hash p j = Inr h \<Longrightarrow> digest_text h"
  by (auto simp: chain_hash_def andthen_eq_Inr digest_text_hex)

lemma append_defined:
  assumes "digest_text (head_hash (events rc))"
    and "json_ok (event_body (rec_trace_id rc) rid (int (length (events rc))) wall ns ev act
           (case det of None \<Rightarrow> [] | Some kvs \<Rightarrow> kvs))"
    and "0 \<le> ns" "ev \<noteq> []" "length ev \<le> 64" "act \<noteq> []" "length act \<le> 64"
  shows "\<exists>r. append_event rc rid ev act det wall ns = Inr (r, rc\<lparr>events := events rc @ [r]\<rparr>)
    \<and> digest_text (event_hash r)
    \<and> body_of r = event_body (rec_trace_id rc) rid (int (length (events rc))) wall ns ev act
        (case det of None \<Rightarrow> [] | Some kvs \<Rightarrow> kvs)"
proof -
  let ?b = "event_body (rec_trace_id rc) rid (int (length (events rc))) wall ns ev act
        (case det of None \<Rightarrow> [] | Some kvs \<Rightarrow> kvs)"
  obtain h where h: "chain_hash (head_hash (events rc)) ?b = Inr h"
    using chain_hash_eq [OF assms(1,2)] by blast
  have "digest_text h" by (rule chain_hash_digest [OF h])
  with assms h show ?thesis
    by (auto simp: append_event_def Let_def new_trace_event_def digest_text_def body_of_def Suc_le_eq)
qed

lemma append_keeps_chain:
  assumes "verify_chain rc = Inr True" "append_event rc rid ev act det wall ns = Inr (r, rc')"
    and "clock_from (-1) (events rc) \<le> ns"
  shows "verify_chain rc' = Inr True"
proof -
  note r = append_event_Inr [OF assms(2)]
  have "head_from GENESIS_HASH (events rc) = head_hash (events rc)"
    by (simp add: head_from_def head_hash_def)
  with r assms(1,3) show ?thesis by (simp add: verify_chain_def verify_loop_append)
qed

text \<open>A history of appends; one that raises leaves the recorder as it was.\<close>

record trace_op =
  op_request :: str
  op_event :: str
  op_actor :: str
  op_detail :: "(str, json) dict option"
  op_wall :: datetime
  op_clock :: int

definition trace_step :: "recorder \<Rightarrow> trace_op \<Rightarrow> recorder" where
  "trace_step rc p =
     (case append_event rc (op_request p) (op_event p) (op_actor p) (op_detail p) (op_wall p) (op_clock p) of
        Inl _ \<Rightarrow> rc | Inr (_, rc') \<Rightarrow> rc')"

lemma trace_step_cases:
  "trace_step rc p = rc \<or>
     (\<exists>r. append_event rc (op_request p) (op_event p) (op_actor p) (op_detail p) (op_wall p)
            (op_clock p) = Inr (r, trace_step rc p))"
proof (cases "append_event rc (op_request p) (op_event p) (op_actor p) (op_detail p) (op_wall p) (op_clock p)")
  case (Inr x)
  then show ?thesis using append_event_Inr(1) by (cases x) (auto simp: trace_step_def)
qed (simp add: trace_step_def)

lemma trace_run_verifies:
  assumes "verify_chain rc = Inr True" "sorted (map op_clock ps)"
    and "\<forall>p\<in>set ps. clock_from (-1) (events rc) \<le> op_clock p"
  shows "verify_chain (foldl trace_step rc ps) = Inr True"
  using assms
proof (induction ps arbitrary: rc)
  case (Cons p ps)
  have v: "verify_chain (trace_step rc p) = Inr True"
    using trace_step_cases [of rc p] append_keeps_chain [OF Cons.prems(1)] Cons.prems(1,3) by auto
  have "clock_from (-1) (events (trace_step rc p)) \<le> op_clock q" if "q \<in> set ps" for q
  proof (cases "trace_step rc p = rc")
    case False
    then obtain r where "append_event rc (op_request p) (op_event p) (op_actor p) (op_detail p)
        (op_wall p) (op_clock p) = Inr (r, trace_step rc p)"
      using trace_step_cases [of rc p] by blast
    from append_event_Inr(1,2) [OF this] have "clock_from (-1) (events (trace_step rc p)) = op_clock p"
      by (simp add: clock_from_def)
    with Cons.prems(2) that show ?thesis by simp
  qed (use Cons.prems(3) that in simp)
  with Cons.IH [OF v] Cons.prems(2) show ?case by simp
qed simp

text \<open>Events are numbered by their position.\<close>

lemma trace_run_numbered:
  assumes "\<forall>i<length (events rc). t_sequence (events rc ! i) = int i"
  shows "\<forall>i<length (events (foldl trace_step rc ps)).
    t_sequence (events (foldl trace_step rc ps) ! i) = int i"
  using assms
proof (induction ps arbitrary: rc)
  case (Cons p ps)
  have "\<forall>i<length (events (trace_step rc p)). t_sequence (events (trace_step rc p) ! i) = int i"
  proof (cases "trace_step rc p = rc")
    case False
    then obtain r where "append_event rc (op_request p) (op_event p) (op_actor p) (op_detail p)
        (op_wall p) (op_clock p) = Inr (r, trace_step rc p)"
      using trace_step_cases [of rc p] by blast
    from append_event_Inr(1,5) [OF this] Cons.prems show ?thesis
      by (auto simp: nth_append less_Suc_eq)
  qed (use Cons.prems in simp)
  with Cons.IH show ?case by simp
qed simp

subsection \<open>What verification detects\<close>

lemma verified_prefix: "verify_loop e l (xs @ ys) = Inr True \<Longrightarrow> verify_loop e l xs = Inr True"
  by (auto simp: verify_loop_append andthen_eq_Inr split: if_splits)

lemma verified_head:
  assumes "verify_loop e l es = Inr True" "digest_text e" "\<forall>r\<in>set es. json_ok (body_of r)"
  shows "head_from e es = foldl link_hash e (map body_of es)"
  using assms
proof (induction es arbitrary: e l)
  case (Cons r es)
  have h: "event_hash r = link_hash e (body_of r)"
    using Cons.prems by (auto simp: verify_link_def andthen_eq_Inr chain_hash_eq split: if_splits)
  moreover have "digest_text (link_hash e (body_of r))"
    by (simp add: link_hash_def digest_text_hex)
  moreover have "verify_loop (event_hash r) (monotonic_ns r) es = Inr True"
    using Cons.prems(1) by (auto simp: andthen_eq_Inr split: if_splits)
  ultimately have "head_from (event_hash r) es = foldl link_hash (event_hash r) (map body_of es)"
    using Cons.IH Cons.prems(3) by simp
  moreover have "head_from e (r # es) = head_from (event_hash r) es"
    by (simp add: head_from_def)
  ultimately show ?case by (simp add: h)
qed (simp add: head_from_def)

text \<open>What the chain says of an event: every field that a body holds.\<close>

definition same_event :: "trace_event \<Rightarrow> trace_event \<Rightarrow> bool" where
  "same_event r q \<longleftrightarrow>
     t_trace_id r = t_trace_id q \<and> t_request_id r = t_request_id q \<and> t_sequence r = t_sequence q
     \<and> isoformat (wall_time r) = isoformat (wall_time q) \<and> monotonic_ns r = monotonic_ns q
     \<and> event r = event q \<and> actor r = actor q \<and> same_json (JObj (detail r)) (JObj (detail q))"

lemma same_body_event:
  assumes "same_json (body_of r) (body_of q)" shows "same_event r q"
proof -
  define kvs :: "trace_event \<Rightarrow> (str \<times> json) list" where "kvs r = [(lit ''trace_id'', JStr (t_trace_id r)), (lit ''request_id'', JStr (t_request_id r)),
           (lit ''sequence'', JInt (t_sequence r)), (lit ''wall_time'', JStr (isoformat (wall_time r))),
           (lit ''monotonic_ns'', JInt (monotonic_ns r)), (lit ''event'', JStr (event r)),
           (lit ''actor'', JStr (actor r)), (lit ''detail'', JObj (detail r))]" for r
  have wf: "wf_dict (kvs r)" for r by (simp add: kvs_def wf_dict_def)
  obtain xs ys where xs: "jsort (JObj (kvs r)) = JObj xs" and ys: "jsort (JObj (kvs q)) = JObj ys"
    by simp
  with assms have "xs = ys" by (simp add: same_json_def body_of_def event_body_def kvs_def)
  then have "map_option jsort (dget (kvs r) k) = map_option jsort (dget (kvs q) k)" for k
    using dget_jsort [OF wf xs] dget_jsort [OF wf ys] by simp
  note * = this [of "lit ''trace_id''"] this [of "lit ''request_id''"] this [of "lit ''sequence''"]
    this [of "lit ''wall_time''"] this [of "lit ''monotonic_ns''"] this [of "lit ''event''"]
    this [of "lit ''actor''"] this [of "lit ''detail''"]
  from * show ?thesis by (simp add: kvs_def same_event_def same_json_def)
qed

lemma verified_prev:
  assumes "verify_loop e l es = Inr True" "digest_text e" "\<forall>r\<in>set es. json_ok (body_of r)"
    and "i < length es"
  shows "prev_hash (es ! i) = foldl link_hash e (map body_of (take i es))"
proof -
  have "es = take i es @ es ! i # drop (Suc i) es" using assms(4) by (simp add: id_take_nth_drop)
  with assms(1) have "verify_loop e l (take i es @ es ! i # drop (Suc i) es) = Inr True" by simp
  then have pre: "verify_loop e l (take i es) = Inr True"
    and "prev_hash (es ! i) = head_from e (take i es)"
    by (auto simp: verify_loop_append andthen_eq_Inr verify_link_def split: if_splits)
  moreover have "\<forall>r\<in>set (take i es). json_ok (body_of r)"
    using assms(3) by (auto dest: in_set_takeD)
  ultimately show ?thesis using verified_head [OF pre assms(2)] by simp
qed

text \<open>The two messages that the chain hashes for an event of either history collide.\<close>

definition event_clash :: "trace_event \<Rightarrow> trace_event \<Rightarrow> bool" where
  "event_clash r q \<longleftrightarrow> link_clash (prev_hash r) (body_of r) (prev_hash q) (body_of q)"

lemma tamper_evident:
  assumes "verify_chain a = Inr True" "verify_chain b = Inr True"
    and "\<forall>r\<in>set (events a) \<union> set (events b). json_ok (body_of r)"
    and "length (events a) = length (events b)" "head_hash (events a) = head_hash (events b)"
  shows "list_all2 same_event (events a) (events b)
    \<or> (\<exists>i<length (events a). event_clash (events a ! i) (events b ! i))"
proof -
  note va = assms(1) [unfolded verify_chain_def] and vb = assms(2) [unfolded verify_chain_def]
  have ok: "\<forall>r\<in>set (events a). json_ok (body_of r)" "\<forall>r\<in>set (events b). json_ok (body_of r)"
    using assms(3) by auto
  have "foldl link_hash GENESIS_HASH (map body_of (events a)) =
      foldl link_hash GENESIS_HASH (map body_of (events b))"
    using verified_head [OF va digest_text_genesis ok(1)] verified_head [OF vb digest_text_genesis ok(2)]
      assms(5)
    by (simp add: head_from_def head_hash_def split: if_splits)
  from trace_chain.same_head [OF _ digest_text_genesis _ _ this] assms(4) ok
  have "list_all2 same_json (map body_of (events a)) (map body_of (events b)) \<or>
    (\<exists>i<length (events a). link_clash (foldl link_hash GENESIS_HASH (map body_of (take i (events a))))
        (body_of (events a ! i)) (foldl link_hash GENESIS_HASH (map body_of (take i (events b))))
        (body_of (events b ! i)))"
    by (auto simp: take_map)
  then show ?thesis
  proof
    assume "list_all2 same_json (map body_of (events a)) (map body_of (events b))"
    then have "list_all2 same_event (events a) (events b)"
      using same_body_event by (auto simp: list_all2_conv_all_nth)
    then show ?thesis ..
  next
    assume "\<exists>i<length (events a). link_clash (foldl link_hash GENESIS_HASH (map body_of (take i (events a))))
        (body_of (events a ! i)) (foldl link_hash GENESIS_HASH (map body_of (take i (events b))))
        (body_of (events b ! i))"
    then obtain i where i: "i < length (events a)"
      "link_clash (foldl link_hash GENESIS_HASH (map body_of (take i (events a))))
        (body_of (events a ! i)) (foldl link_hash GENESIS_HASH (map body_of (take i (events b))))
        (body_of (events b ! i))" by blast
    with verified_prev [OF va digest_text_genesis ok(1) i(1)]
      verified_prev [OF vb digest_text_genesis ok(2), of i] assms(4)
    have "event_clash (events a ! i) (events b ! i)" by (simp add: event_clash_def)
    with i(1) show ?thesis by blast
  qed
qed

end
