(* ===== verification/Engine.thy ===== *)
theory Engine
  imports GatewaySpec Trace
begin

text \<open>
  \<open>src/workflows/engine.py\<close>: the workflow engine. A \<open>WorkflowRun\<close> is a mutable object that
  the run table and the holding queues share, so the model has a store of run objects
  (\<open>objects\<close>, a reference is an index) and the three dictionaries hold references. The
  engine owns the gateway and the recorder. A call that raises keeps what it has done, so
  every operation returns the state beside its result. Fresh run ids and the clock readings
  are arguments; here each operation is one step, in \<open>EngineThreads\<close> one for each lock.
\<close>

datatype run_state = PENDING | EXECUTING | HELD_CONDITIONAL | HELD_REVIEW | COMPLETED | REJECTED

fun run_state_value :: "run_state \<Rightarrow> str" where
  "run_state_value PENDING = lit ''Pending''"
| "run_state_value EXECUTING = lit ''Executing''"
| "run_state_value HELD_CONDITIONAL = lit ''HeldConditional''"
| "run_state_value HELD_REVIEW = lit ''HeldReview''"
| "run_state_value COMPLETED = lit ''Completed''"
| "run_state_value REJECTED = lit ''Rejected''"

type_synonym attrs = "(str, json) dict"

record workflow_run =
  run_id :: str
  w_request_id :: str
  w_state :: run_state
  decision :: "policy_decision option"
  tool_calls :: "(str \<times> attrs) list"
  outputs :: "attrs list"

type_synonym ref = nat

record engine =
  gateway :: gateway_state
  trace :: recorder
  objects :: "workflow_run list"
  runs :: "(str, ref) dict"
  conditional_queue :: "(str, ref) dict"
  review_queue :: "(str, ref) dict"

definition new_engine :: "gateway_state \<Rightarrow> str \<Rightarrow> engine" where
  "new_engine gs trace_id =
     \<lparr>gateway = gs, trace = new_recorder trace_id, objects = [], runs = [],
      conditional_queue = [], review_queue = []\<rparr>"

text \<open>Wall clock and monotonic clock at one append of the recorder.\<close>

type_synonym clock = "datetime \<times> int"

definition emit :: "engine \<Rightarrow> clock \<Rightarrow> str \<Rightarrow> str \<Rightarrow> str \<Rightarrow> attrs \<Rightarrow> (exn + unit) \<times> engine" where
  "emit e t rid ev act det =
     (case append_event (trace e) rid ev act (Some det) (fst t) (snd t) of
        Inl x \<Rightarrow> (Inl x, e)
      | Inr (_, rc) \<Rightarrow> (Inr (), e\<lparr>trace := rc\<rparr>))"

text \<open>\<open>f"policy.{decision.state.value.lower().replace(' ', '_')}"\<close>.\<close>

definition state_event :: "policy_state \<Rightarrow> str" where
  "state_event st =
     lit ''policy.'' @ map (\<lambda>c. if c = 32 then 95 else c) (map ascii_lower (state_value st))"

definition set_run :: "engine \<Rightarrow> ref \<Rightarrow> (workflow_run \<Rightarrow> workflow_run) \<Rightarrow> engine" where
  "set_run e r f = e\<lparr>objects := (objects e)[r := f (objects e ! r)]\<rparr>"

definition set_state :: "engine \<Rightarrow> ref \<Rightarrow> run_state \<Rightarrow> engine" where
  "set_state e r st = set_run e r (\<lambda>w. w\<lparr>w_state := st\<rparr>)"

text \<open>The block of \<open>submit\<close> under the lock: enter the run, then file it by its decision.\<close>

definition file_run :: "engine \<Rightarrow> ref \<Rightarrow> str \<Rightarrow> policy_request \<Rightarrow> policy_decision \<Rightarrow> (exn + ref) \<times> engine" where
  "file_run e r rid req d =
     (let e1 = e\<lparr>runs := dput (runs e) rid r\<rparr>
      in case d_state d of
           ALLOWED \<Rightarrow> (Inr r, set_state e1 r EXECUTING)
         | CONDITIONAL \<Rightarrow>
             (let e2 = set_state e1 r HELD_CONDITIONAL
              in (Inr r, e2\<lparr>conditional_queue := dput (conditional_queue e2) (req_id req) r\<rparr>))
         | HUMAN_REVIEW \<Rightarrow>
             (let e2 = set_state e1 r HELD_REVIEW
              in case ticket_id d of
                   None \<Rightarrow> (Inl AssertionError, e2)
                 | Some t \<Rightarrow> (Inr r, e2\<lparr>review_queue := dput (review_queue e2) t r\<rparr>))
         | BLOCKED \<Rightarrow> (Inr r, set_state e1 r REJECTED))"

text \<open>What one submission draws: the ticket's bytes, the run id, the time and two clock readings.\<close>

record draw =
  dr_ticket :: bytes
  dr_run_id :: str
  dr_now :: datetime
  dr_clock1 :: clock
  dr_clock2 :: clock

definition submit ::
    "pyenv \<Rightarrow> keyring \<Rightarrow> 's asset_store \<Rightarrow> draw \<Rightarrow> policy_request \<Rightarrow> engine \<Rightarrow> (exn + ref) \<times> engine" where
  "submit env keys store dr req e =
     (case evaluate env keys store (dr_ticket dr) req (dr_now dr) (gateway e) of
        (Inl x, gs) \<Rightarrow> (Inl x, e\<lparr>gateway := gs\<rparr>)
      | (Inr d, gs) \<Rightarrow>
          (let r = length (objects e);
               w = \<lparr>run_id = dr_run_id dr, w_request_id = req_id req, w_state = PENDING,
                    decision = Some d, tool_calls = [], outputs = []\<rparr>;
               e1 = e\<lparr>gateway := gs, objects := objects e @ [w]\<rparr>
           in case emit e1 (dr_clock1 dr) (req_id req) (lit ''request.received'') (lit ''workflow'')
                     [(lit ''action'', JStr (req_action req))] of
                (Inl x, e2) \<Rightarrow> (Inl x, e2)
              | (Inr _, e2) \<Rightarrow>
                  (case emit e2 (dr_clock2 dr) (req_id req) (state_event (d_state d)) (lit ''gateway'')
                          [(lit ''reason'', JStr (d_reason d)), (lit ''sequence'', JInt (d_sequence d))] of
                     (Inl x, e3) \<Rightarrow> (Inl x, e3)
                   | (Inr _, e3) \<Rightarrow> file_run e3 r (dr_run_id dr) req d)))"

definition record_tool_call ::
    "engine \<Rightarrow> clock \<Rightarrow> str \<Rightarrow> str \<Rightarrow> attrs \<Rightarrow> (exn + str \<times> attrs) \<times> engine" where
  "record_tool_call e t rid tool args =
     (case dget (runs e) rid of
        None \<Rightarrow> (Inl (KeyError rid), e)
      | Some r \<Rightarrow>
          (let w = objects e ! r
           in if w_state w \<noteq> EXECUTING
              then (Inl (PermissionError (lit ''run '' @ rid @ lit '' is not executing (state=''
                      @ run_state_value (w_state w) @ lit '')'')), e)
              else if (case decision w of None \<Rightarrow> True | Some d \<Rightarrow> d_state d \<noteq> ALLOWED)
              then (Inl (PermissionError (lit ''tool execution requires an Allowed decision'')), e)
              else (let call = (tool, args);
                        e1 = set_run e r (\<lambda>w. w\<lparr>tool_calls := tool_calls w @ [call]\<rparr>)
                    in case emit e1 t (w_request_id w) (lit ''tool.called'') (lit ''agent'')
                              [(lit ''tool'', JStr tool)] of
                         (Inl x, e2) \<Rightarrow> (Inl x, e2)
                       | (Inr _, e2) \<Rightarrow> (Inr call, e2))))"

definition record_output :: "engine \<Rightarrow> clock \<Rightarrow> str \<Rightarrow> attrs \<Rightarrow> (exn + unit) \<times> engine" where
  "record_output e t rid output =
     (case dget (runs e) rid of
        None \<Rightarrow> (Inl (KeyError rid), e)
      | Some r \<Rightarrow>
          (let w = objects e ! r
           in if w_state w \<noteq> EXECUTING
              then (Inl (PermissionError (lit ''only executing runs accept outputs'')), e)
              else emit (set_run e r (\<lambda>w. w\<lparr>outputs := outputs w @ [output], w_state := COMPLETED\<rparr>))
                     t (w_request_id w) (lit ''run.completed'') (lit ''workflow'') []))"

definition release_conditional ::
    "pyenv \<Rightarrow> keyring \<Rightarrow> 's asset_store \<Rightarrow> draw \<Rightarrow> clock \<Rightarrow> policy_request \<Rightarrow> engine \<Rightarrow> (exn + ref) \<times> engine" where
  "release_conditional env keys store dr t req e =
     (if dget (conditional_queue e) (req_id req) = None
      then (Inl (KeyError (lit ''no conditional hold for '' @ py_repr env (req_id req))), e)
      else case submit env keys store dr req e of
             (Inl x, e1) \<Rightarrow> (Inl x, e1)
           | (Inr fresh, e1) \<Rightarrow>
               (let e2 = (case decision (objects e1 ! fresh) of
                            Some d \<Rightarrow> if d_state d = ALLOWED
                              then e1\<lparr>conditional_queue := ddel (conditional_queue e1) (req_id req)\<rparr>
                              else e1
                          | None \<Rightarrow> e1)
                in case emit e2 t (req_id req) (lit ''hold.released'') (lit ''workflow'') [] of
                     (Inl x, e3) \<Rightarrow> (Inl x, e3)
                   | (Inr _, e3) \<Rightarrow> (Inr fresh, e3)))"

definition pending_conditional :: "engine \<Rightarrow> nat" where
  "pending_conditional e = length (conditional_queue e)"

definition pending_review :: "engine \<Rightarrow> nat" where
  "pending_review e = length (review_queue e)"

end
