(* ===== verification/EngineProofs.thy ===== *)
theory EngineProofs
  imports Engine
begin

text \<open>
  What the engine promises: a run's state agrees with the decision it was given, only runs
  whose decision is Allowed ever record a tool call or an output, the queues hold the runs
  that wait, and the trace of everything the engine does verifies.
\<close>

subsection \<open>The invariant\<close>

definition idle :: "workflow_run \<Rightarrow> bool" where
  "idle w \<longleftrightarrow> tool_calls w = [] \<and> outputs w = []"

definition state_fits :: "workflow_run \<Rightarrow> policy_decision \<Rightarrow> bool" where
  "state_fits w d =
     (case w_state w of
        PENDING \<Rightarrow> idle w
      | EXECUTING \<Rightarrow> d_state d = ALLOWED \<and> outputs w = []
      | COMPLETED \<Rightarrow> d_state d = ALLOWED \<and> length (outputs w) = 1
      | HELD_CONDITIONAL \<Rightarrow> d_state d = CONDITIONAL \<and> idle w
      | HELD_REVIEW \<Rightarrow> d_state d = HUMAN_REVIEW \<and> idle w
      | REJECTED \<Rightarrow> d_state d = BLOCKED \<and> idle w)"

definition run_ok :: "workflow_run \<Rightarrow> bool" where
  "run_ok w \<longleftrightarrow>
     (\<exists>d. decision w = Some d \<and> d_request_id d = w_request_id w \<and> decision_ok d \<and> state_fits w d)"

definition refs_ok :: "engine \<Rightarrow> (str, ref) dict \<Rightarrow> (str \<Rightarrow> workflow_run \<Rightarrow> bool) \<Rightarrow> bool" where
  "refs_ok e d P \<longleftrightarrow> (\<forall>k r. dget d k = Some r \<longrightarrow> r < length (objects e) \<and> P k (objects e ! r))"

definition filed_run :: "str \<Rightarrow> workflow_run \<Rightarrow> bool" where
  "filed_run k w \<longleftrightarrow> run_id w = k \<and> w_state w \<noteq> PENDING"

definition awaits_condition :: "str \<Rightarrow> workflow_run \<Rightarrow> bool" where
  "awaits_condition k w \<longleftrightarrow> w_request_id w = k \<and> w_state w = HELD_CONDITIONAL"

definition awaits_review :: "str \<Rightarrow> workflow_run \<Rightarrow> bool" where
  "awaits_review k w \<longleftrightarrow>
     w_state w = HELD_REVIEW \<and> (\<exists>d. decision w = Some d \<and> ticket_id d = Some k)"

definition engine_inv :: "engine \<Rightarrow> bool" where
  "engine_inv e \<longleftrightarrow>
     0 \<le> counter (gateway e) \<and> (\<forall>w\<in>set (objects e). run_ok w)
     \<and> refs_ok e (runs e) filed_run
     \<and> refs_ok e (conditional_queue e) awaits_condition
     \<and> refs_ok e (review_queue e) awaits_review"

lemma engine_inv_new: "0 \<le> counter gs \<Longrightarrow> engine_inv (new_engine gs tid)"
  by (simp add: engine_inv_def new_engine_def refs_ok_def)

lemma engine_inv_trace [simp]: "engine_inv (e\<lparr>trace := x\<rparr>) = engine_inv e"
  by (simp add: engine_inv_def refs_ok_def)

lemma emit_engine: "snd (emit e t rid ev act det) = e\<lparr>trace := trace (snd (emit e t rid ev act det))\<rparr>"
  by (auto simp: emit_def split: sum.split)

lemma emit_cases:
  obtains rc where "snd (emit e t rid ev act det) = e\<lparr>trace := rc\<rparr>"
  using emit_engine by blast

lemma engine_inv_emit: "engine_inv (snd (emit e t rid ev act det)) = engine_inv e"
  by (rule emit_cases [of e t rid ev act det]) simp

subsection \<open>Operations keep it\<close>

text \<open>Changing one object that the dictionaries do not constrain, or not in this respect.\<close>

lemma refs_ok_set_run:
  assumes "refs_ok e d P" "\<And>k. P k (objects e ! r) \<Longrightarrow> P k (f (objects e ! r))"
  shows "refs_ok (set_run e r f) d P"
  unfolding refs_ok_def
proof (intro allI impI conjI)
  fix k q assume "dget d k = Some q"
  with assms(1) have q: "q < length (objects e)" "P k (objects e ! q)" by (simp_all add: refs_ok_def)
  then show "q < length (objects (set_run e r f))" by (simp add: set_run_def)
  show "P k (objects (set_run e r f) ! q)"
    using q assms(2) by (cases "q = r") (simp_all add: set_run_def)
qed

lemma refs_ok_alloc:
  "refs_ok e d P \<Longrightarrow> refs_ok (e\<lparr>gateway := gs, objects := objects e @ [w]\<rparr>) d P"
  unfolding refs_ok_def by (auto simp: nth_append intro: less_SucI)

lemma refs_ok_put:
  "refs_ok e d P \<Longrightarrow> r < length (objects e) \<Longrightarrow> P k (objects e ! r) \<Longrightarrow> refs_ok e (dput d k r) P"
  by (auto simp: refs_ok_def dget_dput split: if_splits)

lemma refs_ok_del: "refs_ok e d P \<Longrightarrow> refs_ok e (ddel d k) P"
  by (auto simp: refs_ok_def dget_ddel split: if_splits)

lemma refs_ok_objects: "objects e' = objects e \<Longrightarrow> refs_ok e' d P = refs_ok e d P"
  by (simp add: refs_ok_def)

lemma set_run_sel [simp]:
  "gateway (set_run e r f) = gateway e" "trace (set_run e r f) = trace e"
  "runs (set_run e r f) = runs e" "conditional_queue (set_run e r f) = conditional_queue e"
  "review_queue (set_run e r f) = review_queue e"
  "length (objects (set_run e r f)) = length (objects e)"
  "r < length (objects e) \<Longrightarrow> objects (set_run e r f) ! r = f (objects e ! r)"
  by (simp_all add: set_run_def)

lemma engine_inv_set_run:
  assumes "engine_inv e" "r < length (objects e)" "run_ok (f (objects e ! r))"
    and "\<And>k. filed_run k (objects e ! r) \<Longrightarrow> filed_run k (f (objects e ! r))"
    and "\<And>k. \<not> awaits_condition k (objects e ! r)" "\<And>k. \<not> awaits_review k (objects e ! r)"
  shows "engine_inv (set_run e r f)"
proof -
  have "set (objects (set_run e r f)) \<subseteq> insert (f (objects e ! r)) (set (objects e))"
    by (simp add: set_run_def set_update_subset_insert)
  moreover have "\<forall>w\<in>set (objects e). run_ok w" using assms(1) by (simp add: engine_inv_def)
  ultimately have "\<forall>w\<in>set (objects (set_run e r f)). run_ok w" using assms(3) by blast
  moreover have "refs_ok (set_run e r f) (runs e) filed_run"
    "refs_ok (set_run e r f) (conditional_queue e) awaits_condition"
    "refs_ok (set_run e r f) (review_queue e) awaits_review"
    using assms by (auto simp: engine_inv_def intro: refs_ok_set_run)
  ultimately show ?thesis using assms(1) by (simp add: engine_inv_def)
qed

lemma engine_inv_alloc:
  assumes "engine_inv e" "run_ok w" "0 \<le> counter gs"
  shows "engine_inv (e\<lparr>gateway := gs, objects := objects e @ [w]\<rparr>)"
  using assms by (auto simp: engine_inv_def intro: refs_ok_alloc)

lemma file_run_inv:
  assumes inv: "engine_inv e" and r: "r < length (objects e)"
    and w: "w_state (objects e ! r) = PENDING" "decision (objects e ! r) = Some d"
      "run_id (objects e ! r) = rid" "w_request_id (objects e ! r) = req_id req"
  shows "engine_inv (snd (file_run e r rid req d))"
proof -
  let ?e1 = "e\<lparr>runs := dput (runs e) rid r\<rparr>"
  have ok: "run_ok (objects e ! r)" using inv r by (simp add: engine_inv_def)
  then have idle: "idle (objects e ! r)" and dok: "d_request_id d = req_id req" "decision_ok d"
    using w by (auto simp: run_ok_def state_fits_def)
  have filed: "engine_inv (set_state ?e1 r st)"
    if "state_fits ((objects e ! r)\<lparr>w_state := st\<rparr>) d" "st \<noteq> PENDING" for st
  proof -
    have "engine_inv (set_run e r (\<lambda>w. w\<lparr>w_state := st\<rparr>))"
      using inv r
    proof (rule engine_inv_set_run)
      show "run_ok ((objects e ! r)\<lparr>w_state := st\<rparr>)" using that w dok by (auto simp: run_ok_def)
    qed (use w in \<open>auto simp: filed_run_def awaits_condition_def awaits_review_def\<close>)
    moreover have "set_state ?e1 r st = (set_run e r (\<lambda>w. w\<lparr>w_state := st\<rparr>))\<lparr>runs := dput (runs e) rid r\<rparr>"
      by (simp add: set_state_def set_run_def)
    moreover have "filed_run rid ((objects e ! r)\<lparr>w_state := st\<rparr>)"
      using that w by (simp add: filed_run_def)
    ultimately show ?thesis using r by (auto simp: engine_inv_def intro: refs_ok_put
        simp: refs_ok_objects [of "(set_run e r (\<lambda>w. w\<lparr>w_state := st\<rparr>))\<lparr>runs := dput (runs e) rid r\<rparr>"
            "set_run e r (\<lambda>w. w\<lparr>w_state := st\<rparr>)"])
  qed
  have queue: "engine_inv (e'\<lparr>conditional_queue := dput (conditional_queue e') k r\<rparr>)"
    if "engine_inv e'" "r < length (objects e')" "awaits_condition k (objects e' ! r)" for e' k
    using that by (auto simp: engine_inv_def refs_ok_objects [of "e'\<lparr>conditional_queue := x\<rparr>" e' for x]
        intro: refs_ok_put)
  have review: "engine_inv (e'\<lparr>review_queue := dput (review_queue e') k r\<rparr>)"
    if "engine_inv e'" "r < length (objects e')" "awaits_review k (objects e' ! r)" for e' k
    using that by (auto simp: engine_inv_def refs_ok_objects [of "e'\<lparr>review_queue := x\<rparr>" e' for x]
        intro: refs_ok_put)
  have obj: "objects (set_state ?e1 r st) ! r = (objects e ! r)\<lparr>w_state := st\<rparr>"
    "length (objects (set_state ?e1 r st)) = length (objects e)" for st
    using r by (simp_all add: set_state_def set_run_def)
  have idle': "idle ((objects e ! r)\<lparr>w_state := st\<rparr>)" "outputs (objects e ! r) = []" for st
    using idle by (simp_all add: idle_def)
  show ?thesis
  proof (cases "d_state d")
    case ALLOWED
    with filed [of EXECUTING] idle' show ?thesis by (simp add: file_run_def Let_def state_fits_def)
  next
    case CONDITIONAL
    then have "engine_inv (set_state ?e1 r HELD_CONDITIONAL)"
      using filed idle' by (simp add: state_fits_def)
    from queue [OF this, of "req_id req"] CONDITIONAL r w show ?thesis
      by (simp add: file_run_def Let_def awaits_condition_def obj)
  next
    case BLOCKED
    with filed [of REJECTED] idle' show ?thesis by (simp add: file_run_def Let_def state_fits_def)
  next
    case HUMAN_REVIEW
    then have inv': "engine_inv (set_state ?e1 r HELD_REVIEW)"
      using filed idle' by (simp add: state_fits_def)
    show ?thesis
    proof (cases "ticket_id d")
      case None
      with inv' HUMAN_REVIEW show ?thesis by (simp add: file_run_def Let_def)
    next
      case (Some t)
      with review [OF inv', of t] HUMAN_REVIEW r w show ?thesis
        by (simp add: file_run_def Let_def awaits_review_def obj)
    qed
  qed
qed

lemma file_run_fst: "fst (file_run e r rid req d) = Inr q \<Longrightarrow> q = r"
  by (auto simp: file_run_def Let_def split: policy_state.splits option.splits)

lemma emit_sel [simp]:
  "gateway (snd (emit e t rid ev act det)) = gateway e"
  "objects (snd (emit e t rid ev act det)) = objects e"
  "runs (snd (emit e t rid ev act det)) = runs e"
  "conditional_queue (snd (emit e t rid ev act det)) = conditional_queue e"
  "review_queue (snd (emit e t rid ev act det)) = review_queue e"
  by (rule emit_cases [of e t rid ev act det]; simp)+

text \<open>A submission, laid out: the decision, the new object, and where the call ends.\<close>

lemma submit_cases:
  assumes "engine_inv e"
  obtains d gs w e3 where
    "evaluate env keys store (dr_ticket dr) req (dr_now dr) (gateway e) = (Inr d, gs)"
    and "well_formed_step req (dr_now dr) (gateway e) (Inr d, gs)"
    and "w = \<lparr>run_id = dr_run_id dr, w_request_id = req_id req, w_state = PENDING,
              decision = Some d, tool_calls = [], outputs = []\<rparr>"
    and "e3 = e\<lparr>gateway := gs, objects := objects e @ [w], trace := trace e3\<rparr>"
    and "(\<exists>x. submit env keys store dr req e = (Inl x, e3))
      \<or> submit env keys store dr req e = file_run e3 (length (objects e)) (dr_run_id dr) req d"
proof -
  have "0 \<le> counter (gateway e)" using assms by (simp add: engine_inv_def)
  from evaluate_total [OF this] obtain d gs where ev:
    "evaluate env keys store (dr_ticket dr) req (dr_now dr) (gateway e) = (Inr d, gs)"
    "well_formed_step req (dr_now dr) (gateway e) (Inr d, gs)" by metis
  define w where "w = \<lparr>run_id = dr_run_id dr, w_request_id = req_id req, w_state = PENDING,
              decision = Some d, tool_calls = [], outputs = []\<rparr>"
  define e1 where "e1 = e\<lparr>gateway := gs, objects := objects e @ [w]\<rparr>"
  obtain x2 e2 where e2: "emit e1 (dr_clock1 dr) (req_id req) (lit ''request.received'') (lit ''workflow'')
      [(lit ''action'', JStr (req_action req))] = (x2, e2)" by force
  obtain x3 e3 where e3: "emit e2 (dr_clock2 dr) (req_id req) (state_event (d_state d)) (lit ''gateway'')
      [(lit ''reason'', JStr (d_reason d)), (lit ''sequence'', JInt (d_sequence d))] = (x3, e3)" by force
  have t2: "e2 = e1\<lparr>trace := trace e2\<rparr>" using emit_engine [of e1] e2 by (metis snd_conv)
  have t3: "e3 = e2\<lparr>trace := trace e3\<rparr>" using emit_engine [of e2] e3 by (metis snd_conv)
  have sub: "submit env keys store dr req e = (case x2 of Inl x \<Rightarrow> (Inl x, e2)
      | Inr _ \<Rightarrow> (case x3 of Inl x \<Rightarrow> (Inl x, e3)
          | Inr _ \<Rightarrow> file_run e3 (length (objects e)) (dr_run_id dr) req d))"
    by (simp add: submit_def ev Let_def e2 e3 split: sum.split flip: w_def e1_def)
  show thesis
  proof (cases x2)
    case (Inl x)
    show thesis
      by (rule that [OF ev w_def, of e2]) (use t2 sub Inl in \<open>auto simp: e1_def\<close>)
  next
    case (Inr u)
    have "e2\<lparr>trace := x\<rparr> = e1\<lparr>trace := x\<rparr>" for x by (subst t2) simp
    with t3 have "e3 = e1\<lparr>trace := trace e3\<rparr>" by metis
    then show thesis
      by (intro that [OF ev w_def, of e3]) (use sub Inr in \<open>auto simp: e1_def split: sum.split\<close>)
  qed
qed

lemma engine_core_inv:
  "e' = e\<lparr>trace := trace e'\<rparr> \<Longrightarrow> engine_inv e' = engine_inv e"
  by (metis engine_inv_trace)

lemma submit_inv:
  assumes "engine_inv e" shows "engine_inv (snd (submit env keys store dr req e))"
proof -
  from submit_cases [OF assms, of env keys store dr req] obtain d gs w e3 where
    ev: "well_formed_step req (dr_now dr) (gateway e) (Inr d, gs)"
    and w: "w = \<lparr>run_id = dr_run_id dr, w_request_id = req_id req, w_state = PENDING,
              decision = Some d, tool_calls = [], outputs = []\<rparr>"
    and e3: "e3 = e\<lparr>gateway := gs, objects := objects e @ [w], trace := trace e3\<rparr>"
    and out: "(\<exists>x. submit env keys store dr req e = (Inl x, e3))
      \<or> submit env keys store dr req e = file_run e3 (length (objects e)) (dr_run_id dr) req d" .
  have "0 \<le> counter gs" "run_ok w"
    using ev assms by (auto simp: well_formed_step_def engine_inv_def w run_ok_def state_fits_def idle_def)
  from engine_inv_alloc [OF assms this(2,1)] have inv: "engine_inv e3"
    by (subst e3) simp
  moreover have obj: "objects e3 = objects e @ [w]" by (subst e3) simp
  ultimately have "engine_inv (snd (file_run e3 (length (objects e)) (dr_run_id dr) req d))"
    by (intro file_run_inv) (simp_all add: w)
  with out inv show ?thesis by auto
qed

lemma executing_ok:
  assumes "engine_inv e" "dget (runs e) rid = Some r" "w_state (objects e ! r) = EXECUTING"
  obtains d where "r < length (objects e)" "decision (objects e ! r) = Some d" "d_state d = ALLOWED"
    "outputs (objects e ! r) = []" "d_request_id d = w_request_id (objects e ! r)" "decision_ok d"
proof -
  from assms have r: "r < length (objects e)" by (auto simp: engine_inv_def refs_ok_def)
  with assms(1) have "run_ok (objects e ! r)" by (simp add: engine_inv_def)
  with assms(3) r that show thesis by (auto simp: run_ok_def state_fits_def)
qed

lemma snd_keep: "snd (case p of (Inl x, e) \<Rightarrow> (Inl x, e) | (Inr _, e) \<Rightarrow> (Inr y, e)) = snd p"
  by (cases p; cases "fst p"; simp)

lemma tool_snd:
  "dget (runs e) rid = Some r \<Longrightarrow> snd (record_tool_call e t rid tool args) =
     (if w_state (objects e ! r) \<noteq> EXECUTING
         \<or> (case decision (objects e ! r) of None \<Rightarrow> True | Some d \<Rightarrow> d_state d \<noteq> ALLOWED) then e
      else snd (emit (set_run e r (\<lambda>w. w\<lparr>tool_calls := tool_calls w @ [(tool, args)]\<rparr>)) t
             (w_request_id (objects e ! r)) (lit ''tool.called'') (lit ''agent'')
             [(lit ''tool'', JStr tool)]))"
  by (simp add: record_tool_call_def Let_def snd_keep)

text \<open>The two changes of an executing run.\<close>

lemma executing_inv:
  assumes "engine_inv e" "dget (runs e) rid = Some r" "w_state (objects e ! r) = EXECUTING"
  shows "engine_inv (set_run e r (\<lambda>w. w\<lparr>tool_calls := tool_calls w @ [call]\<rparr>))"
    and "engine_inv (set_run e r (\<lambda>w. w\<lparr>outputs := outputs w @ [out], w_state := COMPLETED\<rparr>))"
proof -
  from executing_ok [OF assms] obtain d where d: "r < length (objects e)" "decision (objects e ! r) = Some d"
    "d_state d = ALLOWED" "outputs (objects e ! r) = []" "d_request_id d = w_request_id (objects e ! r)" "decision_ok d"
    by metis
  with assms show "engine_inv (set_run e r (\<lambda>w. w\<lparr>tool_calls := tool_calls w @ [call]\<rparr>))"
    by (intro engine_inv_set_run)
       (auto simp: run_ok_def state_fits_def filed_run_def awaits_condition_def awaits_review_def)
  from d assms show "engine_inv (set_run e r (\<lambda>w. w\<lparr>outputs := outputs w @ [out], w_state := COMPLETED\<rparr>))"
    by (intro engine_inv_set_run)
       (auto simp: run_ok_def state_fits_def filed_run_def awaits_condition_def awaits_review_def)
qed

lemma tool_inv:
  assumes "engine_inv e" shows "engine_inv (snd (record_tool_call e t rid tool args))"
proof (cases "dget (runs e) rid")
  case (Some r)
  with assms executing_inv(1) [OF assms Some] show ?thesis by (simp add: tool_snd [OF Some] engine_inv_emit)
qed (simp add: record_tool_call_def assms)

lemma output_inv:
  assumes "engine_inv e" shows "engine_inv (snd (record_output e t rid out))"
proof (cases "dget (runs e) rid")
  case (Some r)
  with assms executing_inv(2) [OF assms Some] show ?thesis
    by (simp add: record_output_def Let_def engine_inv_emit)
qed (simp add: record_output_def assms)

lemma release_inv:
  assumes "engine_inv e" shows "engine_inv (snd (release_conditional env keys store dr t req e))"
proof -
  obtain x e1 where s: "submit env keys store dr req e = (x, e1)" by force
  then have inv: "engine_inv e1" using submit_inv [OF assms] by (metis snd_conv)
  then have del: "engine_inv (e1\<lparr>conditional_queue := ddel (conditional_queue e1) k\<rparr>)" for k
    using refs_ok_del [of e1] by (auto simp: engine_inv_def refs_ok_objects
        [of "e1\<lparr>conditional_queue := ddel (conditional_queue e1) k\<rparr>" e1])
  show ?thesis
    using assms inv del
    by (cases x) (simp_all add: release_conditional_def s Let_def snd_keep engine_inv_emit split: option.split)
qed

subsection \<open>Histories\<close>

text \<open>The operations of the engine; the asset store may change between them.\<close>

datatype 's engine_op =
    OpSubmit "'s asset_store" draw policy_request
  | OpTool clock str str attrs
  | OpOutput clock str attrs
  | OpRelease "'s asset_store" draw clock policy_request

fun engine_do :: "pyenv \<Rightarrow> keyring \<Rightarrow> engine \<Rightarrow> 's engine_op \<Rightarrow> engine" where
  "engine_do env keys e (OpSubmit store dr req) = snd (submit env keys store dr req e)"
| "engine_do env keys e (OpTool t rid tool args) = snd (record_tool_call e t rid tool args)"
| "engine_do env keys e (OpOutput t rid out) = snd (record_output e t rid out)"
| "engine_do env keys e (OpRelease store dr t req) = snd (release_conditional env keys store dr t req e)"

fun sees :: "('s asset_store \<Rightarrow> bool) \<Rightarrow> 's engine_op \<Rightarrow> bool" where
  "sees S (OpSubmit store dr req) = S store"
| "sees S (OpRelease store dr t req) = S store"
| "sees S _ = True"

text \<open>The engines that can be reached while the asset store is always one of \<open>S\<close>.\<close>

inductive engine_reach :: "pyenv \<Rightarrow> keyring \<Rightarrow> ('s asset_store \<Rightarrow> bool) \<Rightarrow> engine \<Rightarrow> bool"
  for env keys and S :: "'s asset_store \<Rightarrow> bool" where
  start: "0 \<le> counter gs \<Longrightarrow> engine_reach env keys S (new_engine gs tid)"
| step: "engine_reach env keys S e \<Longrightarrow> sees S opn \<Longrightarrow> engine_reach env keys S (engine_do env keys e opn)"

lemma engine_do_inv: "engine_inv e \<Longrightarrow> engine_inv (engine_do env keys e opn)"
  by (cases opn) (simp_all add: submit_inv tool_inv output_inv release_inv)

lemma engine_reach_inv: "engine_reach env keys S e \<Longrightarrow> engine_inv e"
  by (induction rule: engine_reach.induct) (simp_all add: engine_inv_new engine_do_inv)

subsection \<open>How one run evolves\<close>

text \<open>
  What may happen to a run object that exists: a tool call or the one output of an executing
  run. Everything else of it never changes.
\<close>

inductive run_evolves :: "workflow_run \<Rightarrow> workflow_run \<Rightarrow> bool" where
  same: "run_evolves w w"
| call: "w_state w = EXECUTING \<Longrightarrow> run_evolves w (w\<lparr>tool_calls := tool_calls w @ [c]\<rparr>)"
| finish: "w_state w = EXECUTING \<Longrightarrow>
     run_evolves w (w\<lparr>outputs := outputs w @ [out], w_state := COMPLETED\<rparr>)"

inductive_cases run_evolvesE: "run_evolves w v"

definition objects_evolve :: "engine \<Rightarrow> engine \<Rightarrow> bool" where
  "objects_evolve e e' \<longleftrightarrow>
     (\<forall>r<length (objects e). r < length (objects e') \<and> run_evolves (objects e ! r) (objects e' ! r))"

lemma objects_evolve_same: "objects e' = objects e @ ws \<Longrightarrow> objects_evolve e e'"
  by (auto simp: objects_evolve_def nth_append intro: run_evolves.same)

lemma objects_evolve_set:
  "objects e' = objects (set_run e r f) \<Longrightarrow> run_evolves (objects e ! r) (f (objects e ! r)) \<Longrightarrow>
     objects_evolve e e'"
  unfolding objects_evolve_def
proof (intro allI impI conjI)
  fix q
  assume e': "objects e' = objects (set_run e r f)" "run_evolves (objects e ! r) (f (objects e ! r))"
    and q: "q < length (objects e)"
  then show "q < length (objects e')" by simp
  from e' q show "run_evolves (objects e ! q) (objects e' ! q)"
    by (cases "q = r") (simp_all add: set_run_def run_evolves.same)
qed

lemma file_run_old:
  "q < r \<Longrightarrow> objects (snd (file_run e r rid req d)) ! q = objects e ! q
     \<and> length (objects (snd (file_run e r rid req d))) = length (objects e)"
  by (auto simp: file_run_def Let_def set_state_def set_run_def split: policy_state.split option.split)

lemma submit_evolves:
  assumes "engine_inv e" shows "objects_evolve e (snd (submit env keys store dr req e))"
proof -
  from submit_cases [OF assms, of env keys store dr req] obtain d gs w e3 where
    e3: "e3 = e\<lparr>gateway := gs, objects := objects e @ [w], trace := trace e3\<rparr>"
    and out: "(\<exists>x. submit env keys store dr req e = (Inl x, e3))
      \<or> submit env keys store dr req e = file_run e3 (length (objects e)) (dr_run_id dr) req d"
    by metis
  have obj: "objects e3 = objects e @ [w]" by (subst e3) simp
  from out show ?thesis
  proof
    assume "submit env keys store dr req e = file_run e3 (length (objects e)) (dr_run_id dr) req d"
    then show ?thesis using file_run_old [of _ "length (objects e)" e3 "dr_run_id dr" req d] obj
      by (auto simp: objects_evolve_def nth_append intro: run_evolves.same)
  qed (auto intro: objects_evolve_same simp: obj)
qed

lemma release_objects:
  "objects (snd (release_conditional env keys store dr t req e)) = objects e
   \<or> objects (snd (release_conditional env keys store dr t req e)) =
       objects (snd (submit env keys store dr req e))"
proof -
  obtain x e1 where s: "submit env keys store dr req e = (x, e1)" by force
  show ?thesis
    by (cases x) (auto simp: release_conditional_def s Let_def snd_keep split: option.split)
qed

lemma engine_do_evolves:
  assumes "engine_inv e" shows "objects_evolve e (engine_do env keys e opn)"
proof (cases opn)
  case (OpSubmit store dr req)
  then show ?thesis using submit_evolves [OF assms] by simp
next
  case (OpTool t rid tool args)
  show ?thesis
  proof (cases "dget (runs e) rid")
    case None
    then show ?thesis by (simp add: OpTool record_tool_call_def objects_evolve_same [where ws = "[]"])
  next
    case (Some r)
    then show ?thesis
      by (auto simp: OpTool tool_snd objects_evolve_same [where ws = "[]"]
          intro!: objects_evolve_set [where r = r] run_evolves.call)
  qed
next
  case (OpOutput t rid out)
  show ?thesis
  proof (cases "dget (runs e) rid")
    case None
    then show ?thesis by (simp add: OpOutput record_output_def objects_evolve_same [where ws = "[]"])
  next
    case (Some r)
    then show ?thesis
      by (auto simp: OpOutput record_output_def Let_def objects_evolve_same [where ws = "[]"]
          intro!: objects_evolve_set [where r = r] run_evolves.finish)
  qed
next
  case (OpRelease store dr t req)
  have "objects_evolve e (snd (submit env keys store dr req e))" by (rule submit_evolves [OF assms])
  with release_objects [of env keys store dr t req e] show ?thesis
    by (auto simp: OpRelease objects_evolve_def intro: run_evolves.same)
qed

subsection \<open>The trace of the engine\<close>

definition trace_upto :: "engine \<Rightarrow> int \<Rightarrow> bool" where
  "trace_upto e c \<longleftrightarrow> verify_chain (trace e) = Inr True \<and> clock_from (-1) (events (trace e)) \<le> c"

lemma trace_upto_mono: "trace_upto e c \<Longrightarrow> c \<le> c' \<Longrightarrow> trace_upto e c'"
  by (simp add: trace_upto_def)

lemma trace_upto_cong: "trace e' = trace e \<Longrightarrow> trace_upto e' c = trace_upto e c"
  by (simp add: trace_upto_def)

lemma emit_upto: "trace_upto e c \<Longrightarrow> c \<le> snd t \<Longrightarrow> trace_upto (snd (emit e t rid ev act det)) (snd t)"
proof (cases "append_event (trace e) rid ev act (Some det) (fst t) (snd t)")
  case (Inr p)
  assume up: "trace_upto e c" "c \<le> snd t"
  obtain r rc where p: "p = (r, rc)" by (cases p)
  note app = Inr [unfolded p]
  have "verify_chain rc = Inr True"
    using append_keeps_chain [OF _ app] up by (simp add: trace_upto_def)
  moreover have "clock_from (-1) (events rc) = snd t"
    using append_event_Inr(1,2) [OF app] by (simp add: clock_from_def)
  ultimately show ?thesis by (simp add: emit_def app trace_upto_def)
qed (simp add: emit_def trace_upto_def)

lemma file_run_trace [simp]: "trace (snd (file_run e r rid req d)) = trace e"
  by (simp add: file_run_def Let_def set_state_def split: policy_state.split option.split)

lemma submit_upto:
  assumes "trace_upto e c" "c \<le> snd (dr_clock1 dr)" "snd (dr_clock1 dr) \<le> snd (dr_clock2 dr)"
  shows "trace_upto (snd (submit env keys store dr req e)) (snd (dr_clock2 dr))"
proof (cases "evaluate env keys store (dr_ticket dr) req (dr_now dr) (gateway e)")
  case (Pair x gs)
  show ?thesis
  proof (cases x)
    case (Inl y)
    with assms Pair show ?thesis by (simp add: submit_def trace_upto_def)
  next
    case (Inr d)
    define w where "w = \<lparr>run_id = dr_run_id dr, w_request_id = req_id req, w_state = PENDING,
              decision = Some d, tool_calls = [], outputs = []\<rparr>"
    define e1 where "e1 = e\<lparr>gateway := gs, objects := objects e @ [w]\<rparr>"
    have "trace_upto e1 c" using assms(1) by (simp add: trace_upto_def e1_def)
    note up1 = emit_upto [OF this assms(2)]
    obtain x2 e2 where e2: "emit e1 (dr_clock1 dr) (req_id req) (lit ''request.received'') (lit ''workflow'')
        [(lit ''action'', JStr (req_action req))] = (x2, e2)" by force
    obtain x3 e3 where e3: "emit e2 (dr_clock2 dr) (req_id req) (state_event (d_state d)) (lit ''gateway'')
        [(lit ''reason'', JStr (d_reason d)), (lit ''sequence'', JInt (d_sequence d))] = (x3, e3)" by force
    have u2: "trace_upto e2 (snd (dr_clock1 dr))"
      using up1 [of "req_id req" "lit ''request.received''" "lit ''workflow''"
          "[(lit ''action'', JStr (req_action req))]"] by (simp add: e2)
    have "trace_upto e3 (snd (dr_clock2 dr))"
      using emit_upto [OF u2 assms(3), of "req_id req" "state_event (d_state d)" "lit ''gateway''"
          "[(lit ''reason'', JStr (d_reason d)), (lit ''sequence'', JInt (d_sequence d))]"]
      by (simp add: e3)
    moreover have "trace_upto e2 (snd (dr_clock2 dr))" by (rule trace_upto_mono [OF u2 assms(3)])
    moreover have "snd (submit env keys store dr req e) = (case x2 of Inl x \<Rightarrow> e2
        | Inr _ \<Rightarrow> (case x3 of Inl x \<Rightarrow> e3
            | Inr _ \<Rightarrow> snd (file_run e3 (length (objects e)) (dr_run_id dr) req d)))"
      by (simp add: submit_def Pair Inr Let_def e2 e3 split: sum.split flip: w_def e1_def)
    ultimately show ?thesis
      by (auto simp: trace_upto_cong [OF file_run_trace] split: sum.split)
  qed
qed

fun op_clocks :: "'s engine_op \<Rightarrow> int list" where
  "op_clocks (OpSubmit store dr req) = [snd (dr_clock1 dr), snd (dr_clock2 dr)]"
| "op_clocks (OpTool t rid tool args) = [snd t]"
| "op_clocks (OpOutput t rid out) = [snd t]"
| "op_clocks (OpRelease store dr t req) = [snd (dr_clock1 dr), snd (dr_clock2 dr), snd t]"

lemma engine_do_upto:
  assumes "trace_upto e c" "sorted (c # op_clocks opn)"
  shows "trace_upto (engine_do env keys e opn) (last (op_clocks opn))"
proof (cases opn)
  case (OpSubmit store dr req)
  with assms show ?thesis by (simp add: submit_upto [of e c])
next
  case (OpTool t rid tool args)
  then have c: "c \<le> snd t" using assms(2) by simp
  have "trace_upto (set_run e r f) c" for r f using assms(1) by (simp add: trace_upto_def)
  from emit_upto [OF this c] show ?thesis
    using trace_upto_mono [OF assms(1) c]
    by (cases "dget (runs e) rid") (auto simp: OpTool record_tool_call_def Let_def snd_keep)
next
  case (OpOutput t rid out)
  then have c: "c \<le> snd t" using assms(2) by simp
  have "trace_upto (set_run e r f) c" for r f using assms(1) by (simp add: trace_upto_def)
  from emit_upto [OF this c] show ?thesis
    using trace_upto_mono [OF assms(1) c]
    by (cases "dget (runs e) rid") (auto simp: OpOutput record_output_def Let_def)
next
  case (OpRelease store dr t req)
  with assms(2) have c: "c \<le> snd (dr_clock1 dr)" "snd (dr_clock1 dr) \<le> snd (dr_clock2 dr)"
    "snd (dr_clock2 dr) \<le> snd t" "c \<le> snd t" by auto
  obtain x e1 where s: "submit env keys store dr req e = (x, e1)" by force
  have up: "trace_upto e1 (snd (dr_clock2 dr))"
    using submit_upto [OF assms(1) c(1,2), of env keys store req] s by simp
  then have "trace_upto (e1\<lparr>conditional_queue := q\<rparr>) (snd (dr_clock2 dr))" for q
    by (simp add: trace_upto_def)
  from emit_upto [OF this c(3)] emit_upto [OF up c(3)] trace_upto_mono [OF up c(3)]
    trace_upto_mono [OF assms(1) c(4)]
  show ?thesis
    by (cases x) (auto simp: OpRelease release_conditional_def s Let_def snd_keep split: option.split)
qed

lemma engine_run_upto:
  "trace_upto e c \<Longrightarrow> sorted (c # concat (map op_clocks opns)) \<Longrightarrow>
     verify_chain (trace (foldl (engine_do env keys) e opns)) = Inr True"
proof (induction opns arbitrary: e c)
  case (Cons opn opns)
  have ne: "op_clocks opn \<noteq> []" by (cases opn) auto
  have "sorted (c # op_clocks opn)" using Cons.prems(2) by (auto simp: sorted_append)
  from engine_do_upto [OF Cons.prems(1) this] have up: "trace_upto (engine_do env keys e opn) (last (op_clocks opn))" .
  have "sorted (last (op_clocks opn) # concat (map op_clocks opns))"
    using Cons.prems(2) ne by (auto simp: sorted_append)
  from Cons.IH [OF up this] show ?case by simp
qed (simp add: trace_upto_def)

end
