(* ===== verification/Allocation.thy ===== *)
theory Allocation
  imports PyText "HOL-Library.Product_Lexorder"
begin

text \<open>
  The arithmetic of \<open>src/accounting/ledger.py\<close>: how a run's revenue is split by weights in
  basis points, and how a refund is rounded. Python's integers are unbounded, so \<open>int\<close> is
  exact. The values that reach these functions are unchecked Python objects (\<open>pyval\<close>); the
  checks that turn them into integers are part of the model.
\<close>

datatype pyval = PInt int | PBool bool | PFloat str | PDecimal str | POther

definition BASIS_POINTS_TOTAL :: int where
  "BASIS_POINTS_TOTAL = 10000"

definition ledger_error :: "string \<Rightarrow> exn" where
  "ledger_error m = LedgerError (lit m)"

fun reject_non_integer_money :: "pyval \<Rightarrow> string \<Rightarrow> exn + int" where
  "reject_non_integer_money (PBool _) name = Inl (ledger_error (name @ '' must be an integer, not bool''))"
| "reject_non_integer_money (PFloat _) name =
     Inl (ledger_error (name @ '' must be integer minor units, not float''))"
| "reject_non_integer_money (PDecimal _) name =
     Inl (ledger_error (name @ '' must be integer minor units, not Decimal''))"
| "reject_non_integer_money POther name = Inl (ledger_error (name @ '' must be an integer''))"
| "reject_non_integer_money (PInt n) name = Inr n"

text \<open>The loop over the weights: it raises at the first that is no non-negative integer.\<close>

fun sum_weights :: "pyval list \<Rightarrow> int \<Rightarrow> exn + int" where
  "sum_weights [] acc = Inr acc"
| "sum_weights (PInt w # ws) acc =
     (if w < 0 then Inl (ledger_error ''weights must be non-negative integers'')
      else sum_weights ws (acc + w))"
| "sum_weights (_ # ws) acc = Inl (ledger_error ''weights must be non-negative integers'')"

fun pyval_int :: "pyval \<Rightarrow> int" where
  "pyval_int (PInt n) = n"
| "pyval_int (PBool b) = (if b then 1 else 0)"
| "pyval_int _ = 0"

definition floors :: "int \<Rightarrow> int list \<Rightarrow> int list" where
  "floors revenue ws = map (\<lambda>w. revenue * w div BASIS_POINTS_TOTAL) ws"

definition remainders :: "int \<Rightarrow> int list \<Rightarrow> int list" where
  "remainders revenue ws = map (\<lambda>w. revenue * w mod BASIS_POINTS_TOTAL) ws"

text \<open>\<open>sorted(range(len(ws)), key=lambda i: (-remainders[i], i))\<close>.\<close>

definition remainder_order :: "int list \<Rightarrow> nat list" where
  "remainder_order rs = sort_key (\<lambda>i. (- (rs ! i), i)) [0..<length rs]"

definition bump_at :: "nat list \<Rightarrow> int list \<Rightarrow> nat \<Rightarrow> int list" where
  "bump_at order result k =
     (let i = order ! (k mod length order) in result[i := result ! i + 1])"

definition split_cents :: "int \<Rightarrow> int list \<Rightarrow> int list" where
  "split_cents revenue ws =
     (if revenue = 0 then replicate (length ws) 0
      else (let fl = floors revenue ws;
                leftover = revenue - sum_list fl;
                order = remainder_order (remainders revenue ws)
            in foldl (bump_at order) fl [0..<nat leftover]))"

definition allocate_cents :: "pyval \<Rightarrow> pyval list \<Rightarrow> exn + int list" where
  "allocate_cents revenue_cents weights_bp =
     andthen (reject_non_integer_money revenue_cents ''revenue_cents'') (\<lambda>revenue.
     if revenue < 0 then Inl (ledger_error ''revenue_cents must be >= 0'')
     else if weights_bp = [] then Inl (ledger_error ''weights must be non-empty'')
     else andthen (sum_weights weights_bp 0) (\<lambda>total.
       if total \<noteq> BASIS_POINTS_TOTAL
       then Inl (LedgerError (lit ''weights must sum to '' @ str_int BASIS_POINTS_TOTAL
                   @ lit '', got '' @ str_int total))
       else Inr (split_cents revenue (map pyval_int weights_bp))))"

definition is_int :: "pyval \<Rightarrow> bool" where
  "is_int v \<longleftrightarrow> (case v of PInt _ \<Rightarrow> True | _ \<Rightarrow> False)"

definition round_half_even_cents :: "pyval \<Rightarrow> pyval \<Rightarrow> pyval \<Rightarrow> exn + int" where
  "round_half_even_cents amount numer denom =
     (case find (\<lambda>(name, v). \<not> is_int v) [(''amount_cents'', amount), (''numer'', numer), (''denom'', denom)] of
        Some (name, _) \<Rightarrow> Inl (ledger_error (name @ '' must be an integer''))
      | None \<Rightarrow>
          (let a = pyval_int amount; n = pyval_int numer; d = pyval_int denom
           in if d \<le> 0 then Inl (ledger_error ''ratio denominator must be positive'')
              else if a < 0 \<or> n < 0
              then Inl (ledger_error ''amount and numerator must be non-negative'')
              else (let quotient = a * n div d; remainder = a * n mod d; twice = remainder * 2
                    in if twice < d then Inr quotient
                       else if d < twice then Inr (quotient + 1)
                       else if quotient mod 2 = 0 then Inr quotient else Inr (quotient + 1))))"

subsection \<open>The order of the remainders\<close>

lemma remainder_order_perm: "set (remainder_order rs) = {..<length rs}"
  "distinct (remainder_order rs)" "length (remainder_order rs) = length rs"
  by (auto simp: remainder_order_def)

lemma remainder_order_sorted:
  assumes "p < q" "q < length rs"
  shows "(- (rs ! (remainder_order rs ! p)), remainder_order rs ! p)
    < (- (rs ! (remainder_order rs ! q)), remainder_order rs ! q)"
proof -
  let ?f = "\<lambda>i. (- (rs ! i), i)"
  have "sorted (map ?f (remainder_order rs))" by (simp add: remainder_order_def)
  from sorted_nth_mono [OF this, of p q] assms
  have "?f (remainder_order rs ! p) \<le> ?f (remainder_order rs ! q)"
    by (simp add: remainder_order_perm(3) del: less_eq_prod_simp less_prod_simp)
  moreover have "remainder_order rs ! p \<noteq> remainder_order rs ! q"
    using assms remainder_order_perm [of rs] by (simp add: nth_eq_iff_index_eq)
  ultimately show ?thesis by (simp add: less_le)
qed

subsection \<open>The leftover cents\<close>

text \<open>The loop adds one cent to each of the first positions of the order.\<close>

lemma foldl_bump:
  assumes "distinct order" "set order \<subseteq> {..<length fl}" "m \<le> length order"
  shows "length (foldl (bump_at order) fl [0..<m]) = length fl
    \<and> (\<forall>i<length fl. foldl (bump_at order) fl [0..<m] ! i =
         fl ! i + (if i \<in> set (take m order) then 1 else 0))"
  using assms(3)
proof (induction m)
  case (Suc m)
  define res where "res = foldl (bump_at order) fl [0..<m]"
  have m: "m < length order" using Suc.prems by simp
  have o: "order ! m < length fl" using assms(2) m nth_mem by blast
  have fresh: "order ! m \<notin> set (take m order)"
    using assms(1) m by (auto simp: in_set_conv_nth nth_eq_iff_index_eq)
  have "foldl (bump_at order) fl [0..<Suc m] = res[order ! m := res ! (order ! m) + 1]"
    using m by (simp add: res_def bump_at_def Let_def)
  with Suc m o fresh show ?case
    by (auto simp: res_def nth_list_update take_Suc_conv_app_nth)
qed simp

lemma sum_div_mod:
  "sum_list (floors revenue ws) * BASIS_POINTS_TOTAL + sum_list (remainders revenue ws)
     = revenue * sum_list ws"
  by (induction ws) (auto simp: floors_def remainders_def algebra_simps)

text \<open>Fewer cents are left over than there are remainders that are not zero.\<close>

lemma leftover_bounds:
  assumes "sum_list ws = BASIS_POINTS_TOTAL"
  shows "(revenue - sum_list (floors revenue ws)) * BASIS_POINTS_TOTAL
    = sum_list (remainders revenue ws)"
  using sum_div_mod [of revenue ws] assms
  by (simp add: algebra_simps BASIS_POINTS_TOTAL_def)

lemma sum_remainders_less:
  assumes "\<forall>r\<in>set rs. 0 \<le> r \<and> r < M" "0 < (M::int)"
  shows "sum_list rs \<le> int (length (filter (\<lambda>r. 0 < r) rs)) * M \<and> 0 \<le> sum_list rs"
  using assms by (induction rs) (auto simp: algebra_simps)

lemma leftover_nonneg_less:
  assumes "sum_list ws = BASIS_POINTS_TOTAL"
  shows "0 \<le> revenue - sum_list (floors revenue ws)"
    and "revenue - sum_list (floors revenue ws)
      \<le> int (length (filter (\<lambda>r. 0 < r) (remainders revenue ws)))"
proof -
  have "\<forall>r\<in>set (remainders revenue ws). 0 \<le> r \<and> r < BASIS_POINTS_TOTAL"
    by (auto simp: remainders_def BASIS_POINTS_TOTAL_def)
  from sum_remainders_less [OF this] leftover_bounds [OF assms, of revenue]
  show "0 \<le> revenue - sum_list (floors revenue ws)"
    and "revenue - sum_list (floors revenue ws)
      \<le> int (length (filter (\<lambda>r. 0 < r) (remainders revenue ws)))"
    by (simp_all add: BASIS_POINTS_TOTAL_def)
qed

subsection \<open>What the split promises\<close>

definition leftover :: "int \<Rightarrow> int list \<Rightarrow> nat" where
  "leftover revenue ws = nat (revenue - sum_list (floors revenue ws))"

definition extra_cent :: "int \<Rightarrow> int list \<Rightarrow> nat set" where
  "extra_cent revenue ws =
     set (take (leftover revenue ws) (remainder_order (remainders revenue ws)))"

lemma floors_zero: "floors 0 ws = replicate (length ws) 0"
  by (induction ws) (auto simp: floors_def)

lemma length_floors [simp]: "length (floors revenue ws) = length ws"
  and length_remainders [simp]: "length (remainders revenue ws) = length ws"
  by (simp_all add: floors_def remainders_def)

lemma leftover_le: "sum_list ws = BASIS_POINTS_TOTAL \<Longrightarrow> leftover revenue ws \<le> length ws"
  using leftover_nonneg_less(2) [of ws revenue]
    length_filter_le [of "\<lambda>r. 0 < r" "remainders revenue ws"]
  by (simp add: leftover_def)

lemma split_cents_fold:
  "split_cents revenue ws =
     foldl (bump_at (remainder_order (remainders revenue ws))) (floors revenue ws)
       [0..<leftover revenue ws]"
  by (simp add: split_cents_def Let_def leftover_def floors_zero sum_list_replicate)

lemma split_cents_nth:
  assumes "sum_list ws = BASIS_POINTS_TOTAL"
  shows "length (split_cents revenue ws) = length ws"
    and "i < length ws \<Longrightarrow> split_cents revenue ws ! i =
      revenue * (ws ! i) div BASIS_POINTS_TOTAL + (if i \<in> extra_cent revenue ws then 1 else 0)"
proof -
  have "leftover revenue ws \<le> length (remainder_order (remainders revenue ws))"
    by (simp add: remainder_order_perm leftover_le [OF assms])
  note * = foldl_bump [OF remainder_order_perm(2) _ this, of "floors revenue ws"]
  from * show "length (split_cents revenue ws) = length ws"
    by (simp add: split_cents_fold remainder_order_perm)
  from * show "i < length ws \<Longrightarrow> split_cents revenue ws ! i =
      revenue * (ws ! i) div BASIS_POINTS_TOTAL + (if i \<in> extra_cent revenue ws then 1 else 0)"
    by (simp add: split_cents_fold remainder_order_perm extra_cent_def floors_def)
qed

lemma extra_cent_subset: "extra_cent revenue ws \<subseteq> {..<length ws}"
  using set_take_subset remainder_order_perm(1) [of "remainders revenue ws"]
  by (fastforce simp: extra_cent_def)

lemma card_extra_cent:
  "sum_list ws = BASIS_POINTS_TOTAL \<Longrightarrow> card (extra_cent revenue ws) = leftover revenue ws"
  using leftover_le [of ws revenue]
  by (simp add: extra_cent_def distinct_card remainder_order_perm)

lemma split_cents_sum:
  assumes "sum_list ws = BASIS_POINTS_TOTAL" shows "sum_list (split_cents revenue ws) = revenue"
proof -
  have "sum_list (split_cents revenue ws) =
      (\<Sum>i<length ws. floors revenue ws ! i + (if i \<in> extra_cent revenue ws then 1 else 0))"
    by (simp add: sum_list_sum_nth split_cents_nth [OF assms] floors_def atLeast0LessThan)
  also have "\<dots> = sum_list (floors revenue ws) + int (card (extra_cent revenue ws))"
    using extra_cent_subset [of revenue ws]
    by (simp add: sum.distrib sum_list_sum_nth atLeast0LessThan Int_absorb1 flip: sum.inter_restrict)
  also have "\<dots> = revenue"
    using leftover_nonneg_less(1) [OF assms, of revenue]
    by (simp add: card_extra_cent [OF assms] leftover_def)
  finally show ?thesis .
qed

text \<open>
  The extra cents go to the largest remainders, ties to the lowest index, and never to an
  exact share.
\<close>

lemma extra_cent_order:
  assumes "sum_list ws = BASIS_POINTS_TOTAL" "i \<in> extra_cent revenue ws" "j < length ws"
    "j \<notin> extra_cent revenue ws"
  defines "r \<equiv> \<lambda>k. revenue * (ws ! k) mod BASIS_POINTS_TOTAL"
  shows "r j < r i \<or> r j = r i \<and> i < j"
proof -
  let ?o = "remainder_order (remainders revenue ws)" and ?n = "leftover revenue ws"
  have len: "length ?o = length ws" by (simp add: remainder_order_perm)
  from assms(2) obtain p where p: "p < ?n" "p < length ws" "?o ! p = i"
    by (auto simp: extra_cent_def in_set_conv_nth len)
  have "j \<in> set ?o" using assms(3) by (simp add: remainder_order_perm)
  then obtain q where q: "q < length ws" "?o ! q = j"
    by (auto simp: in_set_conv_nth len)
  have "?n \<le> q"
  proof (rule ccontr)
    assume "\<not> ?n \<le> q"
    then have "j \<in> extra_cent revenue ws"
      using q by (auto simp: extra_cent_def in_set_conv_nth len)
    with assms(4) show False ..
  qed
  with p(1) q(1) have "p < q" "q < length (remainders revenue ws)" by simp_all
  note sorted = remainder_order_sorted [OF this, unfolded p(3) q(2)]
  have "i < length ws" using assms(2) extra_cent_subset by blast
  with assms(3) have "remainders revenue ws ! i = r i" "remainders revenue ws ! j = r j"
    by (simp_all add: r_def remainders_def)
  with sorted show ?thesis by auto
qed

lemma extra_cent_positive:
  assumes "sum_list ws = BASIS_POINTS_TOTAL" "i \<in> extra_cent revenue ws"
  shows "0 < revenue * (ws ! i) mod BASIS_POINTS_TOTAL"
proof (rule ccontr)
  let ?r = "\<lambda>k. revenue * (ws ! k) mod BASIS_POINTS_TOTAL"
  let ?P = "{k. k < length ws \<and> 0 < ?r k}"
  assume "\<not> 0 < ?r i"
  moreover have "0 \<le> ?r k" for k by (simp add: BASIS_POINTS_TOTAL_def)
  ultimately have i: "?r i = 0" by (metis order_le_less)
  have "?P \<subseteq> extra_cent revenue ws"
    using extra_cent_order [OF assms] i by force
  moreover have "i \<in> extra_cent revenue ws - ?P" using assms(2) i by simp
  ultimately have "?P \<subset> extra_cent revenue ws" by blast
  moreover have "finite (extra_cent revenue ws)" by (simp add: extra_cent_def)
  ultimately have "card ?P < leftover revenue ws"
    using psubset_card_mono card_extra_cent [OF assms(1)] by metis
  moreover have "length (filter (\<lambda>r. 0 < r) (remainders revenue ws)) = card ?P"
    by (simp add: length_filter_conv_card remainders_def) (metis (no_types, lifting) nth_map)
  ultimately show False
    using leftover_nonneg_less [OF assms(1), of revenue] by (simp add: leftover_def)
qed

lemma split_cents_bounds:
  assumes "sum_list ws = BASIS_POINTS_TOTAL" "i < length ws"
  shows "revenue * (ws ! i) \<le> BASIS_POINTS_TOTAL * (split_cents revenue ws ! i)
      + (BASIS_POINTS_TOTAL - 1)"
    and "BASIS_POINTS_TOTAL * (split_cents revenue ws ! i)
      \<le> revenue * (ws ! i) + (BASIS_POINTS_TOTAL - 1)"
proof -
  let ?x = "revenue * (ws ! i)"
  have d: "?x = BASIS_POINTS_TOTAL * (?x div BASIS_POINTS_TOTAL) + ?x mod BASIS_POINTS_TOTAL" by simp
  have m: "0 \<le> ?x mod BASIS_POINTS_TOTAL" "?x mod BASIS_POINTS_TOTAL < BASIS_POINTS_TOTAL"
    by (simp_all add: BASIS_POINTS_TOTAL_def)
  have e: "i \<in> extra_cent revenue ws \<longrightarrow> 0 < ?x mod BASIS_POINTS_TOTAL"
    using extra_cent_positive [OF assms(1)] by blast
  define y where "y = ?x div BASIS_POINTS_TOTAL"
  define z where "z = ?x mod BASIS_POINTS_TOTAL"
  have "split_cents revenue ws ! i = y + (if 0 < z then split_cents revenue ws ! i - y else 0)"
    and "split_cents revenue ws ! i - y \<in> {0, 1}"
    using e split_cents_nth(2) [OF assms, of revenue] by (auto simp: y_def z_def)
  with d m [folded z_def]
  show "?x \<le> BASIS_POINTS_TOTAL * (split_cents revenue ws ! i) + (BASIS_POINTS_TOTAL - 1)"
    and "BASIS_POINTS_TOTAL * (split_cents revenue ws ! i) \<le> ?x + (BASIS_POINTS_TOTAL - 1)"
    unfolding y_def [symmetric] z_def [symmetric]
    by (auto simp: BASIS_POINTS_TOTAL_def split: if_splits)
qed

lemma split_cents_nonneg:
  assumes "sum_list ws = BASIS_POINTS_TOTAL" "\<forall>w\<in>set ws. 0 \<le> w" "0 \<le> revenue"
  shows "\<forall>c\<in>set (split_cents revenue ws). 0 \<le> c"
proof
  fix c assume "c \<in> set (split_cents revenue ws)"
  then obtain i where "i < length ws" "c = split_cents revenue ws ! i"
    by (auto simp: in_set_conv_nth split_cents_nth(1) [OF assms(1)])
  with split_cents_nth(2) [OF assms(1), of i revenue] assms(2,3) show "0 \<le> c"
    by (simp add: BASIS_POINTS_TOTAL_def pos_imp_zdiv_nonneg_iff)
qed

subsection \<open>Allocation on unchecked values\<close>

definition weights_ok :: "pyval list \<Rightarrow> bool" where
  "weights_ok ws \<longleftrightarrow>
     ws \<noteq> [] \<and> (\<forall>w\<in>set ws. is_int w \<and> 0 \<le> pyval_int w)
     \<and> sum_list (map pyval_int ws) = BASIS_POINTS_TOTAL"

lemma is_intE: "is_int v \<Longrightarrow> v = PInt (pyval_int v)"
  by (cases v) (auto simp: is_int_def)

lemma is_int_PInt [simp]: "is_int (PInt n)"
  by (simp add: is_int_def)

lemma sum_weights_iff:
  "sum_weights ws acc = Inr t \<longleftrightarrow>
     (\<forall>w\<in>set ws. is_int w \<and> 0 \<le> pyval_int w) \<and> t = acc + sum_list (map pyval_int ws)"
  by (induction ws acc rule: sum_weights.induct) (auto simp: is_int_def)

lemma reject_money_iff: "reject_non_integer_money v name = Inr n \<longleftrightarrow> v = PInt n"
  by (cases v) auto

lemma allocate_iff:
  "allocate_cents v ws = Inr xs \<longleftrightarrow>
     (\<exists>n. v = PInt n \<and> 0 \<le> n \<and> weights_ok ws \<and> xs = split_cents n (map pyval_int ws))"
proof (cases v)
  case (PInt n)
  show ?thesis
    by (cases "n < 0")
       (auto simp: PInt allocate_cents_def andthen_eq_Inr sum_weights_iff weights_ok_def)
qed (simp_all add: allocate_cents_def)

definition is_LedgerError :: "exn \<Rightarrow> bool" where
  "is_LedgerError e \<longleftrightarrow> (\<exists>m. e = LedgerError m)"

lemma is_LedgerError_simps [simp]: "is_LedgerError (LedgerError m)" "is_LedgerError (ledger_error w)"
  by (simp_all add: is_LedgerError_def ledger_error_def)

lemma sum_weights_raises: "raises_only is_LedgerError (sum_weights ws acc)"
  by (induction ws acc rule: sum_weights.induct) auto

lemma reject_money_raises: "raises_only is_LedgerError (reject_non_integer_money v name)"
  by (cases v) auto

lemma allocate_raises: "raises_only is_LedgerError (allocate_cents v ws)"
  unfolding allocate_cents_def
  by (intro raises_intros sum_weights_raises reject_money_raises) simp_all

lemma round_raises: "raises_only is_LedgerError (round_half_even_cents a n d)"
  by (auto simp: round_half_even_cents_def Let_def raises_intros split: option.split)

subsection \<open>The contract of a split\<close>

text \<open>
  What the ledger relies on: a split gives every party a share, no share is negative, and
  the shares are the whole revenue.
\<close>

locale revenue_split =
  fixes split :: "pyval \<Rightarrow> pyval list \<Rightarrow> exn + int list"
  assumes split_total: "split v ws = Inr xs \<Longrightarrow> v = PInt (sum_list xs)"
    and split_length: "split v ws = Inr xs \<Longrightarrow> length xs = length ws"
    and split_nonneg: "split v ws = Inr xs \<Longrightarrow> \<forall>x\<in>set xs. 0 \<le> x"
begin

lemma share_le_total: "split v ws = Inr xs \<Longrightarrow> x \<in> set xs \<Longrightarrow> x \<le> pyval_int v"
proof -
  assume s: "split v ws = Inr xs" and x: "x \<in> set xs"
  have "x \<le> sum_list xs"
    using split_nonneg [OF s] x by (simp add: member_le_sum_list)
  with split_total [OF s] show ?thesis by simp
qed

lemma same_total: "split v ws = Inr xs \<Longrightarrow> split v us = Inr ys \<Longrightarrow> sum_list xs = sum_list ys"
  using split_total [of v ws xs] split_total [of v us ys] by simp

end

interpretation cents: revenue_split allocate_cents
proof unfold_locales
  fix v ws xs assume "allocate_cents v ws = Inr xs"
  then obtain n where v: "v = PInt n" "0 \<le> n" and w: "weights_ok ws"
    and xs: "xs = split_cents n (map pyval_int ws)"
    by (auto simp: allocate_iff)
  from w have s: "sum_list (map pyval_int ws) = BASIS_POINTS_TOTAL"
    and p: "\<forall>w\<in>set (map pyval_int ws). 0 \<le> w" by (auto simp: weights_ok_def)
  show "v = PInt (sum_list xs)" by (simp add: v xs split_cents_sum [OF s])
  show "length xs = length ws" by (simp add: xs split_cents_nth(1) [OF s])
  show "\<forall>x\<in>set xs. 0 \<le> x" unfolding xs by (rule split_cents_nonneg [OF s p v(2)])
qed

subsection \<open>Banker's rounding\<close>

text \<open>The integer nearest to \<open>x / d\<close>, the even one of two that are equally near.\<close>

definition nearest_even :: "int \<Rightarrow> int \<Rightarrow> int \<Rightarrow> bool" where
  "nearest_even x d q \<longleftrightarrow> \<bar>2 * (x - q * d)\<bar> \<le> d \<and> (\<bar>2 * (x - q * d)\<bar> = d \<longrightarrow> even q)"

lemma nearest_even_less:
  assumes "0 < d" "nearest_even x d p" "nearest_even x d q" "p < q" shows False
proof -
  have "(p + 1) * d \<le> q * d" using assms(1,4) by (intro mult_right_mono) auto
  then have ge: "p * d + d \<le> q * d" by (simp add: algebra_simps)
  from assms(2,3) have "2 * (x - p * d) \<le> d" "- d \<le> 2 * (x - q * d)"
    by (simp_all add: nearest_even_def abs_le_iff)
  note bounds = ge this
  define P Q where "P = p * d" and "Q = q * d"
  have "2 * (x - P) = d \<and> 2 * (x - Q) = - d \<and> Q = P + d"
    using bounds unfolding P_def [symmetric] Q_def [symmetric] by presburger
  then have vals: "2 * (x - p * d) = d" "2 * (x - q * d) = - d" and "q * d = p * d + d"
    unfolding P_def Q_def by simp_all
  with assms(1) have eq: "\<bar>2 * (x - p * d)\<bar> = d" "\<bar>2 * (x - q * d)\<bar> = d" "q * d = p * d + d"
    unfolding vals by simp_all
  from eq(1,2) assms(2,3) have "even p" "even q" by (auto simp: nearest_even_def)
  from eq(3) have "q * d = (p + 1) * d" by (simp add: algebra_simps)
  with assms(1) have "q = p + 1" by simp
  with \<open>even p\<close> \<open>even q\<close> show False by simp
qed

lemma nearest_even_unique:
  "0 < d \<Longrightarrow> nearest_even x d p \<Longrightarrow> nearest_even x d q \<Longrightarrow> p = q"
  using nearest_even_less by (metis linorder_neqE)

lemma round_value_nearest:
  fixes x d :: int
  assumes "0 < d"
  defines "q \<equiv> x div d" and "r \<equiv> x mod d"
  shows "nearest_even x d
    (if r * 2 < d then q else if d < r * 2 then q + 1 else if q mod 2 = 0 then q else q + 1)"
proof -
  have x: "x = q * d + r" and r: "0 \<le> r" "r < d"
    using assms(1) by (simp_all add: q_def r_def)
  have *: "x - q * d = r" "x - (q + 1) * d = r - d" by (simp_all add: x algebra_simps)
  consider "r * 2 < d" | "d < r * 2" | "r * 2 = d" by linarith
  then show ?thesis
  proof cases
    case 1
    with r show ?thesis by (simp add: nearest_even_def *)
  next
    case 2
    with r show ?thesis by (simp add: nearest_even_def *)
  next
    case 3
    have "q mod 2 = 0 \<longleftrightarrow> even q" by (simp add: even_iff_mod_2_eq_zero)
    moreover have "\<bar>2 * (x - q * d)\<bar> = d" "\<bar>2 * (x - (q + 1) * d)\<bar> = d"
      unfolding * using 3 assms(1) by simp_all
    ultimately show ?thesis unfolding nearest_even_def using 3 by simp
  qed
qed

lemma round_iff:
  "round_half_even_cents (PInt a) (PInt n) (PInt d) = Inr q \<longleftrightarrow>
     0 < d \<and> 0 \<le> a \<and> 0 \<le> n \<and> nearest_even (a * n) d q"
proof (cases "0 < d \<and> 0 \<le> a \<and> 0 \<le> n")
  case True
  then have d: "0 < d" by simp
  note near = round_value_nearest [OF d, of "a * n"]
  from True have "round_half_even_cents (PInt a) (PInt n) (PInt d) = Inr
    (if a * n mod d * 2 < d then a * n div d else if d < a * n mod d * 2 then a * n div d + 1
     else if a * n div d mod 2 = 0 then a * n div d else a * n div d + 1)"
    by (simp add: round_half_even_cents_def Let_def)
  with near True show ?thesis
    using nearest_even_unique [OF d] by (metis sum.inject(2))
qed (auto simp: round_half_even_cents_def Let_def)

end
