(* ===== verification/Ledger.thy ===== *)
theory Ledger
  imports Allocation Json Sha256 PyTime Once
begin

text \<open>
  \<open>schemas/ledger.py\<close> and the rest of \<open>src/accounting/ledger.py\<close>: the append-only ledger.
  Each method holds the ledger's lock throughout, so it is one step; a step that can raise
  after it has written returns the state beside the result. \<open>model_dump_json\<close> is pydantic's,
  the parameter \<open>dump\<close> of the replay. Ids are strings, as the annotations have them; weights and
  amounts, which the code checks itself, are any values.
\<close>

record ledger_record =
  record_id :: str
  l_run_id :: str
  l_asset_id :: str
  l_custodian_id :: str
  revenue_cents :: int
  share_basis_points :: int
  allocated_cents :: int
  l_hash :: str
  created_at :: datetime

record dispute_offset =
  offset_id :: str
  o_record_id :: str
  adjustment_cents :: int
  o_reason :: str
  o_created_at :: datetime

definition new_ledger_record :: "ledger_record \<Rightarrow> exn + ledger_record" where
  "new_ledger_record r =
     (if 0 \<le> revenue_cents r \<and> 0 \<le> share_basis_points r
         \<and> share_basis_points r \<le> BASIS_POINTS_TOTAL \<and> 0 \<le> allocated_cents r
         \<and> length (l_hash r) = 64
      then Inr r else Inl ValidationError)"

definition new_dispute_offset :: "dispute_offset \<Rightarrow> exn + dispute_offset" where
  "new_dispute_offset f = (if length (o_reason f) \<le> 512 then Inr f else Inl ValidationError)"

definition reconciliation_payload :: "str \<Rightarrow> str \<Rightarrow> int \<Rightarrow> int \<Rightarrow> int \<Rightarrow> json" where
  "reconciliation_payload run asset revenue share allocated =
     JObj [(lit ''run_id'', JStr run), (lit ''asset_id'', JStr asset),
           (lit ''revenue_cents'', JInt revenue), (lit ''share_bp'', JInt share),
           (lit ''allocated_cents'', JInt allocated)]"

definition reconciliation_hash :: "str \<Rightarrow> str \<Rightarrow> int \<Rightarrow> int \<Rightarrow> int \<Rightarrow> exn + str" where
  "reconciliation_hash run asset revenue share allocated =
     andthen (utf8_encode (dumps (reconciliation_payload run asset revenue share allocated)))
       (\<lambda>b. Inr (sha256_hex b))"

subsection \<open>The ledger\<close>

record ledger =
  records :: "(str, ledger_record) dict"
  offsets :: "(str, dispute_offset list) dict"

definition new_ledger :: ledger where
  "new_ledger = \<lparr>records = [], offsets = []\<rparr>"

text \<open>One contribution: asset, custodian, weight in basis points. One with its share.\<close>

type_synonym contribution = "str \<times> str \<times> pyval"

definition weights :: "contribution list \<Rightarrow> pyval list" where
  "weights cs = map (\<lambda>(a, c, w). w) cs"

definition run_record_id :: "str \<Rightarrow> nat \<Rightarrow> str" where
  "run_record_id run idx = run @ lit '':'' @ zpad 4 idx"

text \<open>\<open>LedgerRecord(...)\<close> with its reconciliation hash, as \<open>post_run\<close> and \<open>replay_run\<close> build it.\<close>

definition build_record ::
    "str \<Rightarrow> int \<Rightarrow> nat \<Rightarrow> contribution \<Rightarrow> int \<Rightarrow> datetime \<Rightarrow> exn + ledger_record" where
  "build_record run revenue idx c allocated now =
     (case c of (asset, custodian, weight) \<Rightarrow>
        andthen (reconciliation_hash run asset revenue (pyval_int weight) allocated) (\<lambda>h.
          new_ledger_record
            \<lparr>record_id = run_record_id run idx, l_run_id = run, l_asset_id = asset,
             l_custodian_id = custodian, revenue_cents = revenue,
             share_basis_points = pyval_int weight, allocated_cents = allocated, l_hash = h,
             created_at = now\<rparr>))"

fun post_loop ::
    "pyenv \<Rightarrow> str \<Rightarrow> int \<Rightarrow> datetime \<Rightarrow> nat \<Rightarrow> (contribution \<times> int) list \<Rightarrow> ledger_record list \<Rightarrow> ledger
     \<Rightarrow> (exn + ledger_record list) \<times> ledger" where
  "post_loop env run revenue now idx [] recs s = (Inr recs, s)"
| "post_loop env run revenue now idx ((c, allocated) # rest) recs s =
     (let rid = run_record_id run idx
      in if dget (records s) rid \<noteq> None
         then (Inl (LedgerError (lit ''duplicate record_id '' @ py_repr env rid)), s)
         else (case build_record run revenue idx c allocated now of
                 Inl e \<Rightarrow> (Inl e, s)
               | Inr r \<Rightarrow>
                   post_loop env run revenue now (Suc idx) rest (recs @ [r])
                     (s\<lparr>records := dput (records s) rid r\<rparr>)))"

definition post_run ::
    "pyenv \<Rightarrow> ledger \<Rightarrow> str \<Rightarrow> pyval \<Rightarrow> contribution list \<Rightarrow> datetime \<Rightarrow> (exn + ledger_record list) \<times> ledger" where
  "post_run env s run revenue contributions now =
     (case reject_non_integer_money revenue ''revenue_cents'' of
        Inl e \<Rightarrow> (Inl e, s)
      | Inr n \<Rightarrow>
          if contributions = [] then (Inl (ledger_error ''contributions must be non-empty''), s)
          else (case allocate_cents (PInt n) (weights contributions) of
                  Inl e \<Rightarrow> (Inl e, s)
                | Inr shares \<Rightarrow> post_loop env run n now 0 (zip contributions shares) [] s))"

definition apply_dispute_offset ::
    "pyenv \<Rightarrow> ledger \<Rightarrow> str \<Rightarrow> str \<Rightarrow> pyval \<Rightarrow> str \<Rightarrow> datetime \<Rightarrow> exn + (dispute_offset \<times> ledger)" where
  "apply_dispute_offset env s oid rid adjustment reason now =
     (if \<not> is_int adjustment then Inl (ledger_error ''adjustment_cents must be an integer'')
      else if dget (records s) rid = None
      then Inl (LedgerError (lit ''unknown record_id '' @ py_repr env rid))
      else andthen (new_dispute_offset
             \<lparr>offset_id = oid, o_record_id = rid, adjustment_cents = pyval_int adjustment,
              o_reason = reason, o_created_at = now\<rparr>) (\<lambda>f.
             Inr (f, s\<lparr>offsets := dput (offsets s) rid
                          ((case dget (offsets s) rid of None \<Rightarrow> [] | Some fs \<Rightarrow> fs) @ [f])\<rparr>)))"

definition ratio_text :: "int \<Rightarrow> int \<Rightarrow> str" where
  "ratio_text n d = str_int n @ lit ''/'' @ str_int d"

definition apply_partial_refund ::
    "pyenv \<Rightarrow> ledger \<Rightarrow> str \<Rightarrow> int \<Rightarrow> int \<Rightarrow> datetime \<Rightarrow> exn + (dispute_offset \<times> ledger)" where
  "apply_partial_refund env s rid numer denom now =
     (case dget (records s) rid of
        None \<Rightarrow> Inl (LedgerError (lit ''unknown record_id '' @ py_repr env rid))
      | Some r \<Rightarrow>
          andthen (round_half_even_cents (PInt (allocated_cents r)) (PInt numer) (PInt denom)) (\<lambda>refund.
            apply_dispute_offset env s (lit ''refund:'' @ rid @ lit '':'' @ ratio_text numer denom) rid
              (PInt (- refund)) (lit ''partial refund '' @ ratio_text numer denom) now))"

definition offsets_of :: "ledger \<Rightarrow> str \<Rightarrow> dispute_offset list" where
  "offsets_of s rid = (case dget (offsets s) rid of None \<Rightarrow> [] | Some fs \<Rightarrow> fs)"

definition net_for_record :: "ledger \<Rightarrow> str \<Rightarrow> exn + int" where
  "net_for_record s rid =
     (case dget (records s) rid of
        None \<Rightarrow> Inl (KeyError rid)
      | Some r \<Rightarrow> Inr (foldl (\<lambda>t f. t + adjustment_cents f) (allocated_cents r) (offsets_of s rid)))"

definition records_for_run :: "ledger \<Rightarrow> str \<Rightarrow> ledger_record list" where
  "records_for_run s run = sort_key record_id (filter (\<lambda>r. l_run_id r = run) (dvals (records s)))"

text \<open>\<open>expected[idx]\<close> raises beyond the end of the stored records.\<close>

fun replay_loop ::
    "str \<Rightarrow> int \<Rightarrow> ledger_record list \<Rightarrow> nat \<Rightarrow> (contribution \<times> int) list \<Rightarrow> exn + ledger_record list" where
  "replay_loop run revenue expected idx [] = Inr []"
| "replay_loop run revenue expected idx ((c, allocated) # rest) =
     (if length expected \<le> idx then Inl IndexError
      else andthen (build_record run revenue idx c allocated (created_at (expected ! idx))) (\<lambda>r.
           andthen (replay_loop run revenue expected (Suc idx) rest) (\<lambda>rs. Inr (r # rs))))"

text \<open>
  \<open>zip(got, want, strict=True)\<close>: the lengths are compared only when one side ends. A record is
  serialised by \<open>model_dump_json\<close>, which raises when an id has no encoding.
\<close>

fun compare_loop ::
    "(ledger_record \<Rightarrow> exn + str) \<Rightarrow> ledger_record list \<Rightarrow> ledger_record list \<Rightarrow> exn + unit" where
  "compare_loop dump [] [] = Inr ()"
| "compare_loop dump (g # gs) (w # ws) =
     andthen (dump g) (\<lambda>got. andthen (dump w) (\<lambda>want.
       if got \<noteq> want then Inl (LedgerError (lit ''replay drift on '' @ record_id w))
       else compare_loop dump gs ws))"
| "compare_loop dump _ _ = Inl (ValueError (lit ''zip() argument lengths differ''))"

definition replay_run ::
    "(ledger_record \<Rightarrow> exn + str) \<Rightarrow> ledger \<Rightarrow> str \<Rightarrow> pyval \<Rightarrow> contribution list \<Rightarrow> exn + ledger_record list" where
  "replay_run dump s run revenue contributions =
     (let expected = records_for_run s run
      in andthen (allocate_cents revenue (weights contributions)) (\<lambda>shares.
         andthen (replay_loop run (pyval_int revenue) expected 0 (zip contributions shares)) (\<lambda>replayed.
         andthen (compare_loop dump replayed expected) (\<lambda>_. Inr replayed))))"

text \<open>Gross, adjustments and net of one custodian.\<close>

definition statement_for_custodian :: "ledger \<Rightarrow> str \<Rightarrow> int \<times> int \<times> int" where
  "statement_for_custodian s cust =
     (let (gross, adj) = foldl (\<lambda>(g, a) r.
            if l_custodian_id r \<noteq> cust then (g, a)
            else (g + allocated_cents r,
                  foldl (\<lambda>t f. t + adjustment_cents f) a (offsets_of s (record_id r))))
          (0, 0) (dvals (records s))
      in (gross, adj, gross + adj))"

definition record_count :: "ledger \<Rightarrow> nat" where
  "record_count s = length (records s)"

end
