(* ===== verification/LedgerProofs.thy ===== *)
theory LedgerProofs
  imports Ledger
begin

text \<open>
  What the ledger promises: a run is posted whole or not at all and at most once, its records
  add up to its revenue, nothing posted is ever changed, and a replay from the raw inputs
  reproduces the stored records.
\<close>

subsection \<open>Record ids\<close>

lemma digits_no_colon: "58 \<notin> set (zpad w n)"
  using zpad_digits [of 58 w n] by (auto simp: is_digit_def)

lemma run_record_id_inject [simp]:
  "run_record_id r i = run_record_id r' i' \<longleftrightarrow> r = r' \<and> i = i'"
proof
  assume "run_record_id r i = run_record_id r' i'"
  then have "rev (run_record_id r i) = rev (run_record_id r' i')" by simp
  then have "rev (zpad 4 i) @ 58 # rev r = rev (zpad 4 i') @ 58 # rev r'"
    by (simp add: run_record_id_def lit_Cons)
  then show "r = r' \<and> i = i'"
    using digits_no_colon by (simp add: sep_append_inject)
qed simp

text \<open>Among strings of digits of one length, the lexicographic order is the numeric one.\<close>

lemma undec_less:
  "length xs = length ys \<Longrightarrow> \<forall>c\<in>set xs. is_digit c \<Longrightarrow> \<forall>c\<in>set ys. is_digit c \<Longrightarrow> a < b \<Longrightarrow>
     undec a xs < undec b ys"
proof (induction xs ys arbitrary: a b rule: list_induct2)
  case (Cons x xs y ys)
  then have "a * 10 + (x - 48) < b * 10 + (y - 48)" by (auto simp: is_digit_def)
  with Cons show ?case by simp
qed simp

lemma undec_mono:
  "length xs = length ys \<Longrightarrow> \<forall>c\<in>set xs. is_digit c \<Longrightarrow> \<forall>c\<in>set ys. is_digit c \<Longrightarrow>
     undec a xs < undec a ys \<Longrightarrow> xs < ys"
proof (induction xs ys arbitrary: a rule: list_induct2)
  case (Cons x xs y ys)
  show ?case
  proof (rule ccontr)
    assume "\<not> x # xs < y # ys"
    then have "y < x \<or> x = y \<and> \<not> xs < ys" by auto
    then show False
    proof
      assume "y < x"
      with Cons.prems(1,2) have "a * 10 + (y - 48) < a * 10 + (x - 48)" by (auto simp: is_digit_def)
      from undec_less [OF _ _ _ this, of ys xs] Cons.hyps Cons.prems show False
        by (simp add: mult.commute)
    next
      assume "x = y \<and> \<not> xs < ys"
      with Cons show False by auto
    qed
  qed
qed simp

lemma run_record_id_mono:
  assumes "i < j" "j < 10000" shows "run_record_id r i < run_record_id r j"
proof -
  have "undec 0 (zpad 4 k) = k" for k by (simp add: zpad_def undec_zeros)
  with assms have "zpad 4 i < zpad 4 j"
    by (intro undec_mono [where a = 0]) (auto simp: length_zpad dest: zpad_digits)
  then have "xs @ zpad 4 i < xs @ zpad 4 j" for xs by (induction xs) auto
  from this [of "r @ lit '':''"] show ?thesis by (simp add: run_record_id_def)
qed

subsection \<open>What a posted run looks like\<close>

definition recon_hash :: "str \<Rightarrow> str \<Rightarrow> int \<Rightarrow> int \<Rightarrow> int \<Rightarrow> str" where
  "recon_hash run asset revenue share allocated =
     sha256_hex (map of_nat (dumps (reconciliation_payload run asset revenue share allocated)))"

lemma recon_dump_ascii:
  assumes "c \<in> set (dumps (reconciliation_payload run asset revenue share allocated))"
  shows "c < 128"
  using no_float_ascii [OF _ assms] by (simp add: reconciliation_payload_def)

lemma reconciliation_hash_eq:
  "reconciliation_hash run asset revenue share allocated
     = Inr (recon_hash run asset revenue share allocated)"
  using recon_dump_ascii
  by (simp add: reconciliation_hash_def recon_hash_def utf8_encode_ascii)

fun mk_record :: "str \<Rightarrow> int \<Rightarrow> datetime \<Rightarrow> nat \<Rightarrow> contribution \<times> int \<Rightarrow> ledger_record" where
  "mk_record run revenue now idx ((asset, custodian, weight), allocated) =
     \<lparr>record_id = run_record_id run idx, l_run_id = run, l_asset_id = asset,
      l_custodian_id = custodian, revenue_cents = revenue,
      share_basis_points = pyval_int weight, allocated_cents = allocated,
      l_hash = recon_hash run asset revenue (pyval_int weight) allocated, created_at = now\<rparr>"

fun mk_records :: "str \<Rightarrow> int \<Rightarrow> datetime \<Rightarrow> nat \<Rightarrow> (contribution \<times> int) list \<Rightarrow> ledger_record list" where
  "mk_records run revenue now idx [] = []"
| "mk_records run revenue now idx (z # zs) =
     mk_record run revenue now idx z # mk_records run revenue now (Suc idx) zs"

definition share_ok :: "contribution \<times> int \<Rightarrow> bool" where
  "share_ok z \<longleftrightarrow>
     (case z of ((a, c, w), x) \<Rightarrow> 0 \<le> pyval_int w \<and> pyval_int w \<le> BASIS_POINTS_TOTAL \<and> 0 \<le> x)"

lemma build_record_eq:
  "0 \<le> revenue \<Longrightarrow> share_ok (c, x) \<Longrightarrow>
     build_record run revenue idx c x now = Inr (mk_record run revenue now idx (c, x))"
  by (cases c) (simp add: build_record_def reconciliation_hash_eq new_ledger_record_def
      share_ok_def recon_hash_def)

lemma mk_record_sel [simp]:
  "record_id (mk_record run revenue now idx z) = run_record_id run idx"
  "l_run_id (mk_record run revenue now idx z) = run"
  "allocated_cents (mk_record run revenue now idx z) = snd z"
  "created_at (mk_record run revenue now idx z) = now"
  by (cases z; cases "fst z"; simp)+

lemma length_mk_records [simp]: "length (mk_records run revenue now idx zs) = length zs"
  by (induction zs arbitrary: idx) auto

lemma mk_records_nth:
  "i < length zs \<Longrightarrow>
     mk_records run revenue now idx zs ! i = mk_record run revenue now (idx + i) (zs ! i)"
  by (induction zs arbitrary: idx i) (auto simp: nth_Cons split: nat.split)

lemma mk_records_sum:
  "sum_list (map allocated_cents (mk_records run revenue now idx zs)) = sum_list (map snd zs)"
  by (induction zs arbitrary: idx) auto

lemma mk_records_run: "r \<in> set (mk_records run revenue now idx zs) \<Longrightarrow> l_run_id r = run"
  by (induction zs arbitrary: idx) auto

lemma post_loop_posts:
  assumes "0 \<le> revenue" "\<forall>z\<in>set zs. share_ok z"
    and "\<forall>i. idx \<le> i \<longrightarrow> dget (records s) (run_record_id run i) = None"
  shows "post_loop env run revenue now idx zs recs s =
    (Inr (recs @ mk_records run revenue now idx zs),
     s\<lparr>records := records s @
         map (\<lambda>r. (record_id r, r)) (mk_records run revenue now idx zs)\<rparr>)"
  using assms
proof (induction zs arbitrary: idx recs s)
  case (Cons z zs)
  obtain c x where z: "z = (c, x)" by (cases z)
  define r where "r = mk_record run revenue now idx (c, x)"
  from Cons.prems have b: "build_record run revenue idx c x now = Inr r"
    by (simp add: build_record_eq z r_def)
  define s' where "s' = s\<lparr>records := records s @ [(run_record_id run idx, r)]\<rparr>"
  have put: "dput (records s) (run_record_id run idx) r = records s @ [(run_record_id run idx, r)]"
    using Cons.prems(3) by (simp add: dput_fresh)
  have fresh: "\<forall>i. Suc idx \<le> i \<longrightarrow> dget (records s') (run_record_id run i) = None"
    using Cons.prems(3) by (auto simp: s'_def map_add_def)
  show ?case
    using Cons.IH [of "Suc idx" s' "recs @ [r]"] Cons.prems fresh b put
    by (simp add: z s'_def r_def Let_def)
qed simp

subsection \<open>Posting\<close>

definition posted :: "ledger \<Rightarrow> str \<Rightarrow> bool" where
  "posted s run \<longleftrightarrow> dget (records s) (run_record_id run 0) \<noteq> None"

text \<open>
  The invariant: record ids are keys, every record belongs to a run whose first record is
  there, and it carries the hash of its own fields; offsets name records that exist.
\<close>

definition ledger_inv :: "ledger \<Rightarrow> bool" where
  "ledger_inv s \<longleftrightarrow>
     wf_dict (records s) \<and> wf_dict (offsets s)
     \<and> (\<forall>(k, r)\<in>set (records s). record_id r = k \<and> posted s (l_run_id r)
          \<and> (\<exists>i. k = run_record_id (l_run_id r) i)
          \<and> 0 \<le> allocated_cents r
          \<and> l_hash r = recon_hash (l_run_id r) (l_asset_id r) (revenue_cents r)
              (share_basis_points r) (allocated_cents r))
     \<and> (\<forall>(k, fs)\<in>set (offsets s). dget (records s) k \<noteq> None \<and> (\<forall>f\<in>set fs. o_record_id f = k))"

lemma ledger_inv_new: "ledger_inv new_ledger"
  by (simp add: ledger_inv_def new_ledger_def)

lemma inv_not_posted:
  assumes "ledger_inv s" "\<not> posted s run" shows "dget (records s) (run_record_id run i) = None"
proof (rule ccontr)
  assume "dget (records s) (run_record_id run i) \<noteq> None"
  then obtain r where "(run_record_id run i, r) \<in> set (records s)"
    using map_of_SomeD by fastforce
  with assms(1) have "posted s (l_run_id r)" "\<exists>j. run_record_id run i = run_record_id (l_run_id r) j"
    by (auto simp: ledger_inv_def)
  with assms(2) show False by auto
qed

definition run_records :: "str \<Rightarrow> int \<Rightarrow> datetime \<Rightarrow> contribution list \<Rightarrow> ledger_record list" where
  "run_records run revenue now cs =
     mk_records run revenue now 0 (zip cs (split_cents revenue (map pyval_int (weights cs))))"

lemma weights_simps [simp]: "length (weights cs) = length cs" "weights [] = []"
  "weights cs = [] \<longleftrightarrow> cs = []"
  by (simp_all add: weights_def)

lemma zip_share_ok:
  assumes "0 \<le> n" "weights_ok (weights cs)"
    and "z \<in> set (zip cs (split_cents n (map pyval_int (weights cs))))"
  shows "share_ok z"
proof -
  obtain c x where z: "z = (c, x)" by (cases z)
  obtain a u w where c: "c = (a, u, w)" by (cases c)
  have "c \<in> set cs" and x: "x \<in> set (split_cents n (map pyval_int (weights cs)))"
    using assms(3) z by (auto dest: set_zip_leftD set_zip_rightD)
  then have w: "w \<in> set (weights cs)" by (force simp: weights_def c)
  have sum: "sum_list (map pyval_int (weights cs)) = BASIS_POINTS_TOTAL"
    and nn: "\<forall>w\<in>set (map pyval_int (weights cs)). 0 \<le> w"
    using assms(2) by (auto simp: weights_ok_def)
  have "pyval_int w \<le> sum_list (map pyval_int (weights cs))"
    using w nn by (intro member_le_sum_list) auto
  with w nn sum split_cents_nonneg [OF sum nn assms(1)] x show ?thesis
    by (auto simp: share_ok_def z c)
qed

text \<open>Posting is all or nothing, and this is what it does.\<close>

lemma post_run_cases:
  assumes "ledger_inv s"
  shows "post_run env s run v cs now =
    (case allocate_cents v (weights cs) of
       Inl e \<Rightarrow> (Inl (if cs = [] \<and> is_int v then ledger_error ''contributions must be non-empty'' else e), s)
     | Inr shares \<Rightarrow>
         if posted s run
         then (Inl (LedgerError (lit ''duplicate record_id '' @ py_repr env (run_record_id run 0))), s)
         else (Inr (run_records run (pyval_int v) now cs),
               s\<lparr>records := records s @
                   map (\<lambda>r. (record_id r, r)) (run_records run (pyval_int v) now cs)\<rparr>))"
proof (cases "allocate_cents v (weights cs)")
  case (Inl e)
  then show ?thesis
    by (cases v) (auto simp: post_run_def is_int_def allocate_cents_def)
next
  case (Inr shares)
  then obtain n where v: "v = PInt n" "0 \<le> n" and w: "weights_ok (weights cs)"
    and sh: "shares = split_cents n (map pyval_int (weights cs))"
    by (auto simp: allocate_iff)
  then have "cs \<noteq> []" by (auto simp: weights_ok_def)
  then obtain c cs' where cs: "cs = c # cs'" by (cases cs) auto
  have len: "length shares = length cs"
    using cents.split_length [OF Inr] by simp
  then obtain x shares' where shares: "shares = x # shares'" by (cases shares) (auto simp: cs)
  have post: "post_run env s run v cs now = post_loop env run n now 0 (zip cs shares) [] s"
    using Inr \<open>cs \<noteq> []\<close> by (simp add: post_run_def v)
  show ?thesis
  proof (cases "posted s run")
    case True
    then show ?thesis
      unfolding post using Inr by (simp add: cs shares posted_def Let_def)
  next
    case False
    have "post_loop env run n now 0 (zip cs shares) [] s =
      (Inr ([] @ mk_records run n now 0 (zip cs shares)),
       s\<lparr>records := records s @ map (\<lambda>r. (record_id r, r)) (mk_records run n now 0 (zip cs shares))\<rparr>)"
      using v(2) zip_share_ok [OF v(2) w] inv_not_posted [OF assms False]
      by (intro post_loop_posts) (auto simp: sh)
    with False Inr show ?thesis unfolding post by (simp add: run_records_def v sh)
  qed
qed

lemma run_records_sum:
  assumes "allocate_cents (PInt n) (weights cs) = Inr shares"
  shows "sum_list (map allocated_cents (run_records run n now cs)) = n"
proof -
  have sh: "shares = split_cents n (map pyval_int (weights cs))" and "length shares = length cs"
    using assms cents.split_length [OF assms] by (auto simp: allocate_iff)
  then have "map snd (zip cs shares) = shares" by simp
  with sh cents.split_total [OF assms] show ?thesis
    by (simp add: run_records_def mk_records_sum)
qed

lemma mk_records_ids:
  "map record_id (mk_records run n now idx zs) = map (run_record_id run) [idx..<idx + length zs]"
  by (rule nth_equalityI) (simp_all add: mk_records_nth)

lemma mk_records_inv:
  "r \<in> set (mk_records run n now idx zs) \<Longrightarrow>
     \<exists>i z. z \<in> set zs \<and> r = mk_record run n now i z"
  by (auto simp only: in_set_conv_nth length_mk_records mk_records_nth) blast

lemma mk_record_hash:
  "l_hash (mk_record run n now i z) = recon_hash (l_run_id (mk_record run n now i z))
     (l_asset_id (mk_record run n now i z)) (revenue_cents (mk_record run n now i z))
     (share_basis_points (mk_record run n now i z)) (allocated_cents (mk_record run n now i z))"
  by (cases z; cases "fst z"; simp)

lemma posted_append: "posted s run \<Longrightarrow> posted (s\<lparr>records := records s @ xs\<rparr>) run"
  by (auto simp: posted_def map_add_def split: option.splits)

lemma ledger_inv_append:
  fixes now :: datetime
  assumes inv: "ledger_inv s" "\<not> posted s run"
    and ok: "allocate_cents (PInt n) (weights cs) = Inr shares"
  defines "new \<equiv> run_records run n now cs"
  shows "ledger_inv (s\<lparr>records := records s @ map (\<lambda>r. (record_id r, r)) new\<rparr>)" (is "ledger_inv ?s'")
    and "posted (s\<lparr>records := records s @ map (\<lambda>r. (record_id r, r)) new\<rparr>) run"
proof -
  from ok have w: "0 \<le> n" "weights_ok (weights cs)" and
    len: "length (split_cents n (map pyval_int (weights cs))) = length cs"
    using cents.split_length [OF ok] by (auto simp: allocate_iff)
  then have "cs \<noteq> []" by (auto simp: weights_ok_def)
  define zs where "zs = zip cs (split_cents n (map pyval_int (weights cs)))"
  have new: "new = mk_records run n now 0 zs" by (simp add: new_def run_records_def zs_def)
  have ids: "map record_id new = map (run_record_id run) [0..<length zs]"
    by (simp add: new mk_records_ids)
  have "zs \<noteq> []" using \<open>cs \<noteq> []\<close> len by (cases cs; cases "split_cents n (map pyval_int (weights cs))")
    (auto simp: zs_def)
  then have "run_record_id run 0 \<in> set (map record_id new)" unfolding ids by auto
  then show p: "posted ?s' run"
    by (auto simp: posted_def map_add_def dget_eq_None comp_def split: option.split)
  have fresh: "run_record_id run i \<notin> set (dkeys (records s))" for i
    using inv_not_posted [OF inv, of i] by (simp add: dget_eq_None)
  have "distinct (dkeys (records s))" using inv(1) by (simp only: ledger_inv_def wf_dict_def)
  moreover have "distinct (map record_id new)"
    unfolding ids by (simp add: distinct_map inj_on_def)
  moreover have "set (dkeys (records s)) \<inter> set (map record_id new) = {}"
  proof (rule ccontr)
    assume "set (dkeys (records s)) \<inter> set (map record_id new) \<noteq> {}"
    then obtain x where x: "x \<in> set (dkeys (records s))"
      "x \<in> set (map (run_record_id run) [0..<length zs])" unfolding ids by blast
    from x(2) obtain i where "x = run_record_id run i" by (auto simp only: set_map)
    with x(1) fresh [of i] show False by blast
  qed
  ultimately have "distinct (dkeys (records s) @ map record_id new)"
    by (simp only: distinct_append)
  then have wf: "wf_dict (records ?s')" by (simp add: wf_dict_def comp_def)
  have each: "\<exists>i. record_id r = run_record_id run i" "l_run_id r = run" "0 \<le> allocated_cents r"
    "l_hash r = recon_hash (l_run_id r) (l_asset_id r) (revenue_cents r) (share_basis_points r)
       (allocated_cents r)" if "r \<in> set new" for r
  proof -
    from that obtain i z where z: "z \<in> set zs" "r = mk_record run n now i z"
      using mk_records_inv unfolding new by blast
    moreover have "share_ok z" using zip_share_ok [OF w] z(1) by (simp add: zs_def)
    ultimately show "\<exists>i. record_id r = run_record_id run i" "l_run_id r = run" "0 \<le> allocated_cents r"
      "l_hash r = recon_hash (l_run_id r) (l_asset_id r) (revenue_cents r) (share_basis_points r)
         (allocated_cents r)"
      using mk_record_hash by (auto simp: share_ok_def split: prod.splits)
  qed
  have keep: "dget (records ?s') k \<noteq> None" if "dget (records s) k \<noteq> None" for k
    using that by (auto simp: map_add_def split: option.split)
  have "\<forall>(k, r)\<in>set (records ?s'). record_id r = k \<and> posted ?s' (l_run_id r)
          \<and> (\<exists>i. k = run_record_id (l_run_id r) i) \<and> 0 \<le> allocated_cents r
          \<and> l_hash r = recon_hash (l_run_id r) (l_asset_id r) (revenue_cents r)
              (share_basis_points r) (allocated_cents r)"
    using inv(1) each p posted_append unfolding ledger_inv_def by fastforce
  moreover have "\<forall>(k, fs)\<in>set (offsets ?s'). dget (records ?s') k \<noteq> None
      \<and> (\<forall>f\<in>set fs. o_record_id f = k)"
    using inv(1) keep unfolding ledger_inv_def by auto
  ultimately show "ledger_inv ?s'"
    using inv(1) wf unfolding ledger_inv_def by simp
qed

subsection \<open>Every operation on the ledger\<close>

datatype ledger_op =
    LPost str pyval "contribution list" datetime
  | LOffset str str pyval str datetime
  | LRefund str int int datetime

fun ledger_step :: "pyenv \<Rightarrow> ledger \<Rightarrow> ledger_op \<Rightarrow> ledger" where
  "ledger_step env s (LPost run v cs now) = snd (post_run env s run v cs now)"
| "ledger_step env s (LOffset oid rid adj reason now) =
     (case apply_dispute_offset env s oid rid adj reason now of Inl _ \<Rightarrow> s | Inr (_, s') \<Rightarrow> s')"
| "ledger_step env s (LRefund rid n d now) =
     (case apply_partial_refund env s rid n d now of Inl _ \<Rightarrow> s | Inr (_, s') \<Rightarrow> s')"

fun ledger_mark :: "pyenv \<Rightarrow> ledger \<Rightarrow> ledger_op \<Rightarrow> str option" where
  "ledger_mark env s (LPost run v cs now) =
     (case fst (post_run env s run v cs now) of Inl _ \<Rightarrow> None | Inr _ \<Rightarrow> Some run)"
| "ledger_mark env s _ = None"

lemma offset_Inr:
  "apply_dispute_offset env s oid rid adj reason now = Inr (f, s') \<longleftrightarrow>
     is_int adj \<and> dget (records s) rid \<noteq> None \<and> length reason \<le> 512
     \<and> f = \<lparr>offset_id = oid, o_record_id = rid, adjustment_cents = pyval_int adj,
            o_reason = reason, o_created_at = now\<rparr>
     \<and> s' = s\<lparr>offsets := dput (offsets s) rid (offsets_of s rid @ [f])\<rparr>"
  by (auto simp: apply_dispute_offset_def andthen_eq_Inr new_dispute_offset_def offsets_of_def)

lemma refund_Inr:
  "apply_partial_refund env s rid n d now = Inr (f, s') \<Longrightarrow>
     \<exists>r q. dget (records s) rid = Some r
       \<and> round_half_even_cents (PInt (allocated_cents r)) (PInt n) (PInt d) = Inr q
       \<and> adjustment_cents f = - q \<and> o_record_id f = rid
       \<and> s' = s\<lparr>offsets := dput (offsets s) rid (offsets_of s rid @ [f])\<rparr>"
  by (auto simp: apply_partial_refund_def andthen_eq_Inr offset_Inr split: option.splits)

lemma offset_inv:
  assumes "ledger_inv s" "dget (records s) rid \<noteq> None" "o_record_id f = rid"
  shows "ledger_inv (s\<lparr>offsets := dput (offsets s) rid (offsets_of s rid @ [f])\<rparr>)" (is "ledger_inv ?s'")
proof -
  have wf: "wf_dict (offsets s)" "wf_dict (offsets ?s')" "records ?s' = records s"
    using assms(1) by (simp_all add: ledger_inv_def)
  have "\<forall>k fs. dget (offsets ?s') k = Some fs \<longrightarrow> dget (records s) k \<noteq> None \<and> (\<forall>f\<in>set fs. o_record_id f = k)"
  proof (intro allI impI)
    fix k fs assume fs: "dget (offsets ?s') k = Some fs"
    have old: "dget (records s) k \<noteq> None \<and> (\<forall>f\<in>set fs. o_record_id f = k)"
      if "dget (offsets s) k = Some fs" for fs
      using that assms(1) dget_Some_iff [OF wf(1)] unfolding ledger_inv_def by blast
    show "dget (records s) k \<noteq> None \<and> (\<forall>f\<in>set fs. o_record_id f = k)"
    proof (cases "k = rid")
      case True
      with fs have "fs = offsets_of s rid @ [f]" by (simp add: dget_dput)
      moreover have "\<forall>f\<in>set (offsets_of s rid). o_record_id f = rid"
        using old [unfolded True] by (cases "dget (offsets s) rid") (auto simp: offsets_of_def)
      ultimately show ?thesis using assms(2,3) True by auto
    next
      case False
      with fs old show ?thesis by (simp add: dget_dput)
    qed
  qed
  then have "\<forall>(k, fs)\<in>set (offsets ?s'). dget (records ?s') k \<noteq> None \<and> (\<forall>f\<in>set fs. o_record_id f = k)"
    unfolding wf(3) using dget_Some_iff [OF wf(2)] by blast
  with assms(1) wf show ?thesis by (simp add: ledger_inv_def posted_def)
qed

lemma step_offsets_cases:
  "(case opn of LPost run v cs now \<Rightarrow> False | _ \<Rightarrow> True) \<Longrightarrow>
     ledger_step env s opn = s \<or>
     (\<exists>rid f. dget (records s) rid \<noteq> None \<and> o_record_id f = rid
        \<and> ledger_step env s opn = s\<lparr>offsets := dput (offsets s) rid (offsets_of s rid @ [f])\<rparr>)"
proof (cases opn)
  case (LOffset oid rid adj reason now)
  show ?thesis
  proof (cases "apply_dispute_offset env s oid rid adj reason now")
    case (Inr p)
    then obtain f s' where "apply_dispute_offset env s oid rid adj reason now = Inr (f, s')"
      by (cases p) auto
    from this this [unfolded offset_Inr] show ?thesis
      by (intro disjI2 exI [of _ rid] exI [of _ f]) (simp add: LOffset)
  qed (simp add: LOffset)
next
  case (LRefund rid n d now)
  show ?thesis
  proof (cases "apply_partial_refund env s rid n d now")
    case (Inr p)
    then obtain f s' where "apply_partial_refund env s rid n d now = Inr (f, s')"
      by (cases p) auto
    from this refund_Inr [OF this] show ?thesis
      by (intro disjI2 exI [of _ rid] exI [of _ f]) (auto simp: LRefund)
  qed (simp add: LRefund)
qed simp

text \<open>
  What one step does to the records: nothing, or it appends one whole run that was not posted
  before, whose records add up to the run's revenue.
\<close>

lemma ledger_step_records:
  assumes "ledger_inv s"
  shows "ledger_inv (ledger_step env s opn) \<and>
    (records (ledger_step env s opn) = records s \<and> ledger_mark env s opn = None
     \<or> (\<exists>run n cs now shares. opn = LPost run (PInt n) cs now \<and> \<not> posted s run
          \<and> allocate_cents (PInt n) (weights cs) = Inr shares
          \<and> ledger_mark env s opn = Some run
          \<and> records (ledger_step env s opn) =
              records s @ map (\<lambda>r. (record_id r, r)) (run_records run n now cs)
          \<and> posted (ledger_step env s opn) run))"
proof (cases opn)
  case (LPost run v cs now)
  show ?thesis
  proof (cases "allocate_cents v (weights cs)")
    case (Inl e)
    then show ?thesis using assms by (simp add: LPost post_run_cases)
  next
    case (Inr shares)
    then obtain n where v: "v = PInt n" by (auto simp: allocate_iff)
    show ?thesis
    proof (cases "posted s run")
      case True
      then show ?thesis using assms Inr by (simp add: LPost post_run_cases)
    next
      case False
      from ledger_inv_append [OF assms False Inr [unfolded v], of now] False Inr v show ?thesis
        by (simp add: LPost post_run_cases [OF assms])
    qed
  qed
next
  case (LOffset oid rid adj reason now)
  with step_offsets_cases [of opn env s] assms offset_inv [of s] show ?thesis by auto
next
  case (LRefund rid n d now)
  with step_offsets_cases [of opn env s] assms offset_inv [of s] show ?thesis by auto
qed

subsection \<open>Runs of the ledger\<close>

definition run_slice :: "ledger \<Rightarrow> str \<Rightarrow> ledger_record list" where
  "run_slice s run = filter (\<lambda>r. l_run_id r = run) (dvals (records s))"

lemma run_slice_empty: "ledger_inv s \<Longrightarrow> \<not> posted s run \<Longrightarrow> run_slice s run = []"
  by (auto simp: run_slice_def ledger_inv_def filter_empty_conv)

lemma run_records_run: "r \<in> set (run_records run n now cs) \<Longrightarrow> l_run_id r = run"
  by (auto simp: run_records_def dest: mk_records_run)

lemma run_slice_append:
  "records s' = records s @ map (\<lambda>r. (record_id r, r)) (run_records run' n now cs) \<Longrightarrow>
     run_slice s' run = run_slice s run @ (if run = run' then run_records run' n now cs else [])"
  by (auto simp: run_slice_def comp_def filter_empty_conv filter_id_conv dest: run_records_run)

lemma posted_step: "ledger_inv s \<Longrightarrow> posted s run \<Longrightarrow> posted (ledger_step env s opn) run"
  using ledger_step_records [of s env opn]
  by (auto simp: posted_def map_add_def split: option.splits)

lemma slice_step:
  "ledger_inv s \<Longrightarrow> posted s run \<Longrightarrow> run_slice (ledger_step env s opn) run = run_slice s run"
  using ledger_step_records [of s env opn]
  by (auto simp: run_slice_append) (auto simp: run_slice_def)

lemma ledger_run_slice:
  "ledger_inv s \<Longrightarrow> posted s run \<Longrightarrow>
     run_slice (foldl (ledger_step env) s opns) run = run_slice s run
     \<and> posted (foldl (ledger_step env) s opns) run"
proof (induction opns arbitrary: s)
  case (Cons opn opns)
  have "ledger_inv (ledger_step env s opn)" using ledger_step_records [OF Cons.prems(1)] by blast
  with Cons.IH [OF this posted_step [OF Cons.prems]] slice_step [OF Cons.prems] show ?case by simp
qed simp

interpretation runs: single_use "ledger_step env" "ledger_mark env" "\<lambda>s. {run. posted s run}" ledger_inv
proof unfold_locales
  fix s opn assume inv: "ledger_inv s"
  note step = ledger_step_records [OF inv, of env opn]
  from step show "ledger_inv (ledger_step env s opn)" ..
  show "{run. posted s run} \<subseteq> {run. posted (ledger_step env s opn) run}"
    using posted_step [OF inv] by blast
  fix m assume "ledger_mark env s opn = Some m"
  with step show "m \<notin> {run. posted s run} \<and> m \<in> {run. posted (ledger_step env s opn) run}"
    by auto
qed

text \<open>The revenue of the runs that a history posts, and what the ledger holds.\<close>

definition ledger_total :: "ledger \<Rightarrow> int" where
  "ledger_total s = sum_list (map allocated_cents (dvals (records s)))"

definition op_revenue :: "pyenv \<Rightarrow> ledger \<Rightarrow> ledger_op \<Rightarrow> int" where
  "op_revenue env s opn =
     (case (opn, ledger_mark env s opn) of (LPost run v cs now, Some _) \<Rightarrow> pyval_int v | _ \<Rightarrow> 0)"

fun revenue_posted :: "pyenv \<Rightarrow> ledger \<Rightarrow> ledger_op list \<Rightarrow> int" where
  "revenue_posted env s [] = 0"
| "revenue_posted env s (opn # opns) =
     op_revenue env s opn + revenue_posted env (ledger_step env s opn) opns"

lemma ledger_total_step:
  assumes "ledger_inv s"
  shows "ledger_total (ledger_step env s opn) = ledger_total s + op_revenue env s opn"
proof -
  from ledger_step_records [OF assms, of env opn] show ?thesis
  proof (elim conjE disjE exE)
    assume "records (ledger_step env s opn) = records s" "ledger_mark env s opn = None"
    then show ?thesis by (simp add: ledger_total_def op_revenue_def split: ledger_op.split)
  next
    fix run n cs now shares
    assume new: "opn = LPost run (PInt n) cs now" "ledger_mark env s opn = Some run"
      "records (ledger_step env s opn) =
         records s @ map (\<lambda>r. (record_id r, r)) (run_records run n now cs)"
      and ok: "allocate_cents (PInt n) (weights cs) = Inr shares"
    have "op_revenue env s opn = n" unfolding op_revenue_def using new(1,2) by simp
    with new(3) run_records_sum [OF ok, of run now] show ?thesis
      by (simp add: ledger_total_def comp_def)
  qed
qed

lemma ledger_total_run:
  "ledger_inv s \<Longrightarrow>
     ledger_total (foldl (ledger_step env) s opns) = ledger_total s + revenue_posted env s opns"
proof (induction opns arbitrary: s)
  case (Cons opn opns)
  from Cons.IH [OF runs.inv_step [OF Cons.prems, of env opn]] ledger_total_step [OF Cons.prems, of env opn]
  show ?case by simp
qed simp

subsection \<open>Replay\<close>

lemma records_for_run_slice:
  assumes "run_slice s run = run_records run n now cs" "length cs \<le> 10000"
  shows "records_for_run s run = run_records run n now cs"
proof -
  define zs where "zs = zip cs (split_cents n (map pyval_int (weights cs)))"
  have "length zs \<le> 10000" using assms(2) by (simp add: zs_def)
  then have "sorted (map record_id (run_records run n now cs))"
    unfolding run_records_def zs_def [symmetric] mk_records_ids
    by (auto simp: sorted_iff_nth_mono_less intro!: less_imp_le run_record_id_mono)
  with assms(1) show ?thesis
    by (simp add: records_for_run_def run_slice_def sort_key_id_if_sorted)
qed

lemma replay_loop_eq:
  assumes "0 \<le> n" "\<forall>z\<in>set zs. share_ok z" "idx + length zs \<le> length expected"
    and "\<forall>i<length zs. created_at (expected ! (idx + i)) = now"
  shows "replay_loop run n expected idx zs = Inr (mk_records run n now idx zs)"
  using assms
proof (induction zs arbitrary: idx)
  case (Cons z zs)
  obtain c x where z: "z = (c, x)" by (cases z)
  have "created_at (expected ! idx) = now" using Cons.prems(4) by force
  moreover have "replay_loop run n expected (Suc idx) zs = Inr (mk_records run n now (Suc idx) zs)"
    using Cons.prems by (intro Cons.IH) auto
  ultimately show ?case using Cons.prems by (simp add: z build_record_eq)
qed simp

text \<open>Records compared with themselves: what is left is that each of them can be serialised.\<close>

fun dump_each :: "(ledger_record \<Rightarrow> exn + str) \<Rightarrow> ledger_record list \<Rightarrow> exn + unit" where
  "dump_each dump [] = Inr ()"
| "dump_each dump (r # rs) = andthen (dump r) (\<lambda>_. dump_each dump rs)"

lemma compare_loop_same: "compare_loop dump rs rs = dump_each dump rs"
proof (induction rs)
  case (Cons r rs)
  then show ?case by (cases "dump r") simp_all
qed simp

lemma dump_each_defined: "(\<And>r. r \<in> set rs \<Longrightarrow> \<exists>t. dump r = Inr t) \<Longrightarrow> dump_each dump rs = Inr ()"
proof (induction rs)
  case (Cons r rs)
  then obtain t where "dump r = Inr t" by auto
  with Cons show ?case by simp
qed simp

lemma replay_slice:
  assumes "run_slice s run = run_records run n now cs" "length cs \<le> 10000"
    and "allocate_cents (PInt n) (weights cs) = Inr shares"
  shows "replay_run dump s run (PInt n) cs =
    andthen (dump_each dump (run_records run n now cs)) (\<lambda>_. Inr (run_records run n now cs))"
proof -
  from assms(3) have ok: "0 \<le> n" "weights_ok (weights cs)"
    and sh: "shares = split_cents n (map pyval_int (weights cs))" and len: "length shares = length cs"
    using cents.split_length [OF assms(3)] by (auto simp: allocate_iff)
  note exp = records_for_run_slice [OF assms(1,2)]
  have "replay_loop run n (run_records run n now cs) 0 (zip cs shares) = Inr (run_records run n now cs)"
    unfolding run_records_def sh [symmetric] using zip_share_ok [OF ok] ok(1)
    by (intro replay_loop_eq) (auto simp: sh mk_records_nth)
  with assms(3) show ?thesis by (simp add: replay_run_def exp compare_loop_same Let_def)
qed

text \<open>
  What a JSON text of a record holds: an object with the record's ids, amounts and hash under their
  names (and the time, in a form that is not looked at).
\<close>

definition record_fields :: "ledger_record \<Rightarrow> (str \<times> json) list" where
  "record_fields r =
     [(lit ''record_id'', JStr (record_id r)), (lit ''run_id'', JStr (l_run_id r)),
      (lit ''asset_id'', JStr (l_asset_id r)), (lit ''custodian_id'', JStr (l_custodian_id r)),
      (lit ''revenue_cents'', JInt (revenue_cents r)), (lit ''share_basis_points'', JInt (share_basis_points r)),
      (lit ''allocated_cents'', JInt (allocated_cents r)), (lit ''reconciliation_hash'', JStr (l_hash r))]"

definition writes_fields :: "(ledger_record \<Rightarrow> exn + str) \<Rightarrow> bool" where
  "writes_fields dump \<longleftrightarrow>
     (\<forall>r t. dump r = Inr t \<longrightarrow>
        (\<exists>kvs. loads t = Inr (JObj kvs) \<and> (\<forall>(k, v)\<in>set (record_fields r). dget kvs k = Some v)))"

lemma same_dump:
  assumes "writes_fields dump" "dump g = Inr t" "dump w = Inr t" "created_at g = created_at w"
  shows "g = w"
proof -
  obtain kvs where t: "loads t = Inr (JObj kvs)" and g: "\<forall>(k, v)\<in>set (record_fields g). dget kvs k = Some v"
    using assms(1,2) unfolding writes_fields_def by blast
  obtain kvs' where "loads t = Inr (JObj kvs')" "\<forall>(k, v)\<in>set (record_fields w). dget kvs' k = Some v"
    using assms(1,3) unfolding writes_fields_def by blast
  with t g have kvs: "\<forall>(k, v)\<in>set (record_fields g). dget kvs k = Some v" "\<forall>(k, v)\<in>set (record_fields w). dget kvs k = Some v"
    by simp_all
  then show ?thesis using assms(4) by (intro ledger_record.equality) (simp_all add: record_fields_def)
qed

lemma compare_loop_sound:
  assumes "writes_fields dump"
  shows "compare_loop dump gs ws = Inr () \<Longrightarrow>
    \<forall>i<length gs. i < length ws \<longrightarrow> created_at (gs ! i) = created_at (ws ! i) \<Longrightarrow> gs = ws"
proof (induction gs arbitrary: ws)
  case Nil
  then show ?case by (cases ws) simp_all
next
  case (Cons g gs)
  then obtain w ws' where ws: "ws = w # ws'" by (cases ws) simp_all
  with Cons.prems obtain t where t: "dump g = Inr t" "dump w = Inr t" and rest: "compare_loop dump gs ws' = Inr ()"
    by (auto simp: andthen_eq_Inr split: if_splits)
  have at: "created_at ((g # gs) ! i) = created_at ((w # ws') ! i)" if "i < length (g # gs)" "i < length (w # ws')" for i
    using Cons.prems(2) that ws by blast
  have "g = w" using same_dump [OF assms t] at [of 0] by simp
  moreover have "gs = ws'" using at [of "Suc _"] by (intro Cons.IH rest) simp
  ultimately show ?case by (simp add: ws)
qed

lemma replay_loop_built:
  "replay_loop run n expected idx zs = Inr rs \<Longrightarrow>
     length rs = length zs
     \<and> (\<forall>i<length zs. build_record run n (idx + i) (fst (zs ! i)) (snd (zs ! i)) (created_at (expected ! (idx + i))) = Inr (rs ! i))"
proof (induction zs arbitrary: idx rs)
  case (Cons z zs)
  obtain c x where z: "z = (c, x)" by (cases z)
  from Cons.prems obtain r rs' where r: "build_record run n idx c x (created_at (expected ! idx)) = Inr r"
    and rs': "replay_loop run n expected (Suc idx) zs = Inr rs'" "rs = r # rs'"
    by (auto simp: z andthen_eq_Inr split: if_splits)
  from Cons.IH [OF rs'(1)] r rs'(2) z show ?case by (auto simp: nth_Cons split: nat.split)
qed simp

lemma build_record_fields:
  "build_record run n idx c x now = Inr r \<Longrightarrow>
     record_id r = run_record_id run idx \<and> allocated_cents r = x \<and> created_at r = now"
  by (cases c) (auto simp: build_record_def andthen_eq_Inr new_ledger_record_def split: if_splits)

lemma replay_run_sound:
  assumes "writes_fields dump" "replay_run dump s run v cs = Inr rs"
  shows "rs = records_for_run s run \<and> (\<exists>n shares. v = PInt n \<and> allocate_cents v (weights cs) = Inr shares
    \<and> map allocated_cents rs = shares \<and> length rs = length cs
    \<and> (\<forall>i<length cs. build_record run n i (cs ! i) (shares ! i) (created_at (rs ! i)) = Inr (rs ! i)))"
proof -
  let ?exp = "records_for_run s run"
  from assms(2) obtain shares where sh: "allocate_cents v (weights cs) = Inr shares"
    and loop: "replay_loop run (pyval_int v) ?exp 0 (zip cs shares) = Inr rs" and cmp: "compare_loop dump rs ?exp = Inr ()"
    by (auto simp: replay_run_def Let_def andthen_eq_Inr)
  obtain n where n: "v = PInt n" using sh by (auto simp: allocate_iff)
  have len: "length shares = length cs" using cents.split_length [OF sh] by simp
  note built = replay_loop_built [OF loop]
  have each: "build_record run n i (cs ! i) (shares ! i) (created_at (?exp ! i)) = Inr (rs ! i)" if "i < length cs" for i
    using built that len n by simp
  note fields = build_record_fields [OF each]
  have "\<forall>i<length rs. i < length ?exp \<longrightarrow> created_at (rs ! i) = created_at (?exp ! i)"
    using built len fields by simp
  with compare_loop_sound [OF assms(1) cmp] have same: "rs = ?exp" by blast
  have "map allocated_cents rs = shares"
    using built len fields by (intro nth_equalityI) simp_all
  with same n sh built len each show ?thesis by auto
qed

subsection \<open>Statements\<close>

definition adjustments :: "ledger \<Rightarrow> ledger_record \<Rightarrow> int" where
  "adjustments s r = sum_list (map adjustment_cents (offsets_of s (record_id r)))"

lemma foldl_add: "foldl (\<lambda>t x. t + f x) (a::int) xs = a + sum_list (map f xs)"
  by (induction xs arbitrary: a) auto

lemma net_for_record_eq:
  "dget (records s) rid = Some r \<Longrightarrow> record_id r = rid \<Longrightarrow>
     net_for_record s rid = Inr (allocated_cents r + adjustments s r)"
  by (simp add: net_for_record_def adjustments_def foldl_add)

lemma statement_eq:
  "statement_for_custodian s cust =
     (let rs = filter (\<lambda>r. l_custodian_id r = cust) (dvals (records s));
          g = sum_list (map allocated_cents rs); a = sum_list (map (adjustments s) rs)
      in (g, a, g + a))"
proof -
  let ?f = "\<lambda>(g, a) r. if l_custodian_id r \<noteq> cust then (g, a)
     else (g + allocated_cents r, foldl (\<lambda>t f. t + adjustment_cents f) a (offsets_of s (record_id r)))"
  have "foldl ?f (g, a) rs = (g + sum_list (map allocated_cents (filter (\<lambda>r. l_custodian_id r = cust) rs)),
      a + sum_list (map (adjustments s) (filter (\<lambda>r. l_custodian_id r = cust) rs)))" for g a rs
    by (induction rs arbitrary: g a) (auto simp: foldl_add adjustments_def)
  then show ?thesis by (simp add: statement_for_custodian_def Let_def)
qed

lemma sum_by_key:
  assumes "distinct ks" "\<forall>x\<in>set xs. key x \<in> set ks"
  shows "sum_list (map (\<lambda>k. sum_list (map f (filter (\<lambda>x. key x = k) xs))) ks) = (sum_list (map f xs) :: int)"
  using assms(2)
proof (induction xs)
  case (Cons x xs)
  have "sum_list (map (\<lambda>k. sum_list (map f (filter (\<lambda>y. key y = k) (x # xs)))) ks) =
      sum_list (map (\<lambda>k. (if key x = k then f x else 0) + sum_list (map f (filter (\<lambda>y. key y = k) xs))) ks)"
    by (rule arg_cong [where f = sum_list]) auto
  also have "\<dots> = sum_list (map (\<lambda>k. if key x = k then f x else 0) ks) + sum_list (map f xs)"
    using Cons by (simp add: sum_list_addf)
  also have "sum_list (map (\<lambda>k. if key x = k then f x else 0) ks) = f x"
    using assms(1) Cons.prems by (simp add: sum_list_distinct_conv_sum_set)
  finally show ?case by simp
qed simp

lemma statements_cover:
  assumes "distinct custs" "\<forall>r\<in>set (dvals (records s)). l_custodian_id r \<in> set custs"
  shows "sum_list (map (\<lambda>c. fst (statement_for_custodian s c)) custs) = ledger_total s"
  using sum_by_key [OF assms, where f = allocated_cents]
  by (simp add: statement_eq Let_def ledger_total_def)

text \<open>A run that was posted, laid out.\<close>

lemma posted_run:
  assumes "ledger_inv s" "post_run env s run v cs now = (Inr recs, s')"
  obtains n shares where "v = PInt n" "allocate_cents (PInt n) (weights cs) = Inr shares"
    "recs = run_records run n now cs" "ledger_inv s'" "\<not> posted s run" "posted s' run" "run_slice s' run = recs"
    "s' = s\<lparr>records := records s @ map (\<lambda>r. (record_id r, r)) recs\<rparr>"
proof -
  from assms(2) post_run_cases [OF assms(1), of env run v cs now] obtain shares where
    sh: "allocate_cents v (weights cs) = Inr shares" and new: "\<not> posted s run"
    and recs: "recs = run_records run (pyval_int v) now cs"
    and s': "s' = s\<lparr>records := records s @ map (\<lambda>r. (record_id r, r)) recs\<rparr>"
    by (auto split: sum.splits if_splits)
  from sh obtain n where v: "v = PInt n" by (auto simp: allocate_iff)
  have step: "ledger_step env s (LPost run v cs now) = s'" "ledger_mark env s (LPost run v cs now) = Some run"
    using assms(2) by simp_all
  with ledger_step_records [OF assms(1), of env "LPost run v cs now"]
  have "ledger_inv s'" "posted s' run" by auto
  moreover have "run_slice s' run = recs"
    using run_slice_append [of s' s run n now cs run] run_slice_empty [OF assms(1) new] recs v s' by simp
  ultimately show ?thesis using that v sh recs new s' by simp
qed

end
