(* ===== verification/Connectors.thy ===== *)
theory Connectors
  imports AssetStore
begin

text \<open>
  \<open>src/connectors/registry.py\<close>: external connectors and their quarantine. The registry's
  lock makes every method one atomic step. \<open>get\<close>, \<open>register\<close>, \<open>acknowledge\<close> and
  \<open>reactivate\<close> return the live object in Python; the model returns its value.
\<close>

datatype connector_state = ACTIVE | QUARANTINED | ACKNOWLEDGED

fun connector_state_value :: "connector_state \<Rightarrow> str" where
  "connector_state_value ACTIVE = lit ''Active''"
| "connector_state_value QUARANTINED = lit ''Quarantined''"
| "connector_state_value ACKNOWLEDGED = lit ''Acknowledged''"

record connector =
  connector_id :: str
  cstate :: connector_state
  quarantined_assets :: "str set"
  last_revocation_ns :: "int option"

definition new_connector :: "str \<Rightarrow> connector" where
  "new_connector i =
     \<lparr>connector_id = i, cstate = ACTIVE, quarantined_assets = {}, last_revocation_ns = None\<rparr>"

definition can_serve :: "connector \<Rightarrow> str \<Rightarrow> bool" where
  "can_serve c k \<longleftrightarrow> cstate c = ACTIVE \<and> k \<notin> quarantined_assets c"

type_synonym registry = "(str, connector) dict"

definition new_registry :: registry where
  "new_registry = []"

definition register_connector :: "pyenv \<Rightarrow> registry \<Rightarrow> str \<Rightarrow> exn + (connector \<times> registry)" where
  "register_connector env r i =
     (case dget r i of
        Some _ \<Rightarrow> Inl (ValueError (lit ''connector '' @ py_repr env i @ lit '' already registered''))
      | None \<Rightarrow> Inr (new_connector i, dput r i (new_connector i)))"

definition get_connector :: "registry \<Rightarrow> str \<Rightarrow> exn + connector" where
  "get_connector r i = (case dget r i of None \<Rightarrow> Inl (KeyError i) | Some c \<Rightarrow> Inr c)"

definition connector_ids :: "registry \<Rightarrow> str list" where
  "connector_ids r = sort (dkeys r)"

definition quarantine_one :: "str \<Rightarrow> int \<Rightarrow> connector \<Rightarrow> connector" where
  "quarantine_one k ns c =
     c\<lparr>cstate := QUARANTINED, quarantined_assets := insert k (quarantined_assets c),
       last_revocation_ns := Some ns\<rparr>"

definition quarantine :: "str \<Rightarrow> int \<Rightarrow> registry \<Rightarrow> registry" where
  "quarantine k ns r = map (\<lambda>(i, c). (i, quarantine_one k ns c)) r"

definition acknowledge :: "registry \<Rightarrow> str \<Rightarrow> exn + (connector \<times> registry)" where
  "acknowledge r i =
     (case dget r i of
        None \<Rightarrow> Inl (KeyError i)
      | Some c \<Rightarrow>
          (let c' = c\<lparr>cstate := ACKNOWLEDGED, quarantined_assets := {}\<rparr>
           in Inr (c', dput r i c')))"

definition reactivate :: "registry \<Rightarrow> str \<Rightarrow> exn + (connector \<times> registry)" where
  "reactivate r i =
     (case dget r i of
        None \<Rightarrow> Inl (KeyError i)
      | Some c \<Rightarrow>
          if quarantined_assets c \<noteq> {}
          then Inl (ValueError (lit ''cannot reactivate with pending quarantined assets''))
          else (let c' = c\<lparr>cstate := ACTIVE\<rparr> in Inr (c', dput r i c')))"

subsection \<open>The registry's invariant\<close>

text \<open>
  Keys are the connectors' own ids, and a connector is in the state \<open>Quarantined\<close> exactly
  when it has quarantined assets: the two tests of \<open>can_serve\<close> never disagree on that.
\<close>

definition connector_inv :: "str \<Rightarrow> connector \<Rightarrow> bool" where
  "connector_inv i c \<longleftrightarrow>
     connector_id c = i
     \<and> (cstate c = QUARANTINED \<longleftrightarrow> quarantined_assets c \<noteq> {})
     \<and> (cstate c = QUARANTINED \<longrightarrow> last_revocation_ns c \<noteq> None)"

definition registry_inv :: "registry \<Rightarrow> bool" where
  "registry_inv r \<longleftrightarrow> wf_dict r \<and> (\<forall>i c. dget r i = Some c \<longrightarrow> connector_inv i c)"

lemma dget_quarantine: "dget (quarantine k ns r) i = map_option (quarantine_one k ns) (dget r i)"
  by (simp add: quarantine_def map_of_map)

lemma dkeys_quarantine: "dkeys (quarantine k ns r) = dkeys r"
  by (induction r) (auto simp: quarantine_def)

lemma registry_inv_Nil: "registry_inv []"
  by (simp add: registry_inv_def)

lemma registry_inv_dput: "registry_inv r \<Longrightarrow> connector_inv i c \<Longrightarrow> registry_inv (dput r i c)"
  by (simp add: registry_inv_def dget_dput)

lemma registry_inv_register:
  "registry_inv r \<Longrightarrow> register_connector env r i = Inr (c, r') \<Longrightarrow> registry_inv r'"
  by (auto simp: register_connector_def new_connector_def connector_inv_def
      split: option.splits intro: registry_inv_dput)

lemma registry_inv_quarantine: "registry_inv r \<Longrightarrow> registry_inv (quarantine k ns r)"
  by (auto simp: registry_inv_def dget_quarantine wf_dict_def dkeys_quarantine quarantine_one_def
      connector_inv_def)

lemma registry_inv_acknowledge:
  "registry_inv r \<Longrightarrow> acknowledge r i = Inr (c, r') \<Longrightarrow> registry_inv r'"
  by (auto simp: acknowledge_def Let_def split: option.splits intro!: registry_inv_dput)
     (simp add: registry_inv_def connector_inv_def)

lemma registry_inv_reactivate:
  "registry_inv r \<Longrightarrow> reactivate r i = Inr (c, r') \<Longrightarrow> registry_inv r'"
  by (auto simp: reactivate_def Let_def split: option.splits if_splits intro!: registry_inv_dput)
     (simp add: registry_inv_def connector_inv_def)

subsection \<open>Quarantine\<close>

text \<open>After a quarantine no registered connector serves anything, the asset least of all.\<close>

lemma quarantine_stops_all:
  "dget (quarantine k ns r) i = Some c \<Longrightarrow>
     \<not> can_serve c k' \<and> k \<in> quarantined_assets c \<and> cstate c = QUARANTINED
     \<and> last_revocation_ns c = Some ns"
  by (auto simp: dget_quarantine quarantine_one_def can_serve_def)

text \<open>The steps of a connector's life after registration, by connector id.\<close>

datatype registry_op =
    OpRegisterConnector str | OpQuarantine str int | OpAcknowledge str | OpReactivate str

fun registry_step :: "pyenv \<Rightarrow> registry \<Rightarrow> registry_op \<Rightarrow> registry" where
  "registry_step env r (OpRegisterConnector i) =
     (case register_connector env r i of Inl _ \<Rightarrow> r | Inr (_, r') \<Rightarrow> r')"
| "registry_step env r (OpQuarantine k ns) = quarantine k ns r"
| "registry_step env r (OpAcknowledge i) = (case acknowledge r i of Inl _ \<Rightarrow> r | Inr (_, r') \<Rightarrow> r')"
| "registry_step env r (OpReactivate i) = (case reactivate r i of Inl _ \<Rightarrow> r | Inr (_, r') \<Rightarrow> r')"

lemma registry_inv_step: "registry_inv r \<Longrightarrow> registry_inv (registry_step env r opn)"
  by (cases opn)
     (auto split: sum.split intro: registry_inv_register registry_inv_quarantine
        registry_inv_acknowledge registry_inv_reactivate)

text \<open>
  A quarantined connector serves the asset again only through an acknowledgement of that
  very connector: without one, no sequence of other operations lifts the quarantine.
\<close>

definition holds_quarantine :: "registry \<Rightarrow> str \<Rightarrow> str \<Rightarrow> bool" where
  "holds_quarantine r i k \<longleftrightarrow>
     (\<exists>c. dget r i = Some c \<and> cstate c = QUARANTINED \<and> k \<in> quarantined_assets c)"

lemma holds_quarantine_step:
  assumes "holds_quarantine r i k" "opn \<noteq> OpAcknowledge i"
  shows "holds_quarantine (registry_step env r opn) i k"
  using assms
  by (cases opn)
     (auto simp: holds_quarantine_def register_connector_def acknowledge_def reactivate_def
        dget_dput dget_quarantine quarantine_one_def Let_def split: option.split if_split)

lemma holds_quarantine_run:
  assumes "holds_quarantine r i k" "OpAcknowledge i \<notin> set opns"
  shows "holds_quarantine (foldl (registry_step env) r opns) i k"
  using assms by (induction opns arbitrary: r) (auto simp: holds_quarantine_step)

lemma holds_quarantine_not_served:
  "holds_quarantine r i k \<Longrightarrow> dget r i = Some c \<Longrightarrow> \<not> can_serve c k'"
  by (auto simp: holds_quarantine_def can_serve_def)

subsection \<open>The listener that the store calls\<close>

text \<open>
  \<open>store.add_revocation_listener(registry.quarantine)\<close>: a withdrawal then quarantines every
  registered connector before it returns.
\<close>

lemma notify_quarantine:
  assumes "quarantine \<in> set ls" and "set ls \<subseteq> {quarantine}"
    and "dget (notify ls k ns r) i = Some c"
  shows "k \<in> quarantined_assets c \<and> cstate c = QUARANTINED"
  using assms
proof (induction ls rule: rev_induct)
  case (snoc l ls)
  then have "dget (quarantine k ns (notify ls k ns r)) i = Some c"
    by (simp add: notify_def)
  from quarantine_stops_all [OF this] show ?case by blast
qed simp

lemma withdraw_quarantines:
  assumes "withdraw s k ns r = Inr (a, s', r')" and "listeners s = [quarantine]"
  shows "r' = quarantine k ns r"
  using assms by (auto simp: withdraw_def Let_def notify_def split: option.splits)

end
