(* ===== verification/Discovery.thy ===== *)
theory Discovery
  imports AssetStore
begin

text \<open>
  \<open>src/discovery/catalog.py\<close>: the tenant-scoped search over the store. The loop asks the
  store for each id; the store's \<open>get\<close> raises for an unknown id, which the model keeps.
\<close>

definition search_keeps :: "str \<Rightarrow> str option \<Rightarrow> bool \<Rightarrow> asset \<Rightarrow> bool" where
  "search_keeps tenant action include_withdrawn a \<longleftrightarrow>
     tenant_id a = tenant
     \<and> \<not> (withdrawn a \<and> \<not> include_withdrawn)
     \<and> (case action of
          None \<Rightarrow> True
        | Some act \<Rightarrow> \<not> (usage_constraints a \<noteq> [] \<and> act \<notin> set (usage_constraints a)))"

fun search_loop ::
    "'s asset_store \<Rightarrow> str \<Rightarrow> str option \<Rightarrow> bool \<Rightarrow> str list \<Rightarrow> asset list \<Rightarrow> exn + asset list" where
  "search_loop s tenant action iw [] results = Inr results"
| "search_loop s tenant action iw (k # ks) results =
     (case get_asset s k of
        Inl e \<Rightarrow> Inl e
      | Inr a \<Rightarrow>
          search_loop s tenant action iw ks
            (if search_keeps tenant action iw a then results @ [a] else results))"

definition search :: "'s asset_store \<Rightarrow> str \<Rightarrow> str option \<Rightarrow> bool \<Rightarrow> exn + asset list" where
  "search s tenant action include_withdrawn =
     andthen (search_loop s tenant action include_withdrawn (asset_ids s) [])
       (\<lambda>results. Inr (sort_key asset_id results))"

subsection \<open>What the search returns\<close>

lemma search_loop_Inr:
  assumes "\<forall>k\<in>set ks. dget (assets s) k \<noteq> None"
  shows "search_loop s tenant action iw ks results =
     Inr (results @ filter (search_keeps tenant action iw) (map (\<lambda>k. the (dget (assets s) k)) ks))"
  using assms by (induction ks arbitrary: results) (auto simp: get_asset_def)

text \<open>
  The result is the assets that the tenant may see for the action, each once, in the order
  of their ids: the filter of the sorted catalog.
\<close>

definition catalog :: "'s asset_store \<Rightarrow> asset list" where
  "catalog s = map (\<lambda>k. the (dget (assets s) k)) (asset_ids s)"

lemma catalog_ids:
  assumes "store_inv s" shows "map asset_id (catalog s) = asset_ids s"
proof -
  have "asset_id (the (dget (assets s) k)) = k" if "k \<in> set (asset_ids s)" for k
    using that assms dget_eq_None [of "assets s" k]
    by (auto simp: set_asset_ids store_inv_def)
  then show ?thesis by (simp add: catalog_def comp_def map_idI)
qed

lemma set_catalog:
  assumes "store_inv s" shows "set (catalog s) = set (dvals (assets s))"
proof -
  have d: "wf_dict (assets s)" using assms by (simp add: store_inv_def)
  have "set (catalog s) = (\<lambda>k. the (dget (assets s) k)) ` set (dkeys (assets s))"
    by (simp add: catalog_def set_asset_ids)
  also have "\<dots> = set (dvals (assets s))"
    using d by (auto simp: wf_dict_def image_iff) force+
  finally show ?thesis .
qed

lemma search_eq:
  assumes "store_inv s"
  shows "search s tenant action iw = Inr (filter (search_keeps tenant action iw) (catalog s))"
proof -
  have "\<forall>k\<in>set (asset_ids s). dget (assets s) k \<noteq> None"
    by (auto simp: set_asset_ids dget_eq_None)
  then have "search s tenant action iw =
      Inr (sort_key asset_id (filter (search_keeps tenant action iw) (catalog s)))"
    by (simp add: search_def search_loop_Inr catalog_def)
  moreover have "sorted (map asset_id (catalog s))"
    using catalog_ids [OF assms] asset_ids_sorted [of s] by simp
  then have "sort_key asset_id (filter (search_keeps tenant action iw) (catalog s))
      = filter (search_keeps tenant action iw) (catalog s)"
    by (simp add: sort_key_id_if_sorted sorted_filter)
  ultimately show ?thesis by simp
qed

lemma search_sound:
  assumes "store_inv s" "search s tenant action iw = Inr as"
  shows "a \<in> set as \<longleftrightarrow> get_asset s (asset_id a) = Inr a \<and> search_keeps tenant action iw a"
proof -
  have "a \<in> set (dvals (assets s)) \<longleftrightarrow> dget (assets s) (asset_id a) = Some a"
  proof
    assume "a \<in> set (dvals (assets s))"
    with assms(1) obtain k where "dget (assets s) k = Some a"
      unfolding store_inv_def by (metis in_dvalsE)
    with assms(1) show "dget (assets s) (asset_id a) = Some a" by (auto simp: store_inv_def)
  qed (rule dget_in_dvals)
  then have "a \<in> set (catalog s) \<longleftrightarrow> get_asset s (asset_id a) = Inr a"
    using assms(1) by (simp only: set_catalog get_asset_iff)
  with assms show ?thesis by (auto simp: search_eq)
qed

end
