(* ===== verification/Admission.thy ===== *)
theory Admission
  imports Mandate "HOL-Library.Product_Lexorder" "HOL-Library.Multiset"
begin

text \<open>
  \<open>src/training/admission.py\<close>: which assets may enter a training build, and the Merkle root
  that pins the admitted set. \<open>to_json_file\<close> and \<open>manifest_to_dict\<close> only write the manifest
  out and are not modelled.
\<close>

subsection \<open>The Merkle root\<close>

definition hash_pair :: "str \<Rightarrow> str \<Rightarrow> exn + str" where
  "hash_pair l r = andthen (ascii_encode (l @ r)) (\<lambda>b. Inr (sha256_hex b))"

text \<open>One level up: neighbours are hashed together, a last one without neighbour with itself.\<close>

fun pair_level :: "str list \<Rightarrow> exn + str list" where
  "pair_level [] = Inr []"
| "pair_level [l] = andthen (hash_pair l l) (\<lambda>h. Inr [h])"
| "pair_level (l # r # rest) =
     andthen (hash_pair l r) (\<lambda>h. andthen (pair_level rest) (\<lambda>hs. Inr (h # hs)))"

lemma pair_level_length: "pair_level xs = Inr ys \<Longrightarrow> length ys = (length xs + 1) div 2"
  by (induction xs arbitrary: ys rule: pair_level.induct) (auto simp: andthen_eq_Inr)

function climb :: "str list \<Rightarrow> exn + str" where
  "climb level =
     (if length level \<le> 1 then (case level of [] \<Rightarrow> Inl IndexError | x # _ \<Rightarrow> Inr x)
      else (case pair_level level of Inl e \<Rightarrow> Inl e | Inr nxt \<Rightarrow> climb (sort nxt)))"
  by pat_completeness auto
termination
  by (relation "measure length") (auto dest: pair_level_length)

declare climb.simps [simp del]

definition empty_build :: bytes where
  "empty_build = map of_nat (lit ''my3pai:empty-build'')"

definition merkle_root :: "str list \<Rightarrow> exn + str" where
  "merkle_root leaves =
     (if leaves = [] then Inr (sha256_hex empty_build) else climb (sort leaves))"

subsection \<open>The pipeline\<close>

record manifest =
  build_id :: str
  frozen_at :: datetime
  admitted_assets :: "str list"
  content_hashes :: "str list"
  m_merkle_root :: str
  m_rule_version :: str

definition new_manifest :: "manifest \<Rightarrow> exn + manifest" where
  "new_manifest m = (if length (m_merkle_root m) = 64 then Inr m else Inl ValidationError)"

record pipeline =
  p_keys :: "(str, bytes) dict"
  p_rule_version :: str

definition admission_error :: "pyenv \<Rightarrow> asset \<Rightarrow> string \<Rightarrow> exn" where
  "admission_error env a why =
     AdmissionError (lit ''asset '' @ py_repr env (asset_id a) @ lit '': '' @ lit why)"

definition outside_window :: "datetime \<Rightarrow> asset \<Rightarrow> exn + bool" where
  "outside_window now a =
     andthen (dt_lt now (valid_from a)) (\<lambda>early.
       if early then Inr True else dt_lt (valid_until a) now)"

definition admit :: "pyenv \<Rightarrow> pipeline \<Rightarrow> asset \<Rightarrow> str \<Rightarrow> datetime \<Rightarrow> exn + unit" where
  "admit env p a tenant now =
     andthen (case dget (p_keys p) (custodian_id a) of
                None \<Rightarrow> Inr False | Some key \<Rightarrow> verify_mandate a key) (\<lambda>ok.
     if \<not> ok then Inl (admission_error env a ''mandate not verified'')
     else if withdrawn a then Inl (admission_error env a ''withdrawn'')
     else if tenant_id a \<noteq> tenant then Inl (admission_error env a ''tenant mismatch'')
     else andthen (outside_window now a) (\<lambda>out.
       if out then Inl (admission_error env a ''outside validity window'')
       else if usage_constraints a \<noteq> [] \<and> lit ''train'' \<notin> set (usage_constraints a)
       then Inl (admission_error env a ''training not in usage constraints'')
       else Inr ()))"

fun admit_all :: "pyenv \<Rightarrow> pipeline \<Rightarrow> asset list \<Rightarrow> str \<Rightarrow> datetime \<Rightarrow> exn + unit" where
  "admit_all env p [] tenant now = Inr ()"
| "admit_all env p (a # as) tenant now =
     andthen (admit env p a tenant now) (\<lambda>_. admit_all env p as tenant now)"

definition freeze ::
    "pyenv \<Rightarrow> pipeline \<Rightarrow> str \<Rightarrow> asset list \<Rightarrow> str \<Rightarrow> datetime \<Rightarrow> exn + manifest" where
  "freeze env p build admitted tenant now =
     andthen (admit_all env p admitted tenant now) (\<lambda>_.
     (let ordered = sort_key asset_id admitted; hashes = map content_hash ordered
      in andthen (merkle_root hashes) (\<lambda>root.
           new_manifest
             \<lparr>build_id = build, frozen_at = now, admitted_assets = map asset_id ordered,
              content_hashes = hashes, m_merkle_root = root, m_rule_version = p_rule_version p\<rparr>)))"

definition verify_manifest :: "manifest \<Rightarrow> exn + bool" where
  "verify_manifest m =
     andthen (merkle_root (content_hashes m)) (\<lambda>root. Inr (m_merkle_root m = root))"

subsection \<open>Who is admitted\<close>

definition admissible :: "pipeline \<Rightarrow> str \<Rightarrow> datetime \<Rightarrow> asset \<Rightarrow> bool" where
  "admissible p tenant now a \<longleftrightarrow>
     (\<exists>key. dget (p_keys p) (custodian_id a) = Some key \<and> verify_mandate a key = Inr True)
     \<and> \<not> withdrawn a \<and> tenant_id a = tenant
     \<and> comparable now (valid_from a) \<and> comparable (valid_until a) now
     \<and> instant (valid_from a) \<le> instant now \<and> instant now \<le> instant (valid_until a)
     \<and> (usage_constraints a = [] \<or> lit ''train'' \<in> set (usage_constraints a))"

lemma outside_window_False:
  "outside_window now a = Inr False \<longleftrightarrow>
     comparable now (valid_from a) \<and> comparable (valid_until a) now
     \<and> instant (valid_from a) \<le> instant now \<and> instant now \<le> instant (valid_until a)"
  by (auto simp: outside_window_def dt_lt_def)

lemma admit_iff: "admit env p a tenant now = Inr () \<longleftrightarrow> admissible p tenant now a"
proof -
  define mandate where "mandate = (case dget (p_keys p) (custodian_id a) of
    None \<Rightarrow> Inr False | Some key \<Rightarrow> verify_mandate a key)"
  have m: "mandate = Inr True \<longleftrightarrow>
      (\<exists>key. dget (p_keys p) (custodian_id a) = Some key \<and> verify_mandate a key = Inr True)"
    by (simp add: mandate_def split: option.split)
  have "admit env p a tenant now = Inr () \<longleftrightarrow>
      mandate = Inr True \<and> \<not> withdrawn a \<and> tenant_id a = tenant \<and> outside_window now a = Inr False
      \<and> (usage_constraints a = [] \<or> lit ''train'' \<in> set (usage_constraints a))"
    unfolding admit_def mandate_def [symmetric]
    by (cases mandate; cases "outside_window now a"; simp)
  then show ?thesis unfolding m outside_window_False admissible_def conj_assoc .
qed

lemma admit_all_iff:
  "admit_all env p as tenant now = Inr () \<longleftrightarrow> (\<forall>a\<in>set as. admissible p tenant now a)"
  by (induction as) (auto simp: andthen_eq_Inr admit_iff)

subsection \<open>What the root pins\<close>

text \<open>
  The tree as a function, and the messages that are hashed to compute its root: an honest
  statement about the root has to name the two messages that would collide.
\<close>

fun pairs :: "str list \<Rightarrow> (str \<times> str) list" where
  "pairs [] = []"
| "pairs [l] = [(l, l)]"
| "pairs (l # r # rest) = (l, r) # pairs rest"

definition node_message :: "str \<times> str \<Rightarrow> bytes" where
  "node_message p = map of_nat (fst p @ snd p)"

definition node :: "str \<times> str \<Rightarrow> str" where
  "node p = sha256_hex (node_message p)"

lemma length_pairs: "length (pairs xs) = (length xs + 1) div 2"
  by (induction xs rule: pairs.induct) auto

function tree_root :: "str list \<Rightarrow> str" where
  "tree_root level =
     (if length level \<le> 1 then hd level else tree_root (sort (map node (pairs level))))"
  by pat_completeness auto
termination by (relation "measure length") (auto simp: length_pairs)

function tree_messages :: "str list \<Rightarrow> bytes list" where
  "tree_messages level =
     (if length level \<le> 1 then []
      else map node_message (pairs level) @ tree_messages (sort (map node (pairs level))))"
  by pat_completeness auto
termination by (relation "measure length") (auto simp: length_pairs)

declare tree_root.simps [simp del] tree_messages.simps [simp del]

lemma digest_text_node [simp]: "digest_text (node p)"
  by (simp add: node_def digest_text_hex)

lemma hash_pair_eq: "digest_text l \<Longrightarrow> digest_text r \<Longrightarrow> hash_pair l r = Inr (node (l, r))"
proof -
  assume "digest_text l" "digest_text r"
  then have "ascii_encode (l @ r) = Inr (map of_nat (l @ r))"
    by (intro ascii_encode_ascii) (auto simp: digest_text_def)
  then show ?thesis by (simp add: hash_pair_def node_def node_message_def)
qed

lemma pair_level_eq:
  "\<forall>x\<in>set xs. digest_text x \<Longrightarrow> pair_level xs = Inr (map node (pairs xs))"
  by (induction xs rule: pair_level.induct) (auto simp: hash_pair_eq)

lemma climb_eq:
  "\<forall>x\<in>set level. digest_text x \<Longrightarrow> level \<noteq> [] \<Longrightarrow> climb level = Inr (tree_root level)"
proof (induction level rule: tree_root.induct)
  case (1 level)
  show ?case
  proof (cases "length level \<le> 1")
    case True
    with "1.prems" show ?thesis by (cases level) (simp_all add: climb.simps tree_root.simps)
  next
    case False
    have "pairs level \<noteq> []" using False by (cases level rule: pairs.cases) auto
    then have "sort (map node (pairs level)) \<noteq> []"
      by (metis length_0_conv length_map length_sort)
    with "1.IH" [OF False] False "1.prems" show ?thesis
      by (subst climb.simps, subst tree_root.simps) (simp add: pair_level_eq)
  qed
qed

lemma merkle_root_eq:
  "\<forall>x\<in>set leaves. digest_text x \<Longrightarrow> leaves \<noteq> [] \<Longrightarrow>
     merkle_root leaves = Inr (tree_root (sort leaves))"
  using climb_eq [of "sort leaves"] by (simp add: merkle_root_def) (metis length_0_conv length_sort)

lemma digest_text_root: "level \<noteq> [] \<Longrightarrow> \<forall>x\<in>set level. digest_text x \<Longrightarrow> digest_text (tree_root level)"
proof (induction level rule: tree_root.induct)
  case (1 level)
  show ?case
  proof (cases "length level \<le> 1")
    case True
    with "1.prems" show ?thesis by (cases level) (simp_all add: tree_root.simps)
  next
    case False
    have "pairs level \<noteq> []" using False by (cases level rule: pairs.cases) auto
    then have "sort (map node (pairs level)) \<noteq> []"
      by (metis length_0_conv length_map length_sort)
    with "1.IH" [OF False] False show ?thesis by (subst tree_root.simps) simp
  qed
qed

text \<open>The pairs of a sorted level are sorted, so their multiset determines the level.\<close>

lemma pairs_members: "p \<in> set (pairs xs) \<Longrightarrow> fst p \<in> set xs \<and> snd p \<in> set xs"
  by (induction xs rule: pairs.induct) auto

lemma pairs_sorted: "sorted xs \<Longrightarrow> sorted (pairs xs)"
proof (induction xs rule: pairs.induct)
  case (3 l r rest)
  have "(l, r) \<le> p" if "p \<in> set (pairs rest)" for p
  proof -
    have "l \<le> r" "r \<le> fst p" "r \<le> snd p" using pairs_members [OF that] "3.prems" by auto
    then show ?thesis by (cases p) (auto simp: less_le intro: order_trans)
  qed
  with 3 show ?case by auto
qed simp_all

lemma pairs_inject: "length xs = length ys \<Longrightarrow> pairs xs = pairs ys \<Longrightarrow> xs = ys"
proof (induction xs arbitrary: ys rule: pairs.induct)
  case (2 l)
  then obtain y where "ys = [y]" by (cases ys) auto
  with 2 show ?case by simp
next
  case (3 l r rest)
  then obtain y z zs where "ys = y # z # zs" by (cases ys rule: pairs.cases) auto
  with 3 show ?case by simp
qed simp

lemma image_mset_inject:
  assumes "inj_on f (set_mset M \<union> set_mset N)" "image_mset f M = image_mset f N"
  shows "M = N"
proof -
  let ?g = "the_inv_into (set_mset M \<union> set_mset N) f"
  have "image_mset ?g (image_mset f K) = K" if "set_mset K \<subseteq> set_mset M \<union> set_mset N" for K
    using that the_inv_into_f_f [OF assms(1)]
    by (simp add: multiset.map_comp comp_def) (rule multiset.map_ident_strong, auto)
  then show ?thesis using assms(2) by (metis Un_upper1 Un_upper2)
qed

lemma node_message_inject:
  assumes "digest_text (fst p)" "digest_text (snd p)" "digest_text (fst q)" "digest_text (snd q)"
    and "node_message p = node_message q"
  shows "p = q"
proof -
  have "fst p @ snd p = fst q @ snd q"
    using assms(5) unfolding node_message_def
    by (rule map_of_nat_inject_ascii [rotated 2]) (use assms in \<open>auto simp: digest_text_def\<close>)
  with assms show ?thesis by (simp add: digest_text_def prod_eq_iff)
qed

definition messages_collide :: "bytes list \<Rightarrow> bytes list \<Rightarrow> bool" where
  "messages_collide xs ys \<longleftrightarrow> (\<exists>x\<in>set xs. \<exists>y\<in>set ys. sha_collision x y)"

lemma level_binds:
  assumes "\<forall>x\<in>set xs \<union> set ys. digest_text x" "length xs = length ys" "sorted xs" "sorted ys"
    and "sort (map node (pairs xs)) = sort (map node (pairs ys))"
  shows "xs = ys \<or> messages_collide (map node_message (pairs xs)) (map node_message (pairs ys))"
proof (rule disjCI)
  assume none: "\<not> messages_collide (map node_message (pairs xs)) (map node_message (pairs ys))"
  have eq: "image_mset node (mset (pairs xs)) = image_mset node (mset (pairs ys))"
    using arg_cong [OF assms(5), of mset] by simp
  then have img: "node ` set (pairs xs) = node ` set (pairs ys)"
    by (metis set_image_mset set_mset_mset [of "pairs xs"] set_mset_mset [of "pairs ys"])
  have cross: "p = q" if "p \<in> set (pairs xs)" "q \<in> set (pairs ys)" "node p = node q" for p q
  proof -
    have "node_message p = node_message q"
      using none that sha256_hex_eqD [of "node_message p" "node_message q"]
      by (auto simp: messages_collide_def node_def)
    with that(1,2) assms(1) show ?thesis
      using pairs_members by (blast intro: node_message_inject)
  qed
  have "inj_on node (set (pairs xs) \<union> set (pairs ys))"
  proof (rule inj_onI)
    fix p q assume pq: "p \<in> set (pairs xs) \<union> set (pairs ys)" "q \<in> set (pairs xs) \<union> set (pairs ys)"
      "node p = node q"
    have "node p \<in> node ` set (pairs xs)" "node p \<in> node ` set (pairs ys)"
      using pq(1) img by auto
    then obtain x y where x: "x \<in> set (pairs xs)" "node x = node p"
      and y: "y \<in> set (pairs ys)" "node y = node p" by (auto simp: image_iff)
    have "r = x \<or> r = y" if "r \<in> set (pairs xs) \<union> set (pairs ys)" "node r = node p" for r
    proof (cases "r \<in> set (pairs xs)")
      case True
      from cross [OF True y(1)] that(2) y(2) show ?thesis by simp
    next
      case False
      with that(1) have "r \<in> set (pairs ys)" by simp
      from cross [OF x(1) this] that(2) x(2) show ?thesis by simp
    qed
    from this [OF pq(1)] this [OF pq(2)] pq(3) have "p = x \<or> p = y" "q = x \<or> q = y" by simp_all
    moreover have "x = y" using cross [OF x(1) y(1)] x y by simp
    ultimately show "p = q" by blast
  qed
  then have "mset (pairs xs) = mset (pairs ys)"
    using eq by (intro image_mset_inject [where f = node]) simp_all
  from properties_for_sort [OF this pairs_sorted [OF assms(3)]]
  have "pairs xs = pairs ys"
    using sorted_sort_id [OF pairs_sorted [OF assms(4)]] by simp
  with pairs_inject [OF assms(2)] show "xs = ys" by blast
qed

lemma messages_collide_append:
  "messages_collide xs ys \<or> messages_collide us vs \<Longrightarrow> messages_collide (xs @ us) (ys @ vs)"
  by (auto simp: messages_collide_def)

lemma root_binds:
  assumes "length xs = length ys" "\<forall>x\<in>set xs \<union> set ys. digest_text x" "sorted xs" "sorted ys"
    and "tree_root xs = tree_root ys"
  shows "xs = ys \<or> messages_collide (tree_messages xs) (tree_messages ys)"
  using assms
proof (induction xs arbitrary: ys rule: tree_root.induct)
  case (1 xs)
  show ?case
  proof (cases "length xs \<le> 1")
    case True
    with "1.prems" show ?thesis
      by (cases xs; cases ys) (auto simp: tree_root.simps)
  next
    case False
    let ?n = "sort (map node (pairs xs))" and ?m = "sort (map node (pairs ys))"
    have msgs: "tree_messages xs = map node_message (pairs xs) @ tree_messages ?n"
      "tree_messages ys = map node_message (pairs ys) @ tree_messages ?m"
      using False "1.prems"(1) by (simp_all add: tree_messages.simps [of xs] tree_messages.simps [of ys])
    have "tree_root ?n = tree_root ?m"
      using False "1.prems"(1,5) by (simp add: tree_root.simps [of xs] tree_root.simps [of ys])
    moreover have "\<forall>x\<in>set ?n \<union> set ?m. digest_text x" by auto
    ultimately have "?n = ?m \<or> messages_collide (tree_messages ?n) (tree_messages ?m)"
      using "1.IH" [OF False, of ?m] "1.prems"(1) by (simp add: length_pairs)
    with level_binds [OF "1.prems"(2,1,3,4)] show ?thesis
      unfolding msgs using messages_collide_append by blast
  qed
qed

lemma merkle_binds:
  assumes "length xs = length ys" "\<forall>x\<in>set xs \<union> set ys. digest_text x"
    and "merkle_root xs = merkle_root ys"
  shows "mset xs = mset ys \<or> messages_collide (tree_messages (sort xs)) (tree_messages (sort ys))"
proof (cases "xs = []")
  case False
  then have "ys \<noteq> []" using assms(1) by auto
  with False assms(2,3) have "tree_root (sort xs) = tree_root (sort ys)"
    by (simp add: merkle_root_eq)
  with root_binds [of "sort xs" "sort ys"] assms(1,2) show ?thesis
    by (metis length_sort mset_sort set_sort sorted_sort)
qed (use assms(1) in simp)

text \<open>
  The order of the leaves does not matter, and a last leaf without neighbour may be repeated:
  the root does not determine the number of leaves.
\<close>

lemma merkle_root_perm: "mset xs = mset ys \<Longrightarrow> merkle_root xs = merkle_root ys"
proof -
  assume eq: "mset xs = mset ys"
  then have "sort xs = sort ys" by (intro properties_for_sort) simp_all
  moreover have "xs = [] \<longleftrightarrow> ys = []" using eq by (metis mset_zero_iff)
  ultimately show ?thesis by (simp add: merkle_root_def)
qed

lemma merkle_root_repeat:
  assumes "a < b" "b < c" "digest_text a" "digest_text b" "digest_text c"
  shows "merkle_root [a, b, c] = merkle_root [a, b, c, c]"
proof -
  have "sort [a, b, c] = [a, b, c]" "sort [a, b, c, c] = [a, b, c, c]"
    using assms(1,2) by (auto intro: sorted_sort_id)
  with assms show ?thesis
    by (simp only: merkle_root_eq list.set ball_simps list.distinct not_False_eq_True)
       (simp add: merkle_root_eq tree_root.simps [of "[a, b, c]"] tree_root.simps [of "[a, b, c, c]"])
qed

subsection \<open>Manifests\<close>

lemma content_hash_digest: "asset_ok a \<Longrightarrow> digest_text (content_hash a)"
  by (auto simp: asset_ok_def digest_text_def asset_fields_ok_def len_between_def is_lower_hex_def)

lemma freeze_Inr:
  "freeze env p build as tenant now = Inr m \<Longrightarrow>
     (\<forall>a\<in>set as. admissible p tenant now a)
     \<and> admitted_assets m = map asset_id (sort_key asset_id as)
     \<and> content_hashes m = map content_hash (sort_key asset_id as)
     \<and> merkle_root (content_hashes m) = Inr (m_merkle_root m)
     \<and> frozen_at m = now \<and> m_rule_version m = p_rule_version p \<and> build_id m = build"
  by (auto simp: freeze_def Let_def andthen_eq_Inr new_manifest_def admit_all_iff split: if_splits)

lemma freeze_defined:
  assumes "\<forall>a\<in>set as. admissible p tenant now a \<and> asset_ok a"
  shows "\<exists>m. freeze env p build as tenant now = Inr m"
proof -
  let ?hs = "map content_hash (sort_key asset_id as)"
  have ok: "\<forall>x\<in>set ?hs. digest_text x" using assms content_hash_digest by auto
  have "\<exists>r. merkle_root ?hs = Inr r \<and> length r = 64"
  proof (cases "as = []")
    case True
    then show ?thesis by (simp add: merkle_root_def)
  next
    case False
    then have "?hs \<noteq> []" by (metis length_0_conv length_map length_sort)
    with ok digest_text_root [of "sort ?hs"] show ?thesis
      by (auto simp: merkle_root_eq digest_text_def) (metis length_0_conv length_map length_sort)
  qed
  moreover have "admit_all env p as tenant now = Inr ()" using assms by (simp add: admit_all_iff)
  ultimately show ?thesis by (auto simp: freeze_def Let_def new_manifest_def)
qed

lemma verify_frozen: "freeze env p build as tenant now = Inr m \<Longrightarrow> verify_manifest m = Inr True"
proof -
  assume "freeze env p build as tenant now = Inr m"
  then have "merkle_root (content_hashes m) = Inr (m_merkle_root m)" using freeze_Inr by blast
  then show ?thesis by (simp add: verify_manifest_def)
qed

end
