(* ===== verification/Service.thy ===== *)
theory Service
  imports GatewaySpec
begin

text \<open>
  \<open>src/policy/service.py\<close>: the HTTP service around the gateway, without the transport: a handler
  is a function from the request body and the service's state to a status code and a JSON
  payload. The gateway, its store and its keys are built on first use. The clock readings,
  the ticket bytes and the ends of the seeded validity window (thirty days before and after
  the start) are arguments; the texts of the exceptions of the interpreter and of pydantic are
  the parameter \<open>exc_text\<close>.
\<close>

definition SHARED_TOKEN_KEY :: bytes where
  "SHARED_TOKEN_KEY = sha256 (map of_nat (lit ''my3pai-beta-gateway-token-key''))"

definition BENCH_KEY :: bytes where
  "BENCH_KEY = sha256 (map of_nat (lit ''custodian-bench-key''))"

definition bench_keys :: keyring where
  "bench_keys = [(lit ''custodian-bench'', BENCH_KEY)]"

definition bench_id :: "nat \<Rightarrow> str" where
  "bench_id i = lit ''bench-asset-'' @ dec i"

definition bench_draft :: "datetime \<Rightarrow> datetime \<Rightarrow> nat \<Rightarrow> asset" where
  "bench_draft since until i =
     \<lparr>schema_version = schema_version_current, asset_id = bench_id i,
      custodian_id = lit ''custodian-bench'', tenant_id = lit ''tenant-bench'',
      content_hash = sha256_hex (map of_nat (lit ''bench-bytes-'' @ dec i)),
      rights_mandate = lit ''mandate-'' @ dec i, mandate_signature = replicate 64 48,
      usage_constraints = [lit ''infer'', lit ''render''], granted_scopes = [lit ''infer.basic''],
      requires_consent = False, valid_from = since, valid_until = until, withdrawn = False\<rparr>"

definition seed_asset ::
    "pyenv \<Rightarrow> datetime \<Rightarrow> datetime \<Rightarrow> keyring \<Rightarrow> nat \<Rightarrow> 's asset_store \<Rightarrow> exn + 's asset_store" where
  "seed_asset env since until keys i store =
     andthen (new_asset (bench_draft since until i)) (\<lambda>draft.
     andthen (case dget keys (lit ''custodian-bench'') of
                None \<Rightarrow> Inl (KeyError (lit ''custodian-bench'')) | Some key \<Rightarrow> sign_mandate draft key) (\<lambda>sig.
       let signed = draft\<lparr>mandate_signature := sig\<rparr>
       in if contains_asset store (bench_id i) then Inr store else register env store signed))"

fun seed_assets ::
    "pyenv \<Rightarrow> datetime \<Rightarrow> datetime \<Rightarrow> keyring \<Rightarrow> nat list \<Rightarrow> 's asset_store \<Rightarrow> exn + 's asset_store" where
  "seed_assets env since until keys [] store = Inr store"
| "seed_assets env since until keys (i # is) store =
     andthen (seed_asset env since until keys i store) (seed_assets env since until keys is)"

record running =
  sv_gateway :: gateway_state
  sv_keys :: keyring
  sv_store :: "unit asset_store"

definition build_gateway :: "pyenv \<Rightarrow> datetime \<Rightarrow> datetime \<Rightarrow> exn + running" where
  "build_gateway env since until =
     andthen (seed_assets env since until bench_keys [0..<8] new_store) (\<lambda>store.
     andthen (new_token_store SHARED_TOKEN_KEY) (\<lambda>ts.
       Inr \<lparr>sv_gateway = \<lparr>tokens = ts, counter = 0\<rparr>, sv_keys = bench_keys, sv_store = store\<rparr>))"

text \<open>\<open>_gateway()\<close> and \<open>_store()\<close>: the state, built when there is none yet.\<close>

definition ensure :: "pyenv \<Rightarrow> datetime \<Rightarrow> datetime \<Rightarrow> running option \<Rightarrow> exn + running" where
  "ensure env since until sv = (case sv of Some r \<Rightarrow> Inr r | None \<Rightarrow> build_gateway env since until)"

text \<open>What a handler reads from its surroundings.\<close>

record reading =
  rd_from :: datetime
  rd_until :: datetime
  rd_now :: datetime
  rd_ns :: int
  rd_withdraw_ns :: int
  rd_ticket :: bytes
  rd_elapsed :: str   \<comment> \<open>the text of the elapsed milliseconds, a \<open>float\<close>\<close>

type_synonym response = "nat \<times> json"

text \<open>
  \<open>str(exc)\<close>: an \<open>AssetNotFound\<close> is raised with the id alone and shows it as it is; the texts of the
  interpreter's and pydantic's exceptions are the parameter.
\<close>

fun exc_str :: "(exn \<Rightarrow> str) \<Rightarrow> exn \<Rightarrow> str" where
  "exc_str exc_text (AssetNotFound k) = k"
| "exc_str exc_text e = exc_text e"

definition error_json :: "str \<Rightarrow> json" where
  "error_json m = JObj [(lit ''error'', JStr m)]"

text \<open>\<open>data.get(k, d)\<close>, \<open>tuple(x)\<close>, and what pydantic makes of the items of a tuple.\<close>

definition json_get :: "json \<Rightarrow> str \<Rightarrow> json \<Rightarrow> exn + json" where
  "json_get j k dflt =
     (case j of JObj kvs \<Rightarrow> Inr (case dget kvs k of None \<Rightarrow> dflt | Some v \<Rightarrow> v)
              | _ \<Rightarrow> Inl AttributeError)"

fun json_tuple :: "json \<Rightarrow> exn + json list" where
  "json_tuple (JArr xs) = Inr xs"
| "json_tuple (JStr s) = Inr (map (\<lambda>c. JStr [c]) s)"
| "json_tuple (JObj kvs) = Inr (map (\<lambda>(k, v). JStr k) kvs)"
| "json_tuple j = Inl TypeError"

fun json_strs :: "json list \<Rightarrow> exn + str list" where
  "json_strs [] = Inr []"
| "json_strs (JStr s # js) = andthen (json_strs js) (\<lambda>ss. Inr (s # ss))"
| "json_strs (j # js) = Inl ValidationError"

text \<open>
  A string field with a length constraint is measured in UTF-8, so pydantic refuses a lone surrogate
  there; the items of the two tuples have no constraint and are taken as they are.
\<close>

definition request_strings :: "policy_request \<Rightarrow> bool" where
  "request_strings r \<longleftrightarrow>
     valid_str (req_id r) \<and> valid_str (req_asset_id r) \<and> valid_str (req_tenant_id r)
     \<and> valid_str (req_action r) \<and> valid_str (prompt_text r)"

definition checked_request :: "policy_request \<Rightarrow> exn + policy_request" where
  "checked_request r = (if request_strings r then new_request r else Inl ValidationError)"

definition parse_request :: "pyenv \<Rightarrow> reading \<Rightarrow> json \<Rightarrow> exn + policy_request" where
  "parse_request env rd data =
     andthen (json_get data (lit ''request_id'') (JStr (lit ''req-'' @ str_int (rd_ns rd)))) (\<lambda>rid.
     andthen (json_get data (lit ''asset_id'') (JStr (lit ''bench-asset-0''))) (\<lambda>aid.
     andthen (json_get data (lit ''tenant_id'') (JStr (lit ''tenant-bench''))) (\<lambda>tid.
     andthen (json_get data (lit ''action'') (JStr (lit ''infer''))) (\<lambda>act.
     andthen (andthen (json_get data (lit ''auth_scopes'') (JArr [JStr (lit ''infer.basic'')])) json_tuple) (\<lambda>scopes.
     andthen (andthen (json_get data (lit ''consent_tokens'') (JArr [])) json_tuple) (\<lambda>toks.
     andthen (json_get data (lit ''prompt_text'') (JStr (lit ''render a landscape''))) (\<lambda>prompt.
     andthen (json_strs scopes) (\<lambda>scopes'.
     andthen (json_strs toks) (\<lambda>toks'.
       checked_request
         \<lparr>req_id = json_str env rid, req_asset_id = json_str env aid,
          req_tenant_id = json_str env tid, req_action = json_str env act,
          auth_scopes = scopes', consent_tokens = toks', prompt_text = json_str env prompt,
          requested_at = rd_now rd\<rparr>)))))))))"

definition handle_evaluate ::
    "pyenv \<Rightarrow> (exn \<Rightarrow> str) \<Rightarrow> reading \<Rightarrow> bytes \<Rightarrow> running option \<Rightarrow> (exn + response) \<times> running option" where
  "handle_evaluate env exc_text rd raw sv =
     (case decode_payload raw of
        Inl _ \<Rightarrow> (Inr (400, error_json (lit ''invalid json'')), sv)
      | Inr data \<Rightarrow>
          (case parse_request env rd data of
             Inl e \<Rightarrow> (Inr (400, error_json (lit ''invalid request: '' @ exc_str exc_text e)), sv)
           | Inr req \<Rightarrow>
               (case ensure env (rd_from rd) (rd_until rd) sv of
                  Inl e \<Rightarrow> (Inl e, sv)
                | Inr r \<Rightarrow>
                    (case evaluate env (sv_keys r) (sv_store r) (rd_ticket rd) req (rd_now rd) (sv_gateway r) of
                       (Inl e, gs) \<Rightarrow> (Inl e, Some (r\<lparr>sv_gateway := gs\<rparr>))
                     | (Inr d, gs) \<Rightarrow>
                         (Inr (200, JObj [(lit ''state'', JStr (state_value (d_state d))),
                                          (lit ''reason'', JStr (d_reason d)),
                                          (lit ''sequence'', JInt (d_sequence d)),
                                          (lit ''rule_version'', JStr (d_rule_version d))]),
                          Some (r\<lparr>sv_gateway := gs\<rparr>))))))"

definition probe_request :: "reading \<Rightarrow> str \<Rightarrow> policy_request" where
  "probe_request rd aid =
     \<lparr>req_id = lit ''probe-'' @ str_int (rd_ns rd), req_asset_id = aid,
      req_tenant_id = lit ''tenant-bench'', req_action = lit ''infer'',
      auth_scopes = [lit ''infer.basic''], consent_tokens = [], prompt_text = lit ''probe'',
      requested_at = rd_now rd\<rparr>"

definition handle_revoke ::
    "pyenv \<Rightarrow> (exn \<Rightarrow> str) \<Rightarrow> reading \<Rightarrow> bytes \<Rightarrow> running option \<Rightarrow> (exn + response) \<times> running option" where
  "handle_revoke env exc_text rd raw sv =
     (case andthen (decode_payload raw) (\<lambda>j. json_item j (lit ''asset_id'')) of
        Inl _ \<Rightarrow> (Inr (400, error_json (lit ''asset_id required'')), sv)
      | Inr v \<Rightarrow>
          (let aid = json_str env v
           in case ensure env (rd_from rd) (rd_until rd) sv of
                Inl e \<Rightarrow> (Inr (404, error_json (exc_str exc_text e)), sv)
              | Inr r \<Rightarrow>
                  (case withdraw (sv_store r) aid (rd_withdraw_ns rd) () of
                     Inl e \<Rightarrow> (Inr (404, error_json (exc_str exc_text e)), Some r)
                   | Inr (_, store, _) \<Rightarrow>
                       (let r1 = r\<lparr>sv_store := store\<rparr>
                        in case checked_request (probe_request rd aid) of
                             Inl e \<Rightarrow> (Inl e, Some r1)
                           | Inr req \<Rightarrow>
                               (case evaluate env (sv_keys r1) (sv_store r1) (rd_ticket rd) req (rd_now rd)
                                       (sv_gateway r1) of
                                  (Inl e, gs) \<Rightarrow> (Inl e, Some (r1\<lparr>sv_gateway := gs\<rparr>))
                                | (Inr d, gs) \<Rightarrow>
                                    (Inr (200, JObj [(lit ''revoked'', JBool True),
                                       (lit ''blocked'', JBool (state_value (d_state d) = lit ''Blocked'')),
                                       (lit ''revoke_to_block_ms'', JFloat (rd_elapsed rd))]),
                                     Some (r1\<lparr>sv_gateway := gs\<rparr>)))))))"

definition do_get :: "str \<Rightarrow> response" where
  "do_get path =
     (if path = lit ''/health'' then (200, JObj [(lit ''status'', JStr (lit ''ok''))])
      else (404, error_json (lit ''not found'')))"

definition do_post ::
    "pyenv \<Rightarrow> (exn \<Rightarrow> str) \<Rightarrow> reading \<Rightarrow> str \<Rightarrow> bytes \<Rightarrow> running option \<Rightarrow> (exn + response) \<times> running option" where
  "do_post env exc_text rd path raw sv =
     (if path = lit ''/evaluate'' then handle_evaluate env exc_text rd raw sv
      else if path = lit ''/revoke'' then handle_revoke env exc_text rd raw sv
      else (Inr (404, error_json (lit ''not found'')), sv))"

subsection \<open>The seeded service\<close>

definition bench_asset :: "datetime \<Rightarrow> datetime \<Rightarrow> nat \<Rightarrow> asset" where
  "bench_asset since until i =
     (bench_draft since until i)\<lparr>mandate_signature :=
        hex (hmac_sha256 BENCH_KEY
          (case mandate_message (bench_draft since until i) of Inl _ \<Rightarrow> [] | Inr m \<Rightarrow> m))\<rparr>"

lemma valid_dec: "valid_str (dec n)"
  by (rule ascii_valid_str) (fastforce simp: is_digit_def dest: dec_digits)

lemma valid_sha256_hex: "valid_str (sha256_hex m)"
  by (rule ascii_valid_str) (simp add: sha256_hex_def hex_ascii)

lemma bench_strings: "asset_strings (bench_draft since until i)"
  by (simp add: asset_strings_def bench_draft_def bench_id_def valid_lit valid_dec valid_sha256_hex)

lemma bench_draft_ok:
  assumes "dt_lt since until = Inr True" "i < 10"
  shows "asset_ok (bench_draft since until i)"
proof -
  have "length (dec i) = 1" using assms(2) by (subst dec.simps) simp
  moreover have "\<forall>c\<in>set (sha256_hex m). is_lower_hex c" for m
    by (simp add: sha256_hex_def hex_lower)
  ultimately show ?thesis
    using assms(1)
    by (simp add: asset_ok_def bench_draft_def asset_fields_ok_def len_between_def bench_id_def)
       (simp add: is_lower_hex_def)
qed

lemma bench_sign:
  "sign_mandate (bench_draft since until i) BENCH_KEY = Inr (mandate_signature (bench_asset since until i))"
  using mandate_message_valid [OF bench_strings [of since until i]]
  by (auto simp: sign_mandate_def bench_asset_def)

lemma bench_verifies: "verify_mandate (bench_asset since until i) BENCH_KEY = Inr True"
  using verify_sign [OF bench_sign [of since until i]]
  by (simp add: bench_asset_def)

lemma bench_id_inject [simp]: "bench_id i = bench_id j \<longleftrightarrow> i = j"
  by (simp add: bench_id_def)

lemma bench_asset_id [simp]: "asset_id (bench_asset since until i) = bench_id i"
  by (simp add: bench_asset_def bench_draft_def)

lemma bench_draft_id [simp]: "asset_id (bench_draft since until i) = bench_id i"
  by (simp add: bench_draft_def)

lemma seed_asset_eq:
  assumes "dt_lt since until = Inr True" "i < 10" "dget (assets store) (bench_id i) = None"
  shows "seed_asset env since until bench_keys i store =
    Inr (store\<lparr>assets := assets store @ [(bench_id i, bench_asset since until i)]\<rparr>)"
proof -
  have "(bench_draft since until i)\<lparr>mandate_signature := mandate_signature (bench_asset since until i)\<rparr>
      = bench_asset since until i" by (simp add: bench_asset_def)
  with assms(3) show ?thesis
    using new_asset_idem [OF bench_draft_ok [OF assms(1,2)]] bench_sign [of since until i]
    by (simp add: seed_asset_def bench_keys_def contains_asset_def register_def dput_fresh Let_def)
qed

lemma seed_assets_eq:
  "dt_lt since until = Inr True \<Longrightarrow> \<forall>i\<in>set is. i < 10 \<Longrightarrow> distinct is \<Longrightarrow>
   \<forall>i\<in>set is. dget (assets store) (bench_id i) = None \<Longrightarrow>
     seed_assets env since until bench_keys is store =
       Inr (store\<lparr>assets := assets store @ map (\<lambda>i. (bench_id i, bench_asset since until i)) is\<rparr>)"
proof (induction "is" arbitrary: store)
  case (Cons i "is")
  have "\<forall>j\<in>set is. dget (assets store @ [(bench_id i, bench_asset since until i)]) (bench_id j) = None"
    using Cons.prems by (auto simp: map_add_def)
  with Cons seed_asset_eq [of since until i store] show ?case by simp
qed simp

definition seeded :: "datetime \<Rightarrow> datetime \<Rightarrow> running" where
  "seeded since until =
     \<lparr>sv_gateway = \<lparr>tokens = \<lparr>token_key = SHARED_TOKEN_KEY, used_nonces = {}\<rparr>, counter = 0\<rparr>,
      sv_keys = bench_keys,
      sv_store = new_store\<lparr>assets := map (\<lambda>i. (bench_id i, bench_asset since until i)) [0..<8]\<rparr>\<rparr>"

lemma build_gateway_eq:
  "dt_lt since until = Inr True \<Longrightarrow> build_gateway env since until = Inr (seeded since until)"
  using seed_assets_eq [of since until "[0..<8]" "new_store :: unit asset_store"]
  by (simp add: build_gateway_def new_token_store_def SHARED_TOKEN_KEY_def seeded_def new_store_def
      del: upt_Suc)

subsection \<open>What the handlers answer\<close>

definition running_ok :: "running \<Rightarrow> bool" where
  "running_ok r \<longleftrightarrow> 0 \<le> counter (sv_gateway r) \<and> store_inv (sv_store r)
     \<and> (\<forall>k. dget (assets (sv_store r)) k \<noteq> None \<longrightarrow> len_between 1 128 k \<and> valid_str k)"

lemma seeded_ok: "running_ok (seeded since until)"
proof -
  have d: "length (dec i) \<le> 1" if "i < 8" for i using that by (subst dec.simps) simp
  have "wf_dict (map (\<lambda>i. (bench_id i, bench_asset since until i)) [0..<8])"
    by (simp add: wf_dict_def comp_def distinct_map inj_on_def del: upt_Suc)
  moreover have "len_between 1 128 k \<and> valid_str k \<and> asset_id a = k"
    if "dget (map (\<lambda>i. (bench_id i, bench_asset since until i)) [0..<8]) k = Some a" for k a
  proof -
    from map_of_SomeD [OF that] obtain i where "i < 8" "k = bench_id i" "a = bench_asset since until i"
      by auto
    with d [of i] show ?thesis
      by (simp add: len_between_def bench_id_def valid_lit valid_dec)
  qed
  ultimately show ?thesis
    unfolding running_ok_def seeded_def store_inv_def new_store_def
    by (simp del: upt_Suc) blast
qed

lemma probe_checked:
  assumes "len_between 1 128 aid" "valid_str aid" "length (str_int (rd_ns rd)) \<le> 100"
  shows "checked_request (probe_request rd aid) = Inr (probe_request rd aid)"
proof -
  have "valid_str (str_int (rd_ns rd))" by (rule ascii_valid_str) (rule str_int_ascii)
  with assms show ?thesis
    by (simp add: checked_request_def request_strings_def probe_request_def valid_lit new_request_def
        request_ok_def len_between_def)
qed

lemma withdraw_unit:
  "withdraw s k ns () = Inr (a, s', u) \<Longrightarrow> store_inv s \<Longrightarrow>
     store_inv s' \<and> get_asset s' k = Inr a \<and> withdrawn a \<and> (\<forall>q. dget (assets s') q \<noteq> None \<longrightarrow> dget (assets s) q \<noteq> None)"
  using withdraw_get [of s k ns "()" a s' u k] store_inv_withdraw [of s k ns "()" a s' u]
  by (auto simp: withdraw_def Let_def dget_dput split: option.splits if_splits)

text \<open>A withdrawn asset is refused whatever the request.\<close>

lemma outcome_withdrawn:
  "get_asset store (req_asset_id req) = Inr a \<Longrightarrow> withdrawn a \<Longrightarrow>
     outcome env keys store req now ts = (BLOCKED, ts)"
  by (simp add: outcome_def all_pass_iff within_rights_def)

lemma evaluate_withdrawn:
  assumes "get_asset store (req_asset_id req) = Inr a" "withdrawn a" "0 \<le> counter gs"
  shows "evaluate env keys store rand req now gs =
    (Inr (draft req (if asset_id a = [] then req_asset_id req else asset_id a) BLOCKED []
        (lit ''asset rights withdrawn'') None now (counter gs)), bump gs)"
proof -
  have "evaluate_inner env keys store rand req now gs =
      blocked req (lit ''asset rights withdrawn'') now (Some (asset_id a)) gs"
    using assms(1,2) by (simp add: evaluate_inner_def guard_def)
  with assms(3) show ?thesis by (simp add: evaluate_def blocked_short truthy_def)
qed

lemma handle_revoke_known:
  assumes r: "running_ok r" "contains_asset (sv_store r) aid"
    and body: "decode_payload raw = Inr j" "json_item j (lit ''asset_id'') = Inr v" "json_str env v = aid"
    and ns: "length (str_int (rd_ns rd)) \<le> 100"
  shows "\<exists>r'. handle_revoke env exc_text rd raw (Some r) =
      (Inr (200, JObj [(lit ''revoked'', JBool True), (lit ''blocked'', JBool True),
                       (lit ''revoke_to_block_ms'', JFloat (rd_elapsed rd))]), Some r')
    \<and> (\<exists>a. get_asset (sv_store r') aid = Inr a \<and> withdrawn a) \<and> running_ok r'"
proof -
  obtain a s u where w: "withdraw (sv_store r) aid (rd_withdraw_ns rd) () = Inr (a, s, u)"
    using withdraw_defined [of "sv_store r" aid "rd_withdraw_ns rd" "()"] r(2) by auto
  have s: "store_inv s" "get_asset s aid = Inr a" "withdrawn a"
    "\<forall>q. dget (assets s) q \<noteq> None \<longrightarrow> dget (assets (sv_store r)) q \<noteq> None"
    using withdraw_unit [OF w] r(1) by (simp_all add: running_ok_def)
  have key: "len_between 1 128 aid" "valid_str aid"
    using r by (auto simp: running_ok_def contains_asset_def)
  define req where "req = probe_request rd aid"
  define gs where "gs = bump (sv_gateway r)"
  define d where "d = draft req (if asset_id a = [] then req_asset_id req else asset_id a) BLOCKED []
        (lit ''asset rights withdrawn'') None (rd_now rd) (counter (sv_gateway r))"
  have "get_asset s (req_asset_id req) = Inr a" by (simp add: req_def probe_request_def s)
  then have "evaluate env (sv_keys r) s (rd_ticket rd) req (rd_now rd) (sv_gateway r) = (Inr d, gs)"
    using evaluate_withdrawn [OF _ s(3)] r(1) unfolding running_ok_def d_def gs_def by blast
  moreover have "checked_request req = Inr req" by (simp add: req_def probe_checked [OF key ns])
  moreover have "state_value (d_state d) = lit ''Blocked''" by (simp add: d_def)
  ultimately have "handle_revoke env exc_text rd raw (Some r) =
      (Inr (200, JObj [(lit ''revoked'', JBool True), (lit ''blocked'', JBool True),
                       (lit ''revoke_to_block_ms'', JFloat (rd_elapsed rd))]),
       Some (r\<lparr>sv_store := s, sv_gateway := gs\<rparr>))"
    by (simp add: handle_revoke_def body ensure_def w Let_def flip: req_def)
  moreover have "running_ok (r\<lparr>sv_store := s, sv_gateway := gs\<rparr>)"
    using r(1) s(1,4) by (simp add: running_ok_def gs_def)
  ultimately show ?thesis using s(2,3) by auto
qed

subsection \<open>The service never re-admits\<close>

fun svc_step ::
    "pyenv \<Rightarrow> (exn \<Rightarrow> str) \<Rightarrow> running option \<Rightarrow> reading \<times> str \<times> bytes \<Rightarrow> running option" where
  "svc_step env exc_text sv (rd, path, raw) = snd (do_post env exc_text rd path raw sv)"

definition svc_lookup :: "running option \<Rightarrow> str \<Rightarrow> asset option" where
  "svc_lookup sv k = (case sv of None \<Rightarrow> None | Some r \<Rightarrow> dget (assets (sv_store r)) k)"

lemma keeps_None [simp]: "keeps_asset None y"
  by (simp add: keeps_asset_def)

lemma ensure_Some: "ensure env since until (Some r) = Inr q \<longleftrightarrow> q = r"
  by (auto simp: ensure_def)

lemma evaluate_keeps:
  "keeps_asset (svc_lookup sv k) (svc_lookup (snd (handle_evaluate env exc_text rd raw sv)) k)"
proof (cases sv)
  case (Some r)
  show ?thesis
    by (auto simp: Some handle_evaluate_def ensure_def svc_lookup_def
        split: sum.split prod.split)
qed (simp add: svc_lookup_def)

lemma revoke_keeps:
  "keeps_asset (svc_lookup sv k) (svc_lookup (snd (handle_revoke env exc_text rd raw sv)) k)"
proof (cases sv)
  case (Some r)
  have w: "keeps_asset (dget (assets (sv_store r)) k) (dget (assets s) k)"
    if "withdraw (sv_store r) aid ns () = Inr (a, s, u)" for aid ns a s u
    using withdraw_keeps [OF that] .
  show ?thesis
    by (auto simp: Some handle_revoke_def ensure_def svc_lookup_def Let_def
        split: sum.split prod.split dest!: w)
qed (simp add: svc_lookup_def)

interpretation service: monotone_registry "svc_step env exc_text" svc_lookup
proof unfold_locales
  fix sv :: "running option" and opn :: "reading \<times> str \<times> bytes" and k
  obtain rd path raw where opn: "opn = (rd, path, raw)" by (cases opn) auto
  show "keeps_asset (svc_lookup sv k) (svc_lookup (svc_step env exc_text sv opn) k)"
    using evaluate_keeps revoke_keeps by (simp add: opn do_post_def)
qed

text \<open>A well-formed evaluation request, answered by a started service.\<close>

lemma handle_evaluate_answer:
  assumes "decode_payload raw = Inr j" "parse_request env rd j = Inr req" "0 \<le> counter (sv_gateway r)"
  shows "\<exists>d gs. evaluate env (sv_keys r) (sv_store r) (rd_ticket rd) req (rd_now rd) (sv_gateway r) = (Inr d, gs)
    \<and> handle_evaluate env exc_text rd raw (Some r) =
       (Inr (200, JObj [(lit ''state'', JStr (state_value (d_state d))),
                        (lit ''reason'', JStr (d_reason d)),
                        (lit ''sequence'', JInt (d_sequence d)),
                        (lit ''rule_version'', JStr RULE_VERSION)]),
        Some (r\<lparr>sv_gateway := gs\<rparr>))"
proof -
  obtain d gs where ev: "evaluate env (sv_keys r) (sv_store r) (rd_ticket rd) req (rd_now rd) (sv_gateway r) = (Inr d, gs)"
    and wf: "well_formed_step req (rd_now rd) (sv_gateway r) (Inr d, gs)"
    using evaluate_total [OF assms(3)] by metis
  from wf have "d_rule_version d = RULE_VERSION" by (simp add: well_formed_step_def)
  with ev assms(1,2) show ?thesis by (simp add: handle_evaluate_def ensure_def)
qed

subsection \<open>The empty request to a fresh service\<close>

definition default_request :: "reading \<Rightarrow> policy_request" where
  "default_request rd =
     \<lparr>req_id = lit ''req-'' @ str_int (rd_ns rd), req_asset_id = lit ''bench-asset-0'',
      req_tenant_id = lit ''tenant-bench'', req_action = lit ''infer'',
      auth_scopes = [lit ''infer.basic''], consent_tokens = [],
      prompt_text = lit ''render a landscape'', requested_at = rd_now rd\<rparr>"

lemma default_request_ok:
  "length (str_int (rd_ns rd)) \<le> 100 \<Longrightarrow>
     request_ok (default_request rd) \<and> request_strings (default_request rd)"
  using ascii_valid_str [of "str_int (rd_ns rd)"] str_int_ascii
  by (auto simp: default_request_def request_ok_def request_strings_def len_between_def valid_lit)

lemma parse_empty:
  "length (str_int (rd_ns rd)) \<le> 100 \<Longrightarrow> parse_request env rd (JObj []) = Inr (default_request rd)"
  using default_request_ok [of rd]
  by (simp add: parse_request_def json_get_def checked_request_def new_request_def)
     (simp add: default_request_def)

lemma decode_empty: "decode_payload [123, 125] = Inr (JObj [])"
  by code_simp

lemma bench_zero: "bench_id 0 = lit ''bench-asset-0''"
  by (simp add: bench_id_def lit_Cons dec.simps [of 0])

lemma default_prompt_clean: "\<not> contains_injection env (lit ''render a landscape'')"
proof -
  have "\<not> contains_injection ascii_env (lit ''render a landscape'')" by code_simp
  moreover have "\<forall>c\<in>set (lit ''render a landscape''). c < 128" by (simp add: lit_Cons)
  ultimately show ?thesis using contains_injection_ascii by metis
qed

lemma default_allowed:
  assumes win: "comparable (rd_now rd) since" "comparable until (rd_now rd)"
      "instant since \<le> instant (rd_now rd)" "instant (rd_now rd) \<le> instant until"
  shows "outcome env bench_keys (sv_store (seeded since until)) (default_request rd) (rd_now rd) ts = (ALLOWED, ts)"
proof -
  let ?a = "bench_asset since until 0"
  have get: "get_asset (sv_store (seeded since until)) (req_asset_id (default_request rd)) = Inr ?a"
    by (simp add: get_asset_def seeded_def default_request_def bench_zero upt_conv_Cons
        flip: bench_zero)
  have "within_rights env bench_keys (default_request rd) (rd_now rd) ?a"
    using win bench_verifies [of since until 0] default_prompt_clean
    by (auto simp: within_rights_def default_request_def bench_asset_def bench_draft_def bench_keys_def)
  moreover have "\<not> requires_consent ?a" by (simp add: bench_asset_def bench_draft_def)
  moreover have "granted_state (default_request rd) = ALLOWED"
    by (simp add: granted_state_def default_request_def HIGH_RISK_ACTIONS_def)
  ultimately show ?thesis by (simp add: outcome_def get all_pass_iff)
qed

lemma fresh_service_allows:
  assumes win: "dt_lt (rd_from rd) (rd_until rd) = Inr True"
      "comparable (rd_now rd) (rd_from rd)" "comparable (rd_until rd) (rd_now rd)"
      "instant (rd_from rd) \<le> instant (rd_now rd)" "instant (rd_now rd) \<le> instant (rd_until rd)"
    and ns: "length (str_int (rd_ns rd)) \<le> 100"
  shows "\<exists>sv reason n. handle_evaluate env exc_text rd [123, 125] None =
    (Inr (200, JObj [(lit ''state'', JStr (lit ''Allowed'')), (lit ''reason'', JStr reason),
                     (lit ''sequence'', JInt n), (lit ''rule_version'', JStr RULE_VERSION)]), Some sv)"
proof -
  define r where "r = seeded (rd_from rd) (rd_until rd)"
  have c: "0 \<le> counter (sv_gateway r)" and keys: "sv_keys r = bench_keys"
    by (simp_all add: seeded_def r_def)
  have req: "request_ok (default_request rd)" using default_request_ok [OF ns] by blast
  have out: "outcome env (sv_keys r) (sv_store r) (default_request rd) (rd_now rd) (tokens (sv_gateway r))
      = (ALLOWED, tokens (sv_gateway r))"
    using default_allowed [OF win(2-5)] keys by (simp add: r_def)
  have "handle_evaluate env exc_text rd [123, 125] None = handle_evaluate env exc_text rd [123, 125] (Some r)"
    using parse_empty [OF ns, of env] build_gateway_eq [OF win(1)]
    by (simp add: handle_evaluate_def decode_empty ensure_def r_def)
  moreover obtain d gs where
    ev: "evaluate env (sv_keys r) (sv_store r) (rd_ticket rd) (default_request rd) (rd_now rd) (sv_gateway r) = (Inr d, gs)"
    and ans: "handle_evaluate env exc_text rd [123, 125] (Some r) =
       (Inr (200, JObj [(lit ''state'', JStr (state_value (d_state d))),
                        (lit ''reason'', JStr (d_reason d)), (lit ''sequence'', JInt (d_sequence d)),
                        (lit ''rule_version'', JStr RULE_VERSION)]), Some (r\<lparr>sv_gateway := gs\<rparr>))"
    using handle_evaluate_answer [OF decode_empty parse_empty [OF ns] c] by blast
  moreover have "d_state d = ALLOWED"
    using evaluate_outcomeD [OF c req ev] out by simp
  ultimately show ?thesis by simp
qed

end
