(* ===== verification/GatewayHistory.thy ===== *)
theory GatewayHistory
  imports GatewaySpec Once
begin

text \<open>
  Histories of the gateway: a list of evaluations, each with the asset store, the request,
  the ticket's bytes and the time it sees. The numbers of the decisions grow strictly, and
  every grant on an asset that needs consent spends a nonce of its own.
\<close>

record 's gate_call =
  g_store :: "'s asset_store"
  g_request :: policy_request
  g_ticket :: bytes
  g_now :: datetime

definition gate :: "pyenv \<Rightarrow> keyring \<Rightarrow> gateway_state \<Rightarrow> 's gate_call \<Rightarrow> (exn + policy_decision) \<times> gateway_state" where
  "gate env keys gs c = evaluate env keys (g_store c) (g_ticket c) (g_request c) (g_now c) gs"

definition gate_step :: "pyenv \<Rightarrow> keyring \<Rightarrow> gateway_state \<Rightarrow> 's gate_call \<Rightarrow> gateway_state" where
  "gate_step env keys gs c = snd (gate env keys gs c)"

fun decisions :: "pyenv \<Rightarrow> keyring \<Rightarrow> gateway_state \<Rightarrow> 's gate_call list \<Rightarrow> policy_decision list" where
  "decisions env keys gs [] = []"
| "decisions env keys gs (c # cs) =
     (case fst (gate env keys gs c) of Inl e \<Rightarrow> [] | Inr d \<Rightarrow> [d]) @ decisions env keys (gate_step env keys gs c) cs"

text \<open>The nonce that the loop over the tokens consumes, if it consumes one.\<close>

fun first_nonce :: "pyenv \<Rightarrow> token_store \<Rightarrow> str \<Rightarrow> str \<Rightarrow> int \<Rightarrow> str list \<Rightarrow> str option" where
  "first_nonce env ts a t now [] = None"
| "first_nonce env ts a t now (token # toks) =
     (case verify env ts token a t now of
        Inr (cl, _) \<Rightarrow> Some (c_nonce cl) | Inl _ \<Rightarrow> first_nonce env ts a t now toks)"

definition by_consent :: "'s gate_call \<Rightarrow> policy_decision \<Rightarrow> bool" where
  "by_consent c d \<longleftrightarrow>
     d_state d \<in> {ALLOWED, HUMAN_REVIEW}
     \<and> (case get_asset (g_store c) (req_asset_id (g_request c)) of
          Inl _ \<Rightarrow> False | Inr a \<Rightarrow> requires_consent a)"

definition gate_mark :: "pyenv \<Rightarrow> keyring \<Rightarrow> gateway_state \<Rightarrow> 's gate_call \<Rightarrow> str option" where
  "gate_mark env keys gs c =
     (case (fst (gate env keys gs c), get_asset (g_store c) (req_asset_id (g_request c))) of
        (Inr d, Inr a) \<Rightarrow>
          if by_consent c d
          then first_nonce env (tokens gs) (asset_id a) (tenant_id a)
                 (timestamp (local_off env) (g_now c)) (consent_tokens (g_request c))
          else None
      | _ \<Rightarrow> None)"

subsection \<open>Which asset a decision names\<close>

definition names :: "str \<Rightarrow> (exn + policy_decision) \<times> gateway_state \<Rightarrow> bool" where
  "names k out \<longleftrightarrow> (\<forall>d. fst out = Inr d \<longrightarrow> d_state d \<noteq> BLOCKED \<longrightarrow> d_asset_id d = k)"

lemma names_blocked: "names k (blocked req reason now asset gs)"
  using blocked_state by (auto simp: names_def)

lemma names_raise: "names k (Inl e, gs)"
  by (simp add: names_def)

lemma names_decide: "names k (decide req k st conds reason ticket now gs)"
  by (simp add: names_def decide_eq Let_def)

lemma names_run_rules:
  assumes "\<And>m gs. names k (stop m gs)" "\<And>gs. names k (go gs)"
  shows "names k (run_rules stop rs go gs)"
proof (induction rs arbitrary: gs)
  case (Cons r rs)
  obtain n c where r: "r = (n, c)" by (cases r)
  consider e where "c = Inl e" | m where "c = Inr (Some m)" | "c = Inr None"
    by (cases c) (auto simp: not_None_eq)
  then show ?case using assms Cons.IH by cases (auto simp: r names_raise)
qed (use assms in simp)

lemma names_consent_gate:
  assumes "\<And>gs. names (asset_id a) (go gs)" shows "names (asset_id a) (consent_gate env req a now go gs)"
  by (auto simp: consent_gate_def Let_def refuse_tokens_def assms names_decide names_raise names_blocked
      split: sum.split option.split prod.split bool.split)

lemma evaluate_names:
  assumes "evaluate env keys store rand req now gs = (Inr d, gs')" "d_state d \<noteq> BLOCKED"
  shows "\<exists>a. get_asset store (req_asset_id req) = Inr a \<and> d_asset_id d = asset_id a"
proof -
  have inner: "evaluate_inner env keys store rand req now gs = (Inr d, gs')"
    using assms blocked_state [of req _ now None _ d]
    by (auto simp: evaluate_def split: prod.splits sum.splits) (metis fst_conv)
  show ?thesis
  proof (cases "get_asset store (req_asset_id req)")
    case (Inl e)
    then show ?thesis using inner assms(2) blocked_state [of req _ now None gs d]
      by (cases e) (simp_all add: evaluate_inner_def, metis fst_conv)
  next
    case (Inr a)
    have "names (asset_id a) (evaluate_inner env keys store rand req now gs)"
      unfolding evaluate_inner_rules [OF Inr]
      by (intro names_run_rules names_blocked names_consent_gate) (simp add: conclude_def names_decide)
    with inner assms(2) Inr show ?thesis by (simp add: names_def)
  qed
qed

subsection \<open>One call\<close>

lemma gate_total:
  assumes "0 \<le> counter gs"
  shows "\<exists>d gs'. gate env keys gs c = (Inr d, gs') \<and> well_formed_step (g_request c) (g_now c) gs (Inr d, gs')"
  using evaluate_total [OF assms] by (simp add: gate_def)

lemma consume_first:
  "consume_loop env ts a t now toks = (Inr True, ts') \<Longrightarrow>
     \<exists>n. first_nonce env ts a t now toks = Some n \<and> n \<notin> used_nonces ts
       \<and> ts' = ts\<lparr>used_nonces := insert n (used_nonces ts)\<rparr>"
proof (induction toks)
  case (Cons token toks)
  show ?case
  proof (cases "verify env ts token a t now")
    case (Inl e)
    with Cons show ?thesis by (cases e) auto
  next
    case (Inr p)
    obtain cl ts'' where p: "p = (cl, ts'')" by (cases p)
    with Cons.prems Inr have "ts'' = ts'" by auto
    with verify_iff [THEN iffD1, OF Inr [unfolded p]] Inr p show ?thesis by simp
  qed
qed simp

lemma consent_taken_first:
  "consent_taken env ts req a now = Some ts' \<Longrightarrow>
     \<exists>n. first_nonce env ts (asset_id a) (tenant_id a) (timestamp (local_off env) now) (consent_tokens req) = Some n
       \<and> n \<notin> used_nonces ts \<and> ts' = ts\<lparr>used_nonces := insert n (used_nonces ts)\<rparr>"
  by (rule consume_first)
     (auto simp: consent_taken_def Let_def split: sum.splits option.splits bool.splits prod.splits)

text \<open>A call spends one fresh nonce when it grants by consent, and none otherwise.\<close>

lemma gate_spends:
  assumes "0 \<le> counter gs" "request_ok (g_request c)" "gate env keys gs c = (Inr d, gs')"
  shows "if by_consent c d
    then \<exists>n. gate_mark env keys gs c = Some n \<and> n \<notin> used_nonces (tokens gs)
           \<and> used_nonces (tokens gs') = insert n (used_nonces (tokens gs))
    else gate_mark env keys gs c = None \<and> used_nonces (tokens gs') = used_nonces (tokens gs)"
proof -
  have out: "outcome env keys (g_store c) (g_request c) (g_now c) (tokens gs) = (d_state d, tokens gs')"
    using evaluate_outcomeD [OF assms(1,2)] assms(3) by (simp add: gate_def)
  show ?thesis
  proof (cases "get_asset (g_store c) (req_asset_id (g_request c))")
    case (Inl e)
    with out show ?thesis by (auto simp: by_consent_def gate_mark_def outcome_def assms(3))
  next
    case (Inr a)
    show ?thesis
    proof (cases "d_state d = BLOCKED \<or> d_state d = CONDITIONAL \<or> \<not> requires_consent a")
      case True
      have "tokens gs' = tokens gs"
        using outcome_blocked [of env keys "g_store c"] outcome_cases [OF out] out True Inr
        by (cases "d_state d = BLOCKED") (auto split: if_splits)
      moreover have "\<not> by_consent c d" using True Inr by (auto simp: by_consent_def)
      ultimately show ?thesis by (simp add: gate_mark_def assms(3) split: sum.split)
    next
      case False
      then have "by_consent c d" using Inr by (cases "d_state d") (auto simp: by_consent_def)
      moreover have "consent_taken env (tokens gs) (g_request c) a (g_now c) = Some (tokens gs')"
        using outcome_cases [OF out] False Inr by auto
      ultimately show ?thesis
        using consent_taken_first [of env "tokens gs" "g_request c" a "g_now c" "tokens gs'"]
        by (auto simp: gate_mark_def assms(3) Inr)
    qed
  qed
qed

subsection \<open>Histories\<close>

definition calls_ok :: "'s gate_call list \<Rightarrow> bool" where
  "calls_ok cs \<longleftrightarrow> list_all (\<lambda>c. request_ok (g_request c)) cs"

text \<open>The steps with a request that did not validate are left out: there is no such object.\<close>

definition checked_step :: "pyenv \<Rightarrow> keyring \<Rightarrow> gateway_state \<Rightarrow> 's gate_call \<Rightarrow> gateway_state" where
  "checked_step env keys gs c = (if request_ok (g_request c) then gate_step env keys gs c else gs)"

definition checked_mark :: "pyenv \<Rightarrow> keyring \<Rightarrow> gateway_state \<Rightarrow> 's gate_call \<Rightarrow> str option" where
  "checked_mark env keys gs c = (if request_ok (g_request c) then gate_mark env keys gs c else None)"

interpretation consents: single_use "checked_step env keys" "checked_mark env keys"
  "\<lambda>gs. used_nonces (tokens gs)" "\<lambda>gs. 0 \<le> counter gs"
proof unfold_locales
  fix gs :: gateway_state and c :: "'s gate_call" assume c: "0 \<le> counter gs"
  obtain d gs' where g: "gate env keys gs c = (Inr d, gs')"
    and wf: "well_formed_step (g_request c) (g_now c) gs (Inr d, gs')" using gate_total [OF c] by blast
  from c g wf show "0 \<le> counter (checked_step env keys gs c)"
    by (auto simp: checked_step_def gate_step_def well_formed_step_def)
  from g wf show "used_nonces (tokens gs) \<subseteq> used_nonces (tokens (checked_step env keys gs c))"
    by (auto simp: checked_step_def gate_step_def well_formed_step_def)
  fix n assume "checked_mark env keys gs c = Some n"
  then have "request_ok (g_request c)" "gate_mark env keys gs c = Some n"
    by (auto simp: checked_mark_def split: if_splits)
  with gate_spends [OF c _ g] show "n \<notin> used_nonces (tokens gs)
      \<and> n \<in> used_nonces (tokens (checked_step env keys gs c))"
    by (auto simp: checked_step_def gate_step_def g split: if_splits)
qed

lemma checked_run:
  "calls_ok cs \<Longrightarrow>
     foldl (checked_step env keys) gs cs = foldl (gate_step env keys) gs cs
     \<and> marks (checked_step env keys) (checked_mark env keys) gs cs = marks (gate_step env keys) (gate_mark env keys) gs cs"
  by (induction cs arbitrary: gs) (simp_all add: calls_ok_def checked_step_def checked_mark_def)

fun consent_grants :: "pyenv \<Rightarrow> keyring \<Rightarrow> gateway_state \<Rightarrow> 's gate_call list \<Rightarrow> nat" where
  "consent_grants env keys gs [] = 0"
| "consent_grants env keys gs (c # cs) =
     (case fst (gate env keys gs c) of Inl e \<Rightarrow> 0 | Inr d \<Rightarrow> if by_consent c d then 1 else 0)
     + consent_grants env keys (gate_step env keys gs c) cs"

lemma gate_counter: "0 \<le> counter gs \<Longrightarrow> 0 \<le> counter (gate_step env keys gs c)"
  using gate_total [of gs env keys c] by (auto simp: gate_step_def well_formed_step_def)

text \<open>Grants by consent are counted by the nonces that they spend.\<close>

lemma consent_grants_card:
  assumes "0 \<le> counter gs" "calls_ok cs" "finite (used_nonces (tokens gs))"
  shows "finite (used_nonces (tokens (foldl (gate_step env keys) gs cs)))
    \<and> card (used_nonces (tokens (foldl (gate_step env keys) gs cs))) =
        card (used_nonces (tokens gs)) + consent_grants env keys gs cs"
  using assms
proof (induction cs arbitrary: gs)
  case (Cons c cs)
  obtain d gs' where g: "gate env keys gs c = (Inr d, gs')" using gate_total [OF Cons.prems(1)] by blast
  have ok: "request_ok (g_request c)" "calls_ok cs" using Cons.prems(2) by (simp_all add: calls_ok_def)
  note s = gate_spends [OF Cons.prems(1) ok(1) g]
  have gs': "gate_step env keys gs c = gs'" by (simp add: gate_step_def g)
  from s Cons.prems(3) have "finite (used_nonces (tokens gs'))"
    and "card (used_nonces (tokens gs')) = card (used_nonces (tokens gs)) + (if by_consent c d then 1 else 0)"
    by (auto split: if_splits)
  with Cons.IH [of gs'] gate_counter [OF Cons.prems(1), of env keys c] ok gs' show ?case
    by (simp add: g)
qed simp

lemma decisions_numbered:
  "0 \<le> counter gs \<Longrightarrow>
     length (decisions env keys gs cs) = length cs
     \<and> sorted_wrt (<) (map d_sequence (decisions env keys gs cs))
     \<and> (\<forall>d\<in>set (decisions env keys gs cs). counter gs \<le> d_sequence d \<and> decision_ok d)"
proof (induction cs arbitrary: gs)
  case (Cons c cs)
  obtain d gs' where g: "gate env keys gs c = (Inr d, gs')"
    and wf: "well_formed_step (g_request c) (g_now c) gs (Inr d, gs')" using gate_total [OF Cons.prems] by blast
  have gs': "gate_step env keys gs c = gs'" by (simp add: gate_step_def g)
  from wf have w: "counter gs \<le> d_sequence d" "d_sequence d < counter gs'" "decision_ok d"
    by (auto simp: well_formed_step_def)
  with Cons.prems have "0 \<le> counter gs'" by simp
  from Cons.IH [OF this] w show ?case by (fastforce simp: g gs')
qed simp

end
