(* ===== verification/System.thy ===== *)
theory System
  imports EngineProofs LedgerProofs Connectors Discovery Admission Service GatewayHistory
begin

text \<open>
  The parts together, wired as \<open>scripts/generate_evidence.py\<close> wires them: one asset store
  whose revocation listener is \<open>registry.quarantine\<close>, the connector registry, the workflow
  engine with its gateway reading that store, and the ledger. A history is a list of calls;
  a call that raises keeps whatever it had done.
\<close>

record world =
  w_store :: "registry asset_store"
  w_registry :: registry
  w_engine :: engine
  w_ledger :: ledger

definition new_world :: "token_store \<Rightarrow> str \<Rightarrow> world" where
  "new_world ts trace_id =
     \<lparr>w_store = add_revocation_listener new_store quarantine, w_registry = [],
      w_engine = new_engine \<lparr>tokens = ts, counter = 0\<rparr> trace_id, w_ledger = new_ledger\<rparr>"

datatype world_op =
    WRegister asset
  | WWithdraw str int
  | WConnector registry_op
  | WSubmit draw policy_request
  | WTool clock str str attrs
  | WOutput clock str attrs
  | WRelease draw clock policy_request
  | WLedger ledger_op

text \<open>The call of the engine, on the store as it is now.\<close>

fun engine_call :: "world \<Rightarrow> world_op \<Rightarrow> registry engine_op option" where
  "engine_call w (WSubmit dr req) = Some (OpSubmit (w_store w) dr req)"
| "engine_call w (WTool t rid tool args) = Some (OpTool t rid tool args)"
| "engine_call w (WOutput t rid out) = Some (OpOutput t rid out)"
| "engine_call w (WRelease dr t req) = Some (OpRelease (w_store w) dr t req)"
| "engine_call w opn = None"

fun world_step :: "pyenv \<Rightarrow> keyring \<Rightarrow> world \<Rightarrow> world_op \<Rightarrow> world" where
  "world_step env keys w (WRegister a) =
     (case register env (w_store w) a of Inl _ \<Rightarrow> w | Inr s \<Rightarrow> w\<lparr>w_store := s\<rparr>)"
| "world_step env keys w (WWithdraw k ns) =
     (case withdraw (w_store w) k ns (w_registry w) of
        Inl _ \<Rightarrow> w | Inr (_, s, r) \<Rightarrow> w\<lparr>w_store := s, w_registry := r\<rparr>)"
| "world_step env keys w (WConnector c) = w\<lparr>w_registry := registry_step env (w_registry w) c\<rparr>"
| "world_step env keys w (WLedger c) = w\<lparr>w_ledger := ledger_step env (w_ledger w) c\<rparr>"
| "world_step env keys w opn =
     (case engine_call w opn of
        None \<Rightarrow> w | Some c \<Rightarrow> w\<lparr>w_engine := engine_do env keys (w_engine w) c\<rparr>)"

lemma world_step_engine:
  "engine_call w opn = Some c \<Longrightarrow>
     world_step env keys w opn = w\<lparr>w_engine := engine_do env keys (w_engine w) c\<rparr>"
  by (cases opn) auto

lemma world_op_cases:
  obtains (Register) a where "opn = WRegister a" | (Withdraw) k ns where "opn = WWithdraw k ns"
    | (Connector) c where "opn = WConnector c" | (Ledger) c where "opn = WLedger c"
    | (Engine) c where "engine_call w opn = Some c"
  by (cases opn) auto

subsection \<open>The invariant of the whole\<close>

definition decision_number :: "policy_decision option \<Rightarrow> int" where
  "decision_number x = (case x of None \<Rightarrow> -1 | Some d \<Rightarrow> d_sequence d)"

definition run_number :: "workflow_run \<Rightarrow> int" where
  "run_number wr = decision_number (decision wr)"

text \<open>Runs carry the numbers of their decisions, in the order in which they were submitted.\<close>

definition numbered :: "engine \<Rightarrow> bool" where
  "numbered e \<longleftrightarrow>
     sorted_wrt (<) (map run_number (objects e)) \<and> (\<forall>wr\<in>set (objects e). run_number wr < counter (gateway e))"

text \<open>Every run that was not refused concerns an asset of the registry.\<close>

definition grounded :: "'s asset_store \<Rightarrow> engine \<Rightarrow> bool" where
  "grounded s e \<longleftrightarrow>
     (\<forall>wr\<in>set (objects e). \<forall>d. decision wr = Some d \<longrightarrow> d_state d \<noteq> BLOCKED \<longrightarrow> contains_asset s (d_asset_id d))"

definition world_inv :: "world \<Rightarrow> bool" where
  "world_inv w \<longleftrightarrow>
     store_inv (w_store w) \<and> listeners (w_store w) = [quarantine] \<and> registry_inv (w_registry w)
     \<and> engine_inv (w_engine w) \<and> numbered (w_engine w) \<and> grounded (w_store w) (w_engine w)
     \<and> ledger_inv (w_ledger w)"

lemma world_inv_new: "world_inv (new_world ts tid)"
  by (simp add: world_inv_def new_world_def store_inv_listener store_inv_new registry_inv_Nil
      engine_inv_new ledger_inv_new)
     (simp add: add_revocation_listener_def new_store_def numbered_def grounded_def new_engine_def)

subsection \<open>What the engine's calls do to the decisions\<close>

lemma file_run_decisions: "map decision (objects (snd (file_run e r rid req d))) = map decision (objects e)"
proof -
  have upd: "map decision (objs[r := (objs ! r)\<lparr>w_state := st\<rparr>]) = map decision objs" for objs st
  proof (rule nth_equalityI)
    fix i assume "i < length (map decision (objs[r := (objs ! r)\<lparr>w_state := st\<rparr>]))"
    then show "map decision (objs[r := (objs ! r)\<lparr>w_state := st\<rparr>]) ! i = map decision objs ! i"
      by (cases "i = r") simp_all
  qed simp
  show ?thesis
    by (auto simp: file_run_def Let_def set_state_def set_run_def upd split: policy_state.split option.split)
qed

lemma file_run_gateway [simp]: "gateway (snd (file_run e r rid req d)) = gateway e"
  by (auto simp: file_run_def Let_def set_state_def split: policy_state.split option.split)

lemma submit_decisions:
  assumes "engine_inv e"
  obtains d gs where
    "evaluate env keys store (dr_ticket dr) req (dr_now dr) (gateway e) = (Inr d, gs)"
    and "gateway (snd (submit env keys store dr req e)) = gs"
    and "map decision (objects (snd (submit env keys store dr req e))) =
           map decision (objects e) @ [Some d]"
proof -
  from submit_cases [OF assms, of env keys store dr req] obtain d gs w e3 where
    ev: "evaluate env keys store (dr_ticket dr) req (dr_now dr) (gateway e) = (Inr d, gs)"
    and w: "w = \<lparr>run_id = dr_run_id dr, w_request_id = req_id req, w_state = PENDING,
              decision = Some d, tool_calls = [], outputs = []\<rparr>"
    and e3: "e3 = e\<lparr>gateway := gs, objects := objects e @ [w], trace := trace e3\<rparr>"
    and out: "(\<exists>x. submit env keys store dr req e = (Inl x, e3))
      \<or> submit env keys store dr req e = file_run e3 (length (objects e)) (dr_run_id dr) req d"
    by metis
  have "objects e3 = objects e @ [w]" "gateway e3 = gs" by (subst e3, simp)+
  with out w show thesis by (intro that [OF ev]) (auto simp: file_run_decisions)
qed

lemma release_core:
  "(gateway (snd (release_conditional env keys store dr t req e)) = gateway e
     \<and> objects (snd (release_conditional env keys store dr t req e)) = objects e)
   \<or> (gateway (snd (release_conditional env keys store dr t req e)) = gateway (snd (submit env keys store dr req e))
     \<and> objects (snd (release_conditional env keys store dr t req e)) = objects (snd (submit env keys store dr req e)))"
proof -
  obtain x e1 where s: "submit env keys store dr req e = (x, e1)" by force
  show ?thesis
    by (cases x) (auto simp: release_conditional_def s Let_def snd_keep split: option.split)
qed

lemma evolves_decision: "run_evolves w v \<Longrightarrow> decision v = decision w"
  by (auto elim!: run_evolvesE)

lemma evolve_decisions:
  assumes "objects_evolve e e'" "length (objects e') = length (objects e)"
  shows "map decision (objects e') = map decision (objects e)"
  using assms evolves_decision by (auto simp: objects_evolve_def intro!: nth_equalityI)

text \<open>A call takes no decision and leaves the gateway, or takes one and appends it.\<close>

definition decides :: "pyenv \<Rightarrow> keyring \<Rightarrow> engine \<Rightarrow> 's engine_op \<Rightarrow> policy_request \<Rightarrow> policy_decision \<Rightarrow> bool" where
  "decides env keys e c req d \<longleftrightarrow>
     (\<exists>store dr gs. (c = OpSubmit store dr req \<or> (\<exists>t. c = OpRelease store dr t req))
        \<and> evaluate env keys store (dr_ticket dr) req (dr_now dr) (gateway e) = (Inr d, gs)
        \<and> gateway (engine_do env keys e c) = gs)"

lemma engine_do_decisions:
  assumes "engine_inv e"
  shows "(gateway (engine_do env keys e c) = gateway e
       \<and> map decision (objects (engine_do env keys e c)) = map decision (objects e))
    \<or> (\<exists>req d. decides env keys e c req d
       \<and> map decision (objects (engine_do env keys e c)) = map decision (objects e) @ [Some d])"
proof (cases c)
  case (OpSubmit store dr req)
  from submit_decisions [OF assms, of env keys store dr req] show ?thesis
    unfolding OpSubmit engine_do.simps decides_def by metis
next
  case (OpTool t rid tool args)
  have "gateway (engine_do env keys e c) = gateway e"
    "length (objects (engine_do env keys e c)) = length (objects e)"
    by (auto simp: OpTool record_tool_call_def Let_def snd_keep split: option.split)
  with evolve_decisions engine_do_evolves [OF assms, of env keys c] show ?thesis by blast
next
  case (OpOutput t rid out)
  have "gateway (engine_do env keys e c) = gateway e"
    "length (objects (engine_do env keys e c)) = length (objects e)"
    by (auto simp: OpOutput record_output_def Let_def split: option.split)
  with evolve_decisions engine_do_evolves [OF assms, of env keys c] show ?thesis by blast
next
  case (OpRelease store dr t req)
  from release_core [of env keys store dr t req e] submit_decisions [OF assms, of env keys store dr req]
  show ?thesis unfolding OpRelease engine_do.simps decides_def by metis
qed

lemma decides_bounds:
  fixes c :: "'s engine_op"
  assumes "decides env keys e c req d" "0 \<le> counter (gateway e)"
  shows "counter (gateway e) \<le> d_sequence d \<and> d_sequence d < counter (gateway (engine_do env keys e c))"
proof -
  from assms(1) obtain store :: "'s asset_store" and dr :: draw and gs where
    ev: "evaluate env keys store (dr_ticket dr) req (dr_now dr) (gateway e) = (Inr d, gs)"
    and gs: "gateway (engine_do env keys e c) = gs" unfolding decides_def by blast
  from evaluate_total [OF assms(2), of env keys store "dr_ticket dr" req "dr_now dr"] ev
  have "well_formed_step req (dr_now dr) (gateway e) (Inr d, gs)" by auto
  with gs show ?thesis by (auto simp: well_formed_step_def)
qed

text \<open>Both invariants speak of the decisions only.\<close>

lemma numbered_alt:
  "numbered e \<longleftrightarrow> sorted_wrt (<) (map decision_number (map decision (objects e)))
     \<and> (\<forall>x\<in>set (map decision (objects e)). decision_number x < counter (gateway e))"
proof -
  have "map run_number (objects e) = map decision_number (map decision (objects e))"
    by (simp add: run_number_def)
  then show ?thesis by (simp only: numbered_def) (auto simp: run_number_def)
qed

lemma numbered_step:
  assumes "engine_inv e" "numbered e" shows "numbered (engine_do env keys e c)"
  using engine_do_decisions [OF assms(1), of env keys c]
proof (elim disjE conjE exE)
  fix req d
  assume d: "decides env keys e c req d"
    and obj: "map decision (objects (engine_do env keys e c)) = map decision (objects e) @ [Some d]"
  have "0 \<le> counter (gateway e)" using assms(1) by (simp add: engine_inv_def)
  note b = decides_bounds [OF d this]
  have dn: "decision_number (Some d) = d_sequence d" by (simp add: decision_number_def)
  have lt: "decision_number x < counter (gateway e)" if "x \<in> set (map decision (objects e))" for x
    using assms(2) that unfolding numbered_alt by blast
  show ?thesis
    using assms(2) b lt unfolding numbered_alt obj
    by (fastforce simp: sorted_wrt_append dn)
qed (use assms(2) in \<open>simp add: numbered_alt\<close>)

lemma contains_register: "register env s a = Inr s' \<Longrightarrow> contains_asset s k \<Longrightarrow> contains_asset s' k"
  using register_keeps [of env s a s' k] by (auto simp: contains_asset_def keeps_asset_def)

lemma contains_withdraw: "withdraw s j ns x = Inr (a, s', y) \<Longrightarrow> contains_asset s k \<Longrightarrow> contains_asset s' k"
  using withdraw_keeps [of s j ns x a s' y k] by (auto simp: contains_asset_def keeps_asset_def)

lemma grounded_mono:
  "(\<And>k. contains_asset s k \<Longrightarrow> contains_asset s' k) \<Longrightarrow> grounded s e \<Longrightarrow> grounded s' e"
  by (auto simp: grounded_def)

lemma grounded_alt:
  "grounded s e \<longleftrightarrow> (\<forall>x\<in>set (map decision (objects e)). \<forall>d. x = Some d \<longrightarrow> d_state d \<noteq> BLOCKED \<longrightarrow>
     contains_asset s (d_asset_id d))"
  by (auto simp: grounded_def)

lemma grounded_step:
  assumes "engine_inv e" "store_inv s" "grounded s e" "sees (\<lambda>x. x = s) c"
  shows "grounded s (engine_do env keys e c)"
  using engine_do_decisions [OF assms(1), of env keys c]
proof (elim disjE conjE exE)
  fix req d
  assume "decides env keys e c req d"
    and obj: "map decision (objects (engine_do env keys e c)) = map decision (objects e) @ [Some d]"
  then obtain dr :: draw and gs where "evaluate env keys s (dr_ticket dr) req (dr_now dr) (gateway e) = (Inr d, gs)"
    using assms(4) unfolding decides_def by (metis sees.simps(1,2))
  from evaluate_names [OF this] have "contains_asset s (d_asset_id d)" if "d_state d \<noteq> BLOCKED"
    using that assms(2) by (auto simp: contains_asset_def get_asset_iff store_inv_def)
  then show ?thesis using assms(3) unfolding grounded_alt obj by auto
qed (use assms(3) in \<open>simp add: grounded_alt\<close>)

lemma engine_call_sees: "engine_call w opn = Some c \<Longrightarrow> sees (\<lambda>x. x = w_store w) c"
  by (cases opn) auto

lemma withdraw_listeners: "withdraw s k ns x = Inr (a, s', y) \<Longrightarrow> listeners s' = listeners s"
  by (auto simp: withdraw_def Let_def split: option.splits)

lemma register_listeners: "register env s a = Inr s' \<Longrightarrow> listeners s' = listeners s"
  by (auto simp: register_def split: option.splits)

theorem world_step_inv:
  assumes inv: "world_inv w" shows "world_inv (world_step env keys w opn)"
proof (rule world_op_cases [where opn = opn and w = w])
  fix a assume "opn = WRegister a"
  with inv show ?thesis
    by (auto simp: world_inv_def register_listeners intro: store_inv_register
        grounded_mono [OF contains_register] split: sum.split)
next
  fix k ns assume "opn = WWithdraw k ns"
  with inv show ?thesis
    by (auto simp: world_inv_def withdraw_listeners intro: store_inv_withdraw
        grounded_mono [OF contains_withdraw] registry_inv_quarantine
        dest: withdraw_quarantines split: sum.split)
next
  fix c assume "opn = WConnector c"
  with inv show ?thesis by (simp add: world_inv_def registry_inv_step)
next
  fix c assume "opn = WLedger c"
  with inv show ?thesis by (simp add: world_inv_def runs.inv_step)
next
  fix c assume "engine_call w opn = Some c"
  with inv show ?thesis
    by (simp add: world_step_engine world_inv_def engine_do_inv numbered_step grounded_step engine_call_sees)
qed

subsection \<open>Reachable states and histories\<close>

inductive world_reach :: "pyenv \<Rightarrow> keyring \<Rightarrow> world \<Rightarrow> bool" for env keys where
  start: "world_reach env keys (new_world ts tid)"
| step: "world_reach env keys w \<Longrightarrow> world_reach env keys (world_step env keys w opn)"

lemma world_reach_inv: "world_reach env keys w \<Longrightarrow> world_inv w"
  by (induction rule: world_reach.induct) (simp_all add: world_inv_new world_step_inv)

lemma world_reach_run: "world_reach env keys w \<Longrightarrow> world_reach env keys (foldl (world_step env keys) w opns)"
  by (induction opns arbitrary: w) (simp_all add: world_reach.step)

text \<open>The store of the whole system is a registry that never re-admits.\<close>

interpretation world: monotone_registry "world_step env keys" "\<lambda>w. dget (assets (w_store w))"
proof unfold_locales
  fix w k opn
  show "keeps_asset (dget (assets (w_store w)) k) (dget (assets (w_store (world_step env keys w opn))) k)"
    by (rule world_op_cases [where opn = opn and w = w])
       (auto simp: world_step_engine intro: register_keeps withdraw_keeps split: sum.split)
qed

text \<open>What a withdrawal stops, from the call on and through whatever happens afterwards.\<close>

lemma submit_withdrawn:
  assumes "engine_inv e" "get_asset s (req_asset_id req) = Inr a" "withdrawn a"
  shows "map decision (objects (snd (submit env keys s dr req e))) = map decision (objects e) @
      [Some (draft req (if asset_id a = [] then req_asset_id req else asset_id a) BLOCKED []
        (lit ''asset rights withdrawn'') None (dr_now dr) (counter (gateway e)))]
    \<and> tokens (gateway (snd (submit env keys s dr req e))) = tokens (gateway e)"
proof -
  have "0 \<le> counter (gateway e)" using assms(1) by (simp add: engine_inv_def)
  note ev = evaluate_withdrawn [OF assms(2,3) this, of env keys "dr_ticket dr" "dr_now dr"]
  show ?thesis
    by (rule submit_decisions [OF assms(1), of env keys s dr req]) (simp add: ev)
qed

lemma world_run_inv: "world_inv w \<Longrightarrow> world_inv (foldl (world_step env keys) w opns)"
  by (induction opns arbitrary: w) (simp_all add: world_step_inv)

lemma withdraw_step:
  assumes "contains_asset (w_store w) k"
  obtains a where "dget (assets (w_store (world_step env keys w (WWithdraw k ns)))) k = Some a" "withdrawn a"
    and "listeners (w_store w) = [quarantine] \<Longrightarrow>
      w_registry (world_step env keys w (WWithdraw k ns)) = quarantine k ns (w_registry w)"
proof -
  from assms obtain a s r where w: "withdraw (w_store w) k ns (w_registry w) = Inr (a, s, r)"
    using withdraw_defined [of "w_store w" k ns "w_registry w"] by auto
  with withdraw_get [OF this, of k] withdraw_quarantines [OF this] show ?thesis
    by (intro that [of a]) (auto simp: get_asset_iff)
qed

lemma world_withdrawn_stays:
  assumes "world_inv w" "contains_asset (w_store w) k"
    and "w' = foldl (world_step env keys) (world_step env keys w (WWithdraw k ns)) opns"
  shows "world_inv w' \<and> (\<exists>a. get_asset (w_store w') k = Inr a \<and> withdrawn a \<and> asset_id a = k)"
proof -
  obtain a where "dget (assets (w_store (world_step env keys w (WWithdraw k ns)))) k = Some a" "withdrawn a"
    using withdraw_step [OF assms(2)] by blast
  from world.withdrawn_forever [OF this, of env keys opns] obtain b where
    b: "dget (assets (w_store w')) k = Some b" "withdrawn b" unfolding assms(3) by blast
  have inv: "world_inv w'" unfolding assms(3) by (intro world_run_inv world_step_inv assms(1))
  with b show ?thesis by (auto simp: get_asset_iff world_inv_def store_inv_def)
qed

text \<open>The quarantine that a withdrawal starts ends only by an acknowledgement of the connector.\<close>

lemma world_quarantine_step:
  assumes "world_inv w" "holds_quarantine (w_registry w) i k" "opn \<noteq> WConnector (OpAcknowledge i)"
  shows "holds_quarantine (w_registry (world_step env keys w opn)) i k"
proof (rule world_op_cases [where opn = opn and w = w])
  fix j ns assume "opn = WWithdraw j ns"
  moreover have "holds_quarantine (quarantine j ns (w_registry w)) i k"
    using holds_quarantine_step [OF assms(2), of "OpQuarantine j ns"] by simp
  moreover have "listeners (w_store w) = [quarantine]" using assms(1) by (simp add: world_inv_def)
  ultimately show ?thesis
    using assms(2) by (auto dest: withdraw_quarantines split: sum.split)
next
  fix c assume "opn = WConnector c"
  with assms holds_quarantine_step [OF assms(2), of c] show ?thesis by simp
qed (use assms(2) in \<open>auto simp: world_step_engine split: sum.split\<close>)

lemma world_quarantine_run:
  assumes "world_inv w" "holds_quarantine (w_registry w) i k" "WConnector (OpAcknowledge i) \<notin> set opns"
  shows "holds_quarantine (w_registry (foldl (world_step env keys) w opns)) i k"
  using assms
proof (induction opns arbitrary: w)
  case (Cons opn opns)
  have "world_inv (world_step env keys w opn)" by (rule world_step_inv [OF Cons.prems(1)])
  moreover have "holds_quarantine (w_registry (world_step env keys w opn)) i k"
    using Cons.prems(3) by (intro world_quarantine_step [OF Cons.prems(1,2)]) auto
  ultimately show ?case using Cons.IH Cons.prems(3) by simp
qed simp

lemma withdraw_starts_quarantine:
  assumes "world_inv w" "contains_asset (w_store w) k" "dget (w_registry w) i \<noteq> None"
  shows "holds_quarantine (w_registry (world_step env keys w (WWithdraw k ns))) i k"
proof -
  have "listeners (w_store w) = [quarantine]" using assms(1) by (simp add: world_inv_def)
  then have "w_registry (world_step env keys w (WWithdraw k ns)) = quarantine k ns (w_registry w)"
    using withdraw_step [OF assms(2)] by metis
  with assms(3) show ?thesis
    by (auto simp: holds_quarantine_def dget_quarantine quarantine_one_def)
qed

end
