(* ===== verification/Statements.thy ===== *)
theory Statements
  imports LedgerProofs
begin

text \<open>
  \<open>src/explanations/statements.py\<close>: the texts rendered from the ledger. The formatting of an
  amount loses nothing, so a statement can be read back.
\<close>

definition format_cents :: "int \<Rightarrow> str" where
  "format_cents cents =
     (let sign = (if cents < 0 then lit ''-'' else []); a = nat \<bar>cents\<bar>
      in sign @ dec (a div 100) @ lit ''.'' @ zpad 2 (a mod 100))"

definition custodian_statement_text :: "ledger \<Rightarrow> str \<Rightarrow> str" where
  "custodian_statement_text s cust =
     (let (gross, adj, net) = statement_for_custodian s cust
      in join [10]
        [lit ''Custodian statement: '' @ cust,
         lit ''Gross allocated: '' @ format_cents gross,
         lit ''Adjustments: '' @ format_cents adj,
         lit ''Net payable: '' @ format_cents net])"

definition record_line :: "ledger_record \<Rightarrow> int \<Rightarrow> str" where
  "record_line r net =
     lit ''  '' @ l_asset_id r @ lit '' -> '' @ l_custodian_id r @ lit '': alloc ''
     @ format_cents (allocated_cents r) @ lit '' ('' @ str_int (share_basis_points r)
     @ lit ''bp) net '' @ format_cents net"

fun statement_lines :: "ledger \<Rightarrow> ledger_record list \<Rightarrow> exn + str list" where
  "statement_lines s [] = Inr []"
| "statement_lines s (r # rs) =
     andthen (net_for_record s (record_id r)) (\<lambda>net.
     andthen (statement_lines s rs) (\<lambda>ls. Inr (record_line r net # ls)))"

definition run_statement_text :: "ledger \<Rightarrow> str \<Rightarrow> int \<Rightarrow> exn + str" where
  "run_statement_text s run revenue =
     andthen (statement_lines s (records_for_run s run)) (\<lambda>ls.
       Inr (join [10] ((lit ''Run statement: '' @ run @ lit '' (revenue '' @ format_cents revenue @ lit '')'') # ls)))"

subsection \<open>Amounts can be read back\<close>

lemma dec_no_dot: "46 \<notin> set (dec n)" "45 \<notin> set (dec n)"
  using dec_digits by (fastforce simp: is_digit_def)+

lemma dec_hd: "hd (dec n) \<noteq> 45"
  using dec_no_dot(2) [of n] by (cases "dec n") auto

lemma cents_digits_inject:
  "dec (a div 100) @ 46 # zpad 2 (a mod 100) = dec (b div 100) @ 46 # zpad 2 (b mod 100)
     \<longleftrightarrow> a = b"
proof
  assume "dec (a div 100) @ 46 # zpad 2 (a mod 100) = dec (b div 100) @ 46 # zpad 2 (b mod 100)"
  then have "a div 100 = b div 100" "a mod 100 = b mod 100"
    using dec_no_dot by (simp_all add: sep_append_inject)
  then show "a = b" by (metis div_mult_mod_eq)
qed simp

lemma format_cents_inject: "format_cents x = format_cents y \<longleftrightarrow> x = y"
proof
  define b where "b n = dec (n div 100) @ 46 # zpad 2 (n mod 100)" for n
  have f: "format_cents z = (if z < 0 then 45 # b (nat \<bar>z\<bar>) else b (nat \<bar>z\<bar>))" for z
    by (simp add: format_cents_def Let_def lit_Cons b_def)
  have "hd (b n) \<noteq> 45" for n using dec_hd by (simp add: b_def)
  then have hd: "b n \<noteq> 45 # u" "45 # u \<noteq> b n" for n u by (metis list.sel(1))+
  assume "format_cents x = format_cents y"
  then have "(x < 0) = (y < 0)" "b (nat \<bar>x\<bar>) = b (nat \<bar>y\<bar>)"
    unfolding f using hd by (auto split: if_splits)
  moreover from this(2) have "nat \<bar>x\<bar> = nat \<bar>y\<bar>" by (simp add: b_def cents_digits_inject)
  ultimately show "x = y" by (auto split: if_splits)
qed simp

subsection \<open>A statement of a posted ledger is always defined\<close>

lemma statement_lines_defined:
  "\<forall>r\<in>set rs. dget (records s) (record_id r) = Some r \<Longrightarrow>
     statement_lines s rs = Inr (map (\<lambda>r. record_line r (allocated_cents r + adjustments s r)) rs)"
  by (induction rs) (simp_all add: net_for_record_eq)

lemma stored_record:
  "ledger_inv s \<Longrightarrow> r \<in> set (records_for_run s run) \<Longrightarrow> dget (records s) (record_id r) = Some r"
  by (auto simp: records_for_run_def ledger_inv_def dget_Some_iff)

lemma run_statement_defined:
  "ledger_inv s \<Longrightarrow> run_statement_text s run revenue = Inr (join [10]
     ((lit ''Run statement: '' @ run @ lit '' (revenue '' @ format_cents revenue @ lit '')'')
       # map (\<lambda>r. record_line r (allocated_cents r + adjustments s r)) (records_for_run s run)))"
  using stored_record by (simp add: run_statement_text_def statement_lines_defined)

end
