(* ===== verification/Observability.thy ===== *)
theory Observability
  imports JsonLayout
begin

text \<open>
  \<open>src/observability/tracing.py\<close>: the NDJSON log and the span exporter. \<open>emit\<close> takes its
  sequence number and writes its line under two separate acquisitions of the lock, so it is
  two steps here, and other threads may come between them. The log file is the text written
  so far; what \<open>write_file\<close> writes is \<open>spans_text\<close>.
\<close>

subsection \<open>A dump is one line\<close>

text \<open>Line breaks in strings are escaped.\<close>

lemma hexdigit_not_newline: "n < 16 \<Longrightarrow> hexdigit n \<noteq> 10"
  by (simp add: hexdigit_def)

lemma hexn_no_newline: "10 \<notin> set (hexn k n)"
  by (induction k arbitrary: n) (auto simp: hexdigit_not_newline dest: sym)

lemma quote_no_newline: "10 \<notin> set (quote s)"
proof -
  have "10 \<notin> set (esc_char c)" for c
    using hexn_no_newline by (auto simp: esc_char_def)
  then show ?thesis by (auto simp: quote_def)
qed

lemma str_int_no_newline: "10 \<notin> set (str_int n)"
  by (cases rule: str_int_cases [of n]) (auto simp: is_digit_def dest!: dec_digits)

lemma dumps_spaced_one_line: "no_float j \<Longrightarrow> 10 \<notin> set (dumps_spaced j)"
proof (induction j rule: dumps_spaced.induct)
  case (1 xs)
  then show ?case by (auto simp: lit_Cons dest!: join_set)
next
  case (2 kvs)
  let ?ms = "sort_key fst (map (\<lambda>(k, v). (k, dumps_spaced v)) kvs)"
  have "10 \<notin> set p" if p: "p \<in> set (map (\<lambda>(k, d). quote k @ lit '': '' @ d) ?ms)" for p
  proof -
    from p obtain k v where kv: "(k, v) \<in> set kvs" "p = quote k @ lit '': '' @ dumps_spaced v"
      by auto
    then have "no_float v" using "2.prems" by auto
    then have "10 \<notin> set (dumps_spaced v)" using "2.IH" kv(1) by blast
    then show ?thesis using quote_no_newline by (simp add: kv(2) lit_Cons)
  qed
  then have "10 \<notin> set (join (lit '', '') (map (\<lambda>(k, d). quote k @ lit '': '' @ d) ?ms))"
    by (auto simp: lit_Cons dest!: join_set simp del: set_map)
  then show ?case by simp
qed (auto simp: lit_Cons quote_no_newline str_int_no_newline)

subsection \<open>The log\<close>

record log_record =
  seq :: nat
  level :: str
  lg_event :: str
  lg_wall :: str
  lg_ns :: int
  attributes :: "(str, json) dict"

definition log_json :: "log_record \<Rightarrow> json" where
  "log_json r =
     JObj [(lit ''seq'', JInt (int (seq r))), (lit ''level'', JStr (level r)),
           (lit ''event'', JStr (lg_event r)), (lit ''wall_time'', JStr (lg_wall r)),
           (lit ''monotonic_ns'', JInt (lg_ns r)), (lit ''attributes'', JObj (attributes r))]"

text \<open>\<open>pending\<close> holds the records that threads have numbered and not yet written.\<close>

record logger =
  next_seq :: nat
  pending :: "log_record list"
  written :: "log_record list"

definition new_logger :: logger where
  "new_logger = \<lparr>next_seq = 0, pending = [], written = []\<rparr>"

definition log_file :: "logger \<Rightarrow> str" where
  "log_file lg = concat (map (\<lambda>r. dumps_spaced (log_json r) @ [10]) (written lg))"

text \<open>The first step of \<open>emit\<close>: a number is taken and the record built.\<close>

definition emit_begin ::
    "str \<Rightarrow> str \<Rightarrow> str \<Rightarrow> int \<Rightarrow> (str, json) dict option \<Rightarrow> logger \<Rightarrow> logger" where
  "emit_begin lv ev wall ns att lg =
     lg\<lparr>next_seq := next_seq lg + 1,
        pending := pending lg @
          [\<lparr>seq = next_seq lg, level = lv, lg_event = ev, lg_wall = wall, lg_ns = ns,
            attributes = (case att of None \<Rightarrow> [] | Some a \<Rightarrow> a)\<rparr>]\<rparr>"

text \<open>The second: one of the numbered records is written.\<close>

definition emit_end :: "nat \<Rightarrow> logger \<Rightarrow> logger" where
  "emit_end i lg =
     (if i < length (pending lg)
      then lg\<lparr>pending := take i (pending lg) @ drop (Suc i) (pending lg),
              written := written lg @ [pending lg ! i]\<rparr>
      else lg)"

inductive log_reach :: "logger \<Rightarrow> bool" where
  start: "log_reach new_logger"
| number: "log_reach lg \<Longrightarrow> log_reach (emit_begin lv ev wall ns att lg)"
| finish: "log_reach lg \<Longrightarrow> log_reach (emit_end i lg)"

lemma take_drop_nth:
  assumes "i < length xs"
  obtains a c b where "xs = a @ c # b" "take i xs @ drop (Suc i) xs = a @ b" "xs ! i = c"
  using that [OF id_take_nth_drop [OF assms]] by simp

lemma log_reach_numbers:
  "log_reach lg \<Longrightarrow>
     distinct (map seq (written lg @ pending lg))
     \<and> seq ` set (written lg @ pending lg) = {..<next_seq lg}"
proof (induction rule: log_reach.induct)
  case (number lg lv ev wall ns att)
  then show ?case by (auto simp: emit_begin_def lessThan_Suc)
next
  case (finish lg i)
  show ?case
  proof (cases "i < length (pending lg)")
    case True
    obtain a c b where p: "pending lg = a @ c # b"
      "take i (pending lg) @ drop (Suc i) (pending lg) = a @ b" "pending lg ! i = c"
      by (rule take_drop_nth [OF True])
    then have e: "written (emit_end i lg) @ pending (emit_end i lg) = written lg @ c # a @ b"
      "next_seq (emit_end i lg) = next_seq lg"
      using True by (simp_all add: emit_end_def)
    from finish.IH show ?thesis unfolding e p(1) by auto
  qed (use finish in \<open>simp add: emit_end_def\<close>)
qed (simp add: new_logger_def)

text \<open>With no other thread in between, the lines are in the order of their numbers.\<close>

definition emit_alone ::
    "str \<Rightarrow> str \<Rightarrow> str \<Rightarrow> int \<Rightarrow> (str, json) dict option \<Rightarrow> logger \<Rightarrow> logger" where
  "emit_alone lv ev wall ns att lg = emit_end 0 (emit_begin lv ev wall ns att lg)"

lemma emit_alone_numbers:
  assumes "pending lg = []" "map seq (written lg) = [0..<next_seq lg]"
  shows "pending (emit_alone lv ev wall ns att lg) = []
    \<and> map seq (written (emit_alone lv ev wall ns att lg)) = [0..<next_seq (emit_alone lv ev wall ns att lg)]"
  using assms by (simp add: emit_alone_def emit_end_def emit_begin_def)

text \<open>The file reads back line by line.\<close>

fun split_lines :: "str \<Rightarrow> str \<Rightarrow> str list" where
  "split_lines acc [] = (if acc = [] then [] else [acc])"
| "split_lines acc (c # s) = (if c = 10 then acc # split_lines [] s else split_lines (acc @ [c]) s)"

lemma split_lines_line: "10 \<notin> set l \<Longrightarrow> split_lines acc (l @ 10 # s) = (acc @ l) # split_lines [] s"
  by (induction l arbitrary: acc) auto

lemma split_lines_concat:
  "(\<And>l. l \<in> set ls \<Longrightarrow> 10 \<notin> set l) \<Longrightarrow> split_lines [] (concat (map (\<lambda>l. l @ [10]) ls)) = ls"
  by (induction ls) (simp_all add: split_lines_line)

lemma log_file_reads_back:
  assumes "\<forall>r\<in>set (written lg). json_ok (log_json r)"
  shows "map loads (split_lines [] (log_file lg)) = map (\<lambda>r. Inr (jsort (log_json r))) (written lg)"
proof -
  let ?ls = "map (\<lambda>r. dumps_spaced (log_json r)) (written lg)"
  have "split_lines [] (log_file lg) = ?ls"
    using split_lines_concat [of ?ls] dumps_spaced_one_line [OF json_ok_no_float] assms
    by (auto simp: log_file_def comp_def)
  then show ?thesis using assms loads_layouts(2) [OF json_ok_text] by simp
qed

subsection \<open>Spans\<close>

definition hex16 :: "int \<Rightarrow> str" where
  "hex16 n = hexn 16 (nat n)"

definition start_span :: "str \<Rightarrow> str \<Rightarrow> (str, json) dict option \<Rightarrow> int \<Rightarrow> int \<Rightarrow> (str, json) dict" where
  "start_span tid name att ns unix =
     [(lit ''trace_id'', JStr tid), (lit ''span_id'', JStr (hex16 ns)), (lit ''name'', JStr name),
      (lit ''start_time_unix_nano'', JInt unix),
      (lit ''attributes'', JObj (case att of None \<Rightarrow> [] | Some a \<Rightarrow> a))]"

text \<open>The exporter is the list of finished spans; \<open>end_span\<close> works on a copy of its argument.\<close>

definition end_span ::
    "(str, json) dict list \<Rightarrow> (str, json) dict \<Rightarrow> str \<Rightarrow> int \<Rightarrow> (str, json) dict \<times> (str, json) dict list" where
  "end_span spans span status unix =
     (let finished = dput (dput span (lit ''end_time_unix_nano'') (JInt unix)) (lit ''status'') (JStr status)
      in (finished, spans @ [finished]))"

text \<open>\<open>spans()\<close> returns a copy of the list; \<open>write_file\<close> writes its JSON with \<open>indent=2\<close>.\<close>

definition spans_text :: "(str, json) dict list \<Rightarrow> str" where
  "spans_text spans = dumps_indent 0 (JArr (map JObj spans))"

lemma spans_read_back:
  "\<forall>s\<in>set spans. json_text (JObj s) \<Longrightarrow> loads (spans_text spans) = Inr (JArr (map (\<lambda>s. jsort (JObj s)) spans))"
  using loads_layouts(1) [of "JArr (map JObj spans)" 0] by (simp add: spans_text_def comp_def)

lemma end_span_keeps:
  "end_span spans span status unix = (fin, spans') \<Longrightarrow>
     spans' = spans @ [fin] \<and> dget fin (lit ''status'') = Some (JStr status)
     \<and> dget fin (lit ''end_time_unix_nano'') = Some (JInt unix)
     \<and> (\<forall>k. k \<noteq> lit ''status'' \<longrightarrow> k \<noteq> lit ''end_time_unix_nano'' \<longrightarrow> dget fin k = dget span k)"
  by (auto simp: end_span_def Let_def dget_dput)

end
