(* ===== verification/Benchmark.thy ===== *)
theory Benchmark
  imports Files Service
begin

text \<open>
  \<open>scripts/run_benchmark.py\<close>: the service is started, waited for and stopped again, k6 is run, its
  summary read, the file of results written and a table printed. k6, the network and the operating
  system are outside: what the probes see, what \<open>Popen\<close> and \<open>wait\<close> raise, and k6 as a script on the
  files that takes its arguments and environment, are arguments. So are \<open>fl\<close>, which is
  \<open>repr(float(x))\<close> of a decoded JSON value, and \<open>fixed2\<close>, which is \<open>format(x, ".2f")\<close>:
  conversions of floating-point numbers; the model works on their texts.
\<close>

subsection \<open>The machine\<close>

text \<open>
  The files, what has been printed, and the process of the service with its arguments: it runs, has
  been sent the signal to end, or has been seen to have ended.
\<close>

datatype process = Running | Signalled | Exited

record machine =
  m_files :: files
  m_out :: str
  m_err :: str
  m_service :: "(str list \<times> process) option"

definition at_files :: "(files, 'a) script \<Rightarrow> (machine, 'a) script" where
  "at_files m s = (case m (m_files s) of (r, fs) \<Rightarrow> (r, s\<lparr>m_files := fs\<rparr>))"

definition print_text :: "str \<Rightarrow> (machine, unit) script" where
  "print_text t = change (\<lambda>s. s\<lparr>m_out := m_out s @ t\<rparr>)"

definition print_err :: "str \<Rightarrow> (machine, unit) script" where
  "print_err t = change (\<lambda>s. s\<lparr>m_err := m_err s @ t\<rparr>)"

definition print_line :: "str \<Rightarrow> (machine, unit) script" where
  "print_line t = print_text (t @ [10])"

subsection \<open>Waiting for the service\<close>

text \<open>
  One pass of the loop reads the clock and, before the deadline, probes the service. The passes
  are given by what they observe; a list that is used up means that the loop is still running.
\<close>

fun wait_for_health ::
    "(exn option \<Rightarrow> str) \<Rightarrow> str \<Rightarrow> int \<Rightarrow> exn option \<Rightarrow> (int \<times> (exn + nat)) list \<Rightarrow> (exn + unit) option" where
  "wait_for_health exc_text base deadline seen [] = None"
| "wait_for_health exc_text base deadline seen ((now, probe) # rest) =
     (if now < deadline
      then (case probe of
              Inr status \<Rightarrow>
                if status = 200 then Some (Inr ()) else wait_for_health exc_text base deadline seen rest
            | Inl e \<Rightarrow> wait_for_health exc_text base deadline (Some e) rest)
      else Some (Inl (RuntimeError (lit ''gateway at '' @ base @ lit '' not healthy: '' @ exc_text seen))))"

subsection \<open>Running k6\<close>

record k6_end =
  k6_code :: int
  k6_out :: str
  k6_err :: str

type_synonym k6_run = "str list \<Rightarrow> (str, str) dict \<Rightarrow> (files, k6_end) script"

definition k6_command :: "str \<Rightarrow> str \<Rightarrow> str list" where
  "k6_command suite summary_path =
     [lit ''k6'', lit ''run'', lit ''--summary-export'', summary_path, lit ''--summary-mode'', lit ''full'',
      lit ''--summary-trend-stats'', lit ''avg,min,med,max,p(90),p(95),p(99),count'', suite]"

definition k6_environ :: "(str, str) dict \<Rightarrow> str \<Rightarrow> (str, str) dict" where
  "k6_environ environ base = dput environ (lit ''K6_URL'') base"

text \<open>\<open>s[-n:]\<close>.\<close>

definition last_chars :: "nat \<Rightarrow> str \<Rightarrow> str" where
  "last_chars n s = drop (length s - n) s"

definition run_k6 ::
    "k6_run \<Rightarrow> (str, str) dict \<Rightarrow> str \<Rightarrow> str \<Rightarrow> str \<Rightarrow> (machine, json) script" where
  "run_k6 k6 environ suite summary_path base =
     seq_do (at_files (k6 (k6_command suite summary_path) (k6_environ environ base))) (\<lambda>proc.
     seq_do (print_text (last_chars 4000 (k6_out proc))) (\<lambda>_.
     if k6_code proc \<noteq> 0
     then seq_do (print_err (last_chars 4000 (k6_err proc))) (\<lambda>_.
            give (Inl (RuntimeError (lit ''k6 exited with code '' @ str_int (k6_code proc)))))
     else seq_do (at_files (read_text summary_path)) (\<lambda>t. give (loads t))))"

subsection \<open>Reading the summary\<close>

text \<open>\<open>bool(x)\<close> of a decoded JSON value.\<close>

fun json_true :: "(json \<Rightarrow> exn + str) \<Rightarrow> json \<Rightarrow> bool" where
  "json_true fl JNull = False"
| "json_true fl (JBool b) = b"
| "json_true fl (JInt n) = (n \<noteq> 0)"
| "json_true fl (JFloat l) = (fl (JFloat l) \<notin> {Inr (lit ''0.0''), Inr (lit ''-0.0'')})"
| "json_true fl (JStr s) = (s \<noteq> [])"
| "json_true fl (JArr xs) = (xs \<noteq> [])"
| "json_true fl (JObj kvs) = (kvs \<noteq> [])"

text \<open>\<open>assert isinstance(x, dict)\<close>.\<close>

fun as_dict :: "json \<Rightarrow> exn + (str, json) dict" where
  "as_dict (JObj kvs) = Inr kvs"
| "as_dict j = Inl AssertionError"

definition dict_get :: "(str, json) dict \<Rightarrow> str \<Rightarrow> json \<Rightarrow> json" where
  "dict_get d k dflt = (case dget d k of None \<Rightarrow> dflt | Some v \<Rightarrow> v)"

definition any_true :: "(json \<Rightarrow> exn + str) \<Rightarrow> (str, json) dict \<Rightarrow> bool" where
  "any_true fl d = list_ex (json_true fl) (dvals d)"

definition zero_float :: json where
  "zero_float = JFloat (lit ''0.0'')"

text \<open>\<open>float(entry.get(k, 0.0))\<close> as a value to write out.\<close>

definition float_item :: "(json \<Rightarrow> exn + str) \<Rightarrow> (str, json) dict \<Rightarrow> str \<Rightarrow> exn + json" where
  "float_item fl entry k = andthen (fl (dict_get entry k zero_float)) (\<lambda>l. Inr (JFloat l))"

definition trend ::
    "pyenv \<Rightarrow> (json \<Rightarrow> exn + str) \<Rightarrow> (str, json) dict \<Rightarrow> str \<Rightarrow> str \<Rightarrow> exn + json" where
  "trend env fl metrics name tag =
     (let key = name @ lit ''{'' @ tag @ lit ''}''
      in andthen (case dget metrics key of None \<Rightarrow> Inl AssertionError | Some e \<Rightarrow> as_dict e) (\<lambda>entry.
         andthen (as_dict (dict_get entry (lit ''thresholds'') (JObj []))) (\<lambda>breached.
         if any_true fl breached
         then Inl (RuntimeError (lit ''threshold breached on '' @ key @ lit '': '' @ json_repr env (JObj breached)))
         else andthen (float_item fl entry (lit ''med'')) (\<lambda>p50.
              andthen (float_item fl entry (lit ''p(95)'')) (\<lambda>p95.
              andthen (float_item fl entry (lit ''p(99)'')) (\<lambda>p99.
              andthen (float_item fl entry (lit ''avg'')) (\<lambda>avg.
              andthen (float_item fl entry (lit ''max'')) (\<lambda>mx.
              andthen (float_item fl entry (lit ''count'')) (\<lambda>count.
                Inr (JObj [(lit ''p50'', p50), (lit ''p95'', p95), (lit ''p99'', p99),
                           (lit ''avg'', avg), (lit ''max'', mx), (lit ''count'', count)]))))))))))"

definition extract_results :: "pyenv \<Rightarrow> (json \<Rightarrow> exn + str) \<Rightarrow> json \<Rightarrow> exn + (str, json) dict" where
  "extract_results env fl summary =
     andthen (andthen (json_get summary (lit ''metrics'') (JObj [])) as_dict) (\<lambda>metrics.
     andthen (as_dict (dict_get metrics (lit ''http_req_failed'') (JObj []))) (\<lambda>failed.
     andthen (float_item fl failed (lit ''value'')) (\<lambda>fail_rate.
     andthen (as_dict (dict_get failed (lit ''thresholds'') (JObj []))) (\<lambda>thresholds.
     if any_true fl thresholds
     then Inl (RuntimeError (lit ''failure-rate threshold breached: '' @ json_repr env (JObj thresholds)))
     else andthen (trend env fl metrics (lit ''http_req_duration'') (lit ''load:200rps'')) (\<lambda>r200.
          andthen (trend env fl metrics (lit ''http_req_duration'') (lit ''load:500rps'')) (\<lambda>r500.
          andthen (trend env fl metrics (lit ''http_req_duration'') (lit ''load:1000rps'')) (\<lambda>r1000.
            Inr [(lit ''evaluate_200rps_ms'', r200), (lit ''evaluate_500rps_ms'', r500),
                 (lit ''evaluate_1000rps_ms'', r1000), (lit ''http_req_failed_rate'', fail_rate),
                 (lit ''thresholds_passed'', JBool True)])))))))"

subsection \<open>The table\<close>

definition pad_left :: "nat \<Rightarrow> str \<Rightarrow> str" where
  "pad_left n s = replicate (n - length s) 32 @ s"

definition pad_right :: "nat \<Rightarrow> str \<Rightarrow> str" where
  "pad_right n s = s @ replicate (n - length s) 32"

definition dict_item :: "(str, json) dict \<Rightarrow> str \<Rightarrow> exn + json" where
  "dict_item d k = (case dget d k of None \<Rightarrow> Inl (KeyError k) | Some v \<Rightarrow> Inr v)"

definition table_row :: "(json \<Rightarrow> exn + str) \<Rightarrow> (str, json) dict \<Rightarrow> str \<Rightarrow> exn + str" where
  "table_row fixed2 results lev =
     andthen (andthen (dict_item results lev) as_dict) (\<lambda>row.
     andthen (andthen (dict_item row (lit ''p50'')) fixed2) (\<lambda>p50.
     andthen (andthen (dict_item row (lit ''p95'')) fixed2) (\<lambda>p95.
       Inr (lit ''| '' @ pad_right 14 lev @ lit '' | '' @ pad_left 14 p50 @ lit '' | '' @ pad_left 13 p95 @ lit '' |''))))"

definition table_rule :: str where
  "table_rule = lit ''+----------------+----------------+---------------+''"

definition TABLE_LEVELS :: "str list" where
  "TABLE_LEVELS = [lit ''evaluate_200rps_ms'', lit ''evaluate_500rps_ms'', lit ''evaluate_1000rps_ms'']"

fun print_rows :: "(json \<Rightarrow> exn + str) \<Rightarrow> (str, json) dict \<Rightarrow> str list \<Rightarrow> (machine, unit) script" where
  "print_rows fixed2 results [] = give (Inr ())"
| "print_rows fixed2 results (lev # levs) =
     seq_do (give (table_row fixed2 results lev)) (\<lambda>t.
     seq_do (print_line t) (\<lambda>_. print_rows fixed2 results levs))"

definition print_table :: "(json \<Rightarrow> exn + str) \<Rightarrow> (str, json) dict \<Rightarrow> (machine, unit) script" where
  "print_table fixed2 results =
     seq_do (print_line (10 # table_rule)) (\<lambda>_.
     seq_do (print_line (lit ''| load level     | p50 (ms)       | p95 (ms)      |'')) (\<lambda>_.
     seq_do (print_line table_rule) (\<lambda>_.
     seq_do (print_rows fixed2 results TABLE_LEVELS) (\<lambda>_. print_line table_rule))))"

subsection \<open>The whole run\<close>

definition benchmark_payload :: "str \<Rightarrow> str \<Rightarrow> (str, json) dict \<Rightarrow> json" where
  "benchmark_payload base recorded results =
     JObj ([(lit ''gateway'', JStr base), (lit ''suite'', JStr (lit ''benchmarks/k6_gateway_stress.js'')),
            (lit ''recorded_at'', JStr recorded)] @ results)"

definition service_command :: "str \<Rightarrow> str \<Rightarrow> int \<Rightarrow> str list" where
  "service_command python host port =
     [python, lit ''-m'', lit ''src.policy.service'', lit ''--host'', host, lit ''--port'', str_int port]"

definition start_service :: "(str list \<Rightarrow> exn + unit) \<Rightarrow> str list \<Rightarrow> (machine, unit) script" where
  "start_service popen argv =
     seq_do (give (popen argv)) (\<lambda>_. change (\<lambda>s. s\<lparr>m_service := Some (argv, Running)\<rparr>))"

text \<open>
  \<open>terminate\<close> only sends the signal. \<open>wait(timeout=10)\<close> returns when the process has ended; when it
  raises (\<open>TimeoutExpired\<close>), the process has been signalled and is still there.
\<close>

definition set_process :: "process \<Rightarrow> (machine, unit) script" where
  "set_process p = change (\<lambda>s. s\<lparr>m_service := map_option (\<lambda>(argv, _). (argv, p)) (m_service s)\<rparr>)"

definition stop_service :: "exn + unit \<Rightarrow> (machine, unit) script" where
  "stop_service waited =
     seq_do (set_process Signalled) (\<lambda>_.
     seq_do (give waited) (\<lambda>_. set_process Exited))"

text \<open>What \<open>main\<close> takes from outside.\<close>

record outside =
  x_popen :: "str list \<Rightarrow> exn + unit"
  x_health :: "exn + unit"
  x_k6 :: k6_run
  x_environ :: "(str, str) dict"
  x_python :: str
  x_recorded :: str
  x_waited :: "exn + unit"

text \<open>
  \<open>main\<close> with its three arguments, \<open>out\<close> as the components of its path; \<open>x_health\<close> is what
  \<open>wait_for_health\<close> comes to, once it ends. \<open>benchmark_body\<close> is the block that \<open>finally\<close> guards.
\<close>

definition benchmark_body ::
    "pyenv \<Rightarrow> (json \<Rightarrow> exn + str) \<Rightarrow> (json \<Rightarrow> exn + str) \<Rightarrow> outside \<Rightarrow> str \<Rightarrow> str \<Rightarrow> str \<Rightarrow> (machine, unit) script" where
  "benchmark_body env fl fixed2 x summary_path out_path base =
     seq_do (give (x_health x)) (\<lambda>_.
     seq_do (run_k6 (x_k6 x) (x_environ x) (lit ''benchmarks/k6_gateway_stress.js'') summary_path base) (\<lambda>summary.
     seq_do (give (extract_results env fl summary)) (\<lambda>results.
     seq_do (at_files (write_text out_path (dumps_indent 0 (benchmark_payload base (x_recorded x) results)))) (\<lambda>_.
       print_table fixed2 results))))"

definition benchmark_main ::
    "pyenv \<Rightarrow> (json \<Rightarrow> exn + str) \<Rightarrow> (json \<Rightarrow> exn + str) \<Rightarrow> outside \<Rightarrow> str list \<Rightarrow> str \<Rightarrow> int \<Rightarrow> (machine, unit) script" where
  "benchmark_main env fl fixed2 x out host port =
     (let base = lit ''http://'' @ host @ lit '':'' @ str_int port;
          summary_path = join [47] (butlast out @ [lit ''k6_summary.json''])
      in seq_do (at_files (make_dirs (butlast out))) (\<lambda>_.
         seq_do (start_service (x_popen x) (service_command (x_python x) host port)) (\<lambda>_.
         with_finally
           (benchmark_body env fl fixed2 x summary_path (join [47] out) base)
           (stop_service (x_waited x)))))"

text \<open>The same with the passes of the wait: undefined while the loop is still running.\<close>

definition benchmark_run ::
    "pyenv \<Rightarrow> (json \<Rightarrow> exn + str) \<Rightarrow> (json \<Rightarrow> exn + str) \<Rightarrow> (exn option \<Rightarrow> str) \<Rightarrow> int \<Rightarrow> (int \<times> (exn + nat)) list
     \<Rightarrow> outside \<Rightarrow> str list \<Rightarrow> str \<Rightarrow> int \<Rightarrow> machine \<Rightarrow> ((exn + unit) \<times> machine) option" where
  "benchmark_run env fl fixed2 exc_text deadline passes x out host port s =
     map_option (\<lambda>health. benchmark_main env fl fixed2 (x\<lparr>x_health := health\<rparr>) out host port s)
       (wait_for_health exc_text (lit ''http://'' @ host @ lit '':'' @ str_int port) deadline None passes)"

end
