(* ===== verification/EngineLive.thy ===== *)
theory EngineLive
  imports EngineProofs
begin

text \<open>
  What the engine gets done: an in-scope request is submitted, calls its tool and records its
  output without an exception, whatever the engine did before, and the run ends completed.
\<close>

subsection \<open>The decision on a request within the rights of its asset\<close>

lemma evaluate_granted:
  assumes "get_asset store (req_asset_id req) = Inr a" "within_rights env keys req now a"
    and "\<not> requires_consent a" "req_action req \<notin> set HIGH_RISK_ACTIONS" "0 \<le> counter gs"
  shows "evaluate env keys store rand req now gs =
    (Inr (draft req (asset_id a) ALLOWED [] (lit ''within assessed scope'') None now (counter gs)), bump gs)"
proof -
  have "evaluate_inner env keys store rand req now gs = conclude env rand req a now gs"
    using assms(2,3) by (simp add: evaluate_inner_rules [OF assms(1)] run_rules_pass all_pass_iff consent_gate_def)
  also have "\<dots> = (Inr (draft req (asset_id a) ALLOWED [] (lit ''within assessed scope'') None now (counter gs)), bump gs)"
    using assms(4,5) by (simp add: conclude_def decide_eq draft_ok Let_def truthy_def)
  finally show ?thesis by (simp add: evaluate_def)
qed

subsection \<open>The recorder takes what the engine writes\<close>

definition trace_ready :: "engine \<Rightarrow> bool" where
  "trace_ready e \<longleftrightarrow> digest_text (head_hash (events (trace e))) \<and> valid_str (rec_trace_id (trace e))"

lemma trace_ready_new: "valid_str tid \<Longrightarrow> trace_ready (new_engine gs tid)"
  by (simp add: trace_ready_def new_engine_def new_recorder_def head_hash_def digest_text_genesis)

lemma trace_ready_cong: "trace e' = trace e \<Longrightarrow> trace_ready e' = trace_ready e"
  by (simp add: trace_ready_def)

definition label_ok :: "str \<Rightarrow> bool" where
  "label_ok s \<longleftrightarrow> valid_str s \<and> s \<noteq> [] \<and> length s \<le> 64"

lemma emit_defined:
  assumes "trace_ready e" "valid_str rid" "label_ok ev" "label_ok act" "json_ok (JObj det)" "0 \<le> snd t"
  obtains rc where "emit e t rid ev act det = (Inr (), e\<lparr>trace := rc\<rparr>)" "trace_ready (e\<lparr>trace := rc\<rparr>)"
    "length (events rc) = length (events (trace e)) + 1"
proof -
  have "valid_str (isoformat d)" for d by (rule ascii_valid_str) (rule isoformat_ascii)
  then have "json_ok (event_body (rec_trace_id (trace e)) rid (int (length (events (trace e)))) (fst t) (snd t) ev act det)"
    using assms by (simp add: event_body_def wf_dict_def valid_lit trace_ready_def label_ok_def)
  with append_defined [of "trace e" rid "fst t" "snd t" ev act "Some det"] assms
  obtain r where r: "append_event (trace e) rid ev act (Some det) (fst t) (snd t)
      = Inr (r, (trace e)\<lparr>events := events (trace e) @ [r]\<rparr>)" "digest_text (event_hash r)"
    by (auto simp: trace_ready_def label_ok_def)
  show thesis
  proof (rule that)
    show "emit e t rid ev act det = (Inr (), e\<lparr>trace := (trace e)\<lparr>events := events (trace e) @ [r]\<rparr>\<rparr>)"
      using r(1) by (simp add: emit_def)
  qed (use assms(1) r(2) in \<open>simp_all add: trace_ready_def head_hash_def\<close>)
qed

lemma label_lit: "s \<noteq> [] \<Longrightarrow> length s \<le> 64 \<Longrightarrow> label_ok (lit s)"
  by (simp add: label_ok_def valid_lit)

lemma labels:
  "label_ok (lit ''request.received'')" "label_ok (lit ''workflow'')" "label_ok (lit ''policy.allowed'')"
  "label_ok (lit ''gateway'')" "label_ok (lit ''tool.called'')" "label_ok (lit ''agent'')"
  "label_ok (lit ''run.completed'')"
  by (rule label_lit; simp)+

lemma emit_one:
  assumes "trace_ready e" "valid_str rid" "label_ok ev" "label_ok act" "valid_str x" "0 \<le> snd t"
  obtains rc where "emit e t rid ev act [(lit k, JStr x)] = (Inr (), e\<lparr>trace := rc\<rparr>)" "trace_ready (e\<lparr>trace := rc\<rparr>)"
    "length (events rc) = length (events (trace e)) + 1"
proof (rule emit_defined [OF assms(1-4) _ assms(6), of "[(lit k, JStr x)]"])
  show "json_ok (JObj [(lit k, JStr x)])" using assms(5) by (simp add: wf_dict_def valid_lit)
qed (rule that)

subsection \<open>From submission to completion\<close>

text \<open>The run object when the engine enters it, by its state and what it recorded.\<close>

definition granted_run :: "draw \<Rightarrow> policy_request \<Rightarrow> policy_decision \<Rightarrow> run_state \<Rightarrow> (str \<times> attrs) list \<Rightarrow> attrs list \<Rightarrow> workflow_run" where
  "granted_run dr req d st calls outs =
     \<lparr>run_id = dr_run_id dr, w_request_id = req_id req, w_state = st, decision = Some d,
      tool_calls = calls, outputs = outs\<rparr>"

lemma submit_granted:
  assumes "trace_ready e" "evaluate env keys store (dr_ticket dr) req (dr_now dr) (gateway e) = (Inr d, gs)"
    and "d_state d = ALLOWED" "valid_str (d_reason d)" "valid_str (req_id req)" "valid_str (req_action req)"
    and "0 \<le> snd (dr_clock1 dr)" "0 \<le> snd (dr_clock2 dr)"
  obtains rc where "submit env keys store dr req e = (Inr (length (objects e)),
      e\<lparr>gateway := gs, objects := objects e @ [granted_run dr req d EXECUTING [] []], trace := rc,
        runs := dput (runs e) (dr_run_id dr) (length (objects e))\<rparr>)"
    and "trace_ready (e\<lparr>trace := rc\<rparr>)" "length (events rc) = length (events (trace e)) + 2"
proof -
  define e1 where "e1 = e\<lparr>gateway := gs, objects := objects e @ [granted_run dr req d PENDING [] []]\<rparr>"
  have tr1: "trace_ready e1" using assms(1) trace_ready_cong [of e1 e] by (simp add: e1_def)
  obtain rc1 where em1: "emit e1 (dr_clock1 dr) (req_id req) (lit ''request.received'') (lit ''workflow'')
      [(lit ''action'', JStr (req_action req))] = (Inr (), e1\<lparr>trace := rc1\<rparr>)" "trace_ready (e1\<lparr>trace := rc1\<rparr>)"
      "length (events rc1) = length (events (trace e1)) + 1"
    by (rule emit_one [OF tr1 assms(5) labels(1,2) assms(6,7)])
  have st: "state_event (d_state d) = lit ''policy.allowed''"
    by (simp add: assms(3) state_event_def lit_Cons ascii_lower_def)
  obtain rc2 where em2: "emit (e1\<lparr>trace := rc1\<rparr>) (dr_clock2 dr) (req_id req) (state_event (d_state d)) (lit ''gateway'')
      [(lit ''reason'', JStr (d_reason d)), (lit ''sequence'', JInt (d_sequence d))]
      = (Inr (), e1\<lparr>trace := rc2\<rparr>)" "trace_ready (e1\<lparr>trace := rc2\<rparr>)" "length (events rc2) = length (events rc1) + 1"
  proof (rule emit_defined [OF em1(2) assms(5) labels(3,4) _ assms(8)])
    show "json_ok (JObj [(lit ''reason'', JStr (d_reason d)), (lit ''sequence'', JInt (d_sequence d))])"
      using assms(4) by (simp add: wf_dict_def valid_lit)
  qed (simp add: that st)
  show thesis
  proof (rule that [of rc2])
    have e1: "e\<lparr>gateway := gs, objects := objects e @ [\<lparr>run_id = dr_run_id dr, w_request_id = req_id req,
        w_state = PENDING, decision = Some d, tool_calls = [], outputs = []\<rparr>]\<rparr> = e1"
      by (simp add: e1_def granted_run_def)
    have "submit env keys store dr req e = file_run (e1\<lparr>trace := rc2\<rparr>) (length (objects e)) (dr_run_id dr) req d"
      unfolding submit_def assms(2) by (simp add: Let_def e1 em1(1) em2(1))
    also have "\<dots> = (Inr (length (objects e)), set_state (e1\<lparr>trace := rc2, runs := dput (runs e1) (dr_run_id dr) (length (objects e))\<rparr>)
        (length (objects e)) EXECUTING)"
      by (simp add: file_run_def assms(3) Let_def)
    also have "set_state (e1\<lparr>trace := rc2, runs := dput (runs e1) (dr_run_id dr) (length (objects e))\<rparr>) (length (objects e)) EXECUTING
      = e\<lparr>gateway := gs, objects := objects e @ [granted_run dr req d EXECUTING [] []], trace := rc2,
          runs := dput (runs e) (dr_run_id dr) (length (objects e))\<rparr>"
      by (simp add: set_state_def set_run_def e1_def granted_run_def)
    finally show "submit env keys store dr req e = (Inr (length (objects e)),
      e\<lparr>gateway := gs, objects := objects e @ [granted_run dr req d EXECUTING [] []], trace := rc2,
        runs := dput (runs e) (dr_run_id dr) (length (objects e))\<rparr>)" .
    show "trace_ready (e\<lparr>trace := rc2\<rparr>)" using em2(2) by (simp add: trace_ready_def)
    show "length (events rc2) = length (events (trace e)) + 2" using em1(3) em2(3) by (simp add: e1_def)
  qed
qed

lemma tool_call_granted:
  assumes "trace_ready e" "r < length (objects e)" "dget (runs e) rid = Some r"
    and w: "objects e ! r = granted_run dr req d EXECUTING calls outs" "d_state d = ALLOWED"
    and "valid_str (req_id req)" "valid_str tool" "0 \<le> snd t"
  obtains rc where "record_tool_call e t rid tool args = (Inr (tool, args),
      e\<lparr>objects := (objects e)[r := granted_run dr req d EXECUTING (calls @ [(tool, args)]) outs], trace := rc\<rparr>)"
    and "trace_ready (e\<lparr>trace := rc\<rparr>)" "length (events rc) = length (events (trace e)) + 1"
proof -
  define e1 where "e1 = set_run e r (\<lambda>w. w\<lparr>tool_calls := tool_calls w @ [(tool, args)]\<rparr>)"
  have tr: "trace_ready e1" using assms(1) trace_ready_cong [of e1 e] by (simp add: e1_def)
  obtain rc where em: "emit e1 t (req_id req) (lit ''tool.called'') (lit ''agent'') [(lit ''tool'', JStr tool)]
      = (Inr (), e1\<lparr>trace := rc\<rparr>)" "trace_ready (e1\<lparr>trace := rc\<rparr>)" "length (events rc) = length (events (trace e1)) + 1"
    by (rule emit_one [OF tr assms(6) labels(5,6) assms(7,8)])
  show thesis
  proof (rule that [of rc])
    show "record_tool_call e t rid tool args = (Inr (tool, args),
      e\<lparr>objects := (objects e)[r := granted_run dr req d EXECUTING (calls @ [(tool, args)]) outs], trace := rc\<rparr>)"
      using em(1) assms(2,3) w
      by (simp add: record_tool_call_def Let_def flip: e1_def)
         (simp add: e1_def set_run_def granted_run_def)
    show "trace_ready (e\<lparr>trace := rc\<rparr>)" using em(2) by (simp add: trace_ready_def)
    show "length (events rc) = length (events (trace e)) + 1" using em(3) by (simp add: e1_def)
  qed
qed

lemma output_granted:
  assumes "trace_ready e" "r < length (objects e)" "dget (runs e) rid = Some r"
    and w: "objects e ! r = granted_run dr req d EXECUTING calls outs"
    and "valid_str (req_id req)" "0 \<le> snd t"
  obtains rc where "record_output e t rid out = (Inr (),
      e\<lparr>objects := (objects e)[r := granted_run dr req d COMPLETED calls (outs @ [out])], trace := rc\<rparr>)"
    and "trace_ready (e\<lparr>trace := rc\<rparr>)" "length (events rc) = length (events (trace e)) + 1"
proof -
  define e1 where "e1 = set_run e r (\<lambda>w. w\<lparr>outputs := outputs w @ [out], w_state := COMPLETED\<rparr>)"
  have tr: "trace_ready e1" using assms(1) trace_ready_cong [of e1 e] by (simp add: e1_def)
  obtain rc where em: "emit e1 t (req_id req) (lit ''run.completed'') (lit ''workflow'') [] = (Inr (), e1\<lparr>trace := rc\<rparr>)"
      "trace_ready (e1\<lparr>trace := rc\<rparr>)" "length (events rc) = length (events (trace e1)) + 1"
    by (rule emit_defined [OF tr assms(5) labels(7,2) _ assms(6), of "[]"]) simp_all
  show thesis
  proof (rule that [of rc])
    show "record_output e t rid out = (Inr (),
      e\<lparr>objects := (objects e)[r := granted_run dr req d COMPLETED calls (outs @ [out])], trace := rc\<rparr>)"
      using em(1) assms(3) w
      by (simp add: record_output_def Let_def flip: e1_def)
         (simp add: e1_def set_run_def granted_run_def)
    show "trace_ready (e\<lparr>trace := rc\<rparr>)" using em(2) by (simp add: trace_ready_def)
    show "length (events rc) = length (events (trace e)) + 1" using em(3) by (simp add: e1_def)
  qed
qed

text \<open>The three calls one after the other.\<close>

theorem granted_run_completes:
  assumes "trace_ready e" "evaluate env keys store (dr_ticket dr) req (dr_now dr) (gateway e) = (Inr d, gs)"
    and "d_state d = ALLOWED" "valid_str (d_reason d)" "valid_str (req_id req)" "valid_str (req_action req)"
    and "valid_str tool" "0 \<le> snd (dr_clock1 dr)" "0 \<le> snd (dr_clock2 dr)" "0 \<le> snd t" "0 \<le> snd t'"
  obtains r e1 e2 e3 where "submit env keys store dr req e = (Inr r, e1)"
    and "record_tool_call e1 t (run_id (objects e1 ! r)) tool args = (Inr (tool, args), e2)"
    and "record_output e2 t' (run_id (objects e2 ! r)) out = (Inr (), e3)"
    and "r = length (objects e)" "objects e3 = objects e @ [granted_run dr req d COMPLETED [(tool, args)] [out]]"
    and "gateway e3 = gs" "trace_ready e3" "length (events (trace e3)) = length (events (trace e)) + 4"
proof -
  let ?r = "length (objects e)" and ?rid = "dr_run_id dr"
  let ?w = "granted_run dr req d"
  obtain rc1 where s: "submit env keys store dr req e = (Inr ?r,
      e\<lparr>gateway := gs, objects := objects e @ [?w EXECUTING [] []], trace := rc1, runs := dput (runs e) ?rid ?r\<rparr>)"
    "trace_ready (e\<lparr>trace := rc1\<rparr>)" "length (events rc1) = length (events (trace e)) + 2"
    by (rule submit_granted [OF assms(1-6,8,9)])
  define e1 where "e1 = e\<lparr>gateway := gs, objects := objects e @ [?w EXECUTING [] []], trace := rc1,
    runs := dput (runs e) ?rid ?r\<rparr>"
  have 1: "trace_ready e1" "?r < length (objects e1)" "dget (runs e1) ?rid = Some ?r" "objects e1 ! ?r = ?w EXECUTING [] []"
    using s(2) by (simp_all add: e1_def trace_ready_def dget_dput)
  obtain rc2 where c: "record_tool_call e1 t ?rid tool args = (Inr (tool, args),
      e1\<lparr>objects := (objects e1)[?r := ?w EXECUTING ([] @ [(tool, args)]) []], trace := rc2\<rparr>)"
    "trace_ready (e1\<lparr>trace := rc2\<rparr>)" "length (events rc2) = length (events (trace e1)) + 1"
    by (rule tool_call_granted [OF 1 assms(3,5,7,10)])
  define e2 where "e2 = e1\<lparr>objects := (objects e1)[?r := ?w EXECUTING ([] @ [(tool, args)]) []], trace := rc2\<rparr>"
  have 2: "trace_ready e2" "?r < length (objects e2)" "dget (runs e2) ?rid = Some ?r"
    "objects e2 ! ?r = ?w EXECUTING [(tool, args)] []"
    using c(2) 1 by (simp_all add: e2_def trace_ready_def)
  obtain rc3 where p: "record_output e2 t' ?rid out = (Inr (),
      e2\<lparr>objects := (objects e2)[?r := ?w COMPLETED [(tool, args)] ([] @ [out])], trace := rc3\<rparr>)"
    "trace_ready (e2\<lparr>trace := rc3\<rparr>)" "length (events rc3) = length (events (trace e2)) + 1"
    by (rule output_granted [OF 2 assms(5,11)])
  have rid: "run_id (objects e1 ! ?r) = ?rid" "run_id (objects e2 ! ?r) = ?rid"
    unfolding 1(4) 2(4) by (simp_all add: granted_run_def)
  show thesis
  proof (rule that)
    show "submit env keys store dr req e = (Inr ?r, e1)" using s(1) by (simp add: e1_def)
    show "record_tool_call e1 t (run_id (objects e1 ! ?r)) tool args = (Inr (tool, args), e2)"
      using c(1) by (simp add: rid e2_def)
    show "record_output e2 t' (run_id (objects e2 ! ?r)) out = (Inr (),
        e2\<lparr>objects := (objects e2)[?r := ?w COMPLETED [(tool, args)] ([] @ [out])], trace := rc3\<rparr>)"
      using p(1) by (simp add: rid)
  qed (use p(2,3) c(3) s(3) in \<open>simp_all add: trace_ready_def e1_def e2_def\<close>)
qed

end
