(* ===== verification/BenchmarkProofs.thy ===== *)
theory BenchmarkProofs
  imports EvidenceProofs
begin

text \<open>
  From k6's summary to the rows of the claims: the results that \<open>run_benchmark.py\<close> writes are
  the ones that \<open>generate_evidence.py\<close> reads, and a row passes exactly when k6 measured less
  than 12 milliseconds. About the conversion \<open>fl\<close> of numbers only this is used: what it
  returns is the \<open>repr\<close> of a \<open>float\<close>, and converting a \<open>float\<close> does not change it.
\<close>

definition float_conversion :: "(json \<Rightarrow> exn + str) \<Rightarrow> bool" where
  "float_conversion fl \<longleftrightarrow> (\<forall>j l. fl j = Inr l \<longrightarrow> float_repr l \<and> fl (JFloat l) = Inr l)"

subsection \<open>Waiting for the service\<close>

lemma health_iff:
  "wait_for_health exc_text base deadline seen obs = Some (Inr ()) \<longleftrightarrow>
     (\<exists>i<length obs. snd (obs ! i) = Inr 200 \<and> (\<forall>k\<le>i. fst (obs ! k) < deadline))"
proof (induction obs arbitrary: seen)
  case (Cons ob obs)
  obtain now probe where ob: "ob = (now, probe)" by (cases ob)
  have split: "(\<exists>i<length (ob # obs). snd ((ob # obs) ! i) = Inr 200 \<and> (\<forall>k\<le>i. fst ((ob # obs) ! k) < deadline))
      \<longleftrightarrow> now < deadline \<and> (probe = Inr 200 \<or>
        (\<exists>i<length obs. snd (obs ! i) = Inr 200 \<and> (\<forall>k\<le>i. fst (obs ! k) < deadline)))"
    (is "?l \<longleftrightarrow> ?r")
  proof
    assume ?l
    then obtain i where i: "i < length (ob # obs)" "snd ((ob # obs) ! i) = Inr 200" "\<forall>k\<le>i. fst ((ob # obs) ! k) < deadline"
      by blast
    show ?r
    proof (cases i)
      case 0
      with i show ?thesis by (simp add: ob)
    next
      case (Suc j)
      have "fst (obs ! k) < deadline" if "k \<le> j" for k using i(3) Suc that by (auto dest: spec [of _ "Suc k"])
      with i Suc show ?thesis by (auto simp: ob)
    qed
  next
    assume r: ?r
    then consider "probe = Inr 200" | i where "i < length obs" "snd (obs ! i) = Inr 200" "\<forall>k\<le>i. fst (obs ! k) < deadline"
      by blast
    then show ?l
    proof cases
      case 1
      with r show ?thesis by (intro exI [of _ 0]) (simp add: ob)
    next
      case (2 i)
      with r show ?thesis by (intro exI [of _ "Suc i"]) (auto simp: ob nth_Cons split: nat.split)
    qed
  qed
  show ?case unfolding split by (cases probe) (auto simp: ob Cons.IH)
qed simp

text \<open>The loop ends once the clock reaches the deadline, however often the probes failed.\<close>

lemma health_returns:
  "\<exists>ob\<in>set obs. deadline \<le> fst ob \<Longrightarrow> wait_for_health exc_text base deadline seen obs \<noteq> None"
proof (induction obs arbitrary: seen)
  case (Cons ob obs)
  obtain now probe where ob: "ob = (now, probe)" by (cases ob)
  show ?case
  proof (cases "now < deadline")
    case True
    with Cons.prems have "\<exists>ob\<in>set obs. deadline \<le> fst ob" by (auto simp: ob)
    from Cons.IH [OF this] True show ?thesis by (cases probe) (simp_all add: ob)
  qed (simp add: ob)
qed simp

subsection \<open>What the results say\<close>

text \<open>One level of the results: no threshold was breached, and the numbers are those of the entry.\<close>

definition level_from ::
    "(json \<Rightarrow> exn + str) \<Rightarrow> (str, json) dict \<Rightarrow> str \<Rightarrow> json \<Rightarrow> bool" where
  "level_from fl metrics tag row \<longleftrightarrow>
     (\<exists>entry breached l50 l95 l99 lavg lmax lcount.
        dget metrics (lit ''http_req_duration{'' @ tag @ lit ''}'') = Some (JObj entry)
        \<and> dict_get entry (lit ''thresholds'') (JObj []) = JObj breached \<and> \<not> any_true fl breached
        \<and> fl (dict_get entry (lit ''med'') zero_float) = Inr l50
        \<and> fl (dict_get entry (lit ''p(95)'') zero_float) = Inr l95
        \<and> fl (dict_get entry (lit ''p(99)'') zero_float) = Inr l99
        \<and> fl (dict_get entry (lit ''avg'') zero_float) = Inr lavg
        \<and> fl (dict_get entry (lit ''max'') zero_float) = Inr lmax
        \<and> fl (dict_get entry (lit ''count'') zero_float) = Inr lcount
        \<and> row = JObj [(lit ''p50'', JFloat l50), (lit ''p95'', JFloat l95), (lit ''p99'', JFloat l99),
                       (lit ''avg'', JFloat lavg), (lit ''max'', JFloat lmax), (lit ''count'', JFloat lcount)])"

lemma as_dict_Inr: "as_dict j = Inr d \<longleftrightarrow> j = JObj d"
  by (cases j) auto

lemma trend_Inr:
  assumes "trend env fl metrics (lit ''http_req_duration'') tag = Inr row" shows "level_from fl metrics tag row"
proof -
  have key: "lit ''http_req_duration'' @ lit ''{'' @ tag @ lit ''}'' = lit ''http_req_duration{'' @ tag @ lit ''}''"
    by (simp add: lit_Cons)
  show ?thesis
    using assms unfolding trend_def Let_def key
    by (auto simp: andthen_eq_Inr as_dict_Inr float_item_def level_from_def split: option.splits if_splits)
qed

text \<open>The levels of load with the tags that k6 gives them.\<close>

definition TAGS :: "string list" where
  "TAGS = [''load:200rps'', ''load:500rps'', ''load:1000rps'']"

definition results_from :: "(json \<Rightarrow> exn + str) \<Rightarrow> (str, json) dict \<Rightarrow> (str, json) dict \<Rightarrow> bool" where
  "results_from fl metrics res \<longleftrightarrow>
     (\<exists>rows rate. length rows = 3 \<and> (\<forall>i<3. level_from fl metrics (lit (TAGS ! i)) (rows ! i)) \<and> (\<exists>j. fl j = Inr rate)
        \<and> res = zip (map lit LEVELS) rows
            @ [(lit ''http_req_failed_rate'', JFloat rate), (lit ''thresholds_passed'', JBool True)])"

lemma extract_Inr:
  assumes "extract_results env fl summary = Inr res"
  obtains metrics where "json_get summary (lit ''metrics'') (JObj []) = Inr (JObj metrics)" "results_from fl metrics res"
proof -
  obtain metrics j rate r1 r2 r3 where m: "json_get summary (lit ''metrics'') (JObj []) = Inr (JObj metrics)"
    and rate: "fl j = Inr rate"
    and r: "trend env fl metrics (lit ''http_req_duration'') (lit ''load:200rps'') = Inr r1"
      "trend env fl metrics (lit ''http_req_duration'') (lit ''load:500rps'') = Inr r2"
      "trend env fl metrics (lit ''http_req_duration'') (lit ''load:1000rps'') = Inr r3"
    and res: "res = [(lit ''evaluate_200rps_ms'', r1), (lit ''evaluate_500rps_ms'', r2),
        (lit ''evaluate_1000rps_ms'', r3), (lit ''http_req_failed_rate'', JFloat rate), (lit ''thresholds_passed'', JBool True)]"
    using assms unfolding extract_results_def
    by (auto simp: andthen_eq_Inr as_dict_Inr float_item_def split: if_splits)
  have "level_from fl metrics (lit (TAGS ! i)) ([r1, r2, r3] ! i)" if "i < 3" for i
    using that trend_Inr [OF r(1)] trend_Inr [OF r(2)] trend_Inr [OF r(3)]
    by (auto simp: less_Suc_eq numeral_3_eq_3 TAGS_def)
  then have "results_from fl metrics res"
    unfolding results_from_def using rate by (intro exI [of _ "[r1, r2, r3]"] exI [of _ rate]) (auto simp: res LEVELS_def)
  with m that show thesis by blast
qed

subsection \<open>From the file of results to the claims\<close>

definition level_keys :: "str list" where
  "level_keys = [lit ''p50'', lit ''p95'', lit ''p99'', lit ''avg'', lit ''max'', lit ''count'']"

lemma level_text:
  assumes "float_conversion fl" "level_from fl metrics tag row" shows "json_text row"
  using assms by (auto simp: level_from_def float_conversion_def wf_dict_def valid_lit)

lemma dget_zip_nth:
  "length ks = length vs \<Longrightarrow> distinct ks \<Longrightarrow> i < length ks \<Longrightarrow> dget (zip ks vs @ rest) (ks ! i) = Some (vs ! i)"
  by (simp add: map_add_def map_of_zip_nth)

lemma payload_text:
  assumes "float_conversion fl" "results_from fl metrics res" "valid_str base" "valid_str recorded"
  shows "json_text (benchmark_payload base recorded res)"
proof -
  obtain rows rate where rows: "length rows = 3" "\<forall>i<3. level_from fl metrics (lit (TAGS ! i)) (rows ! i)"
    and rate: "\<exists>j. fl j = Inr rate"
    and res: "res = zip (map lit LEVELS) rows @ [(lit ''http_req_failed_rate'', JFloat rate), (lit ''thresholds_passed'', JBool True)]"
    using assms(2) by (auto simp: results_from_def)
  obtain r1 r2 r3 where rs: "rows = [r1, r2, r3]" using rows(1) by (auto simp: length_Suc_conv numeral_3_eq_3)
  have "json_text r" if "r \<in> set rows" for r
  proof -
    obtain i where "i < 3" "rows ! i = r" using \<open>r \<in> set rows\<close> rows(1) by (auto simp: in_set_conv_nth)
    then show ?thesis using level_text [OF assms(1)] rows(2) by blast
  qed
  moreover have "json_text (JFloat rate)" using rate assms(1) by (auto simp: float_conversion_def)
  ultimately show ?thesis
    using assms(3,4) by (simp add: benchmark_payload_def res rs LEVELS_def wf_dict_def valid_lit)
qed

text \<open>The row of one level, read from the sorted payload that the file holds.\<close>

lemma claim_of_level:
  assumes fl: "float_conversion fl" and row: "level_from fl metrics tag row"
    and bench: "json_get bench (lit lev) (JObj []) = Inr (jsort row)"
  shows "\<exists>entry l c. dget metrics (lit ''http_req_duration{'' @ tag @ lit ''}'') = Some (JObj entry)
    \<and> fl (dict_get entry (lit ''p(95)'') zero_float) = Inr l
    \<and> benchmark_claim env fl run bench lev = Inr c \<and> ec_result c = passed (below_twelve l)
    \<and> ec_id c = run @ lit '':bench-'' @ lit lev"
proof -
  obtain entry l50 l95 l99 lavg lmax lcount where e:
    "dget metrics (lit ''http_req_duration{'' @ tag @ lit ''}'') = Some (JObj entry)"
    "fl (dict_get entry (lit ''p(95)'') zero_float) = Inr l95"
    "row = JObj [(lit ''p50'', JFloat l50), (lit ''p95'', JFloat l95), (lit ''p99'', JFloat l99),
                 (lit ''avg'', JFloat lavg), (lit ''max'', JFloat lmax), (lit ''count'', JFloat lcount)]"
    using row by (auto simp: level_from_def)
  obtain kvs where kvs: "jsort row = JObj kvs" by (simp add: e(3))
  have "wf_dict [(lit ''p50'', JFloat l50), (lit ''p95'', JFloat l95), (lit ''p99'', JFloat l99),
                 (lit ''avg'', JFloat lavg), (lit ''max'', JFloat lmax), (lit ''count'', JFloat lcount)]"
    by (simp add: wf_dict_def)
  from dget_jsort [OF this kvs [unfolded e(3)], of "lit ''p95''"]
  have p95: "dget kvs (lit ''p95'') = Some (JFloat l95)" by simp
  have get_p95: "json_get (jsort row) (lit ''p95'') d = Inr (JFloat l95)" for d by (simp add: kvs json_get_def p95)
  have "fl (JFloat l95) = Inr l95" using fl e(2) by (auto simp: float_conversion_def)
  then show ?thesis
    using e(1,2) get_p95 by (simp add: benchmark_claim_def bench)
qed

theorem rows_of_results:
  assumes fl: "float_conversion fl" and res: "results_from fl metrics res"
    and base: "valid_str base" "valid_str recorded"
    and stored: "dget (texts fs) BENCH_FILE = Some (dumps_indent 0 (benchmark_payload base recorded res))"
  shows "\<exists>rows. append_benchmark_claims env fl run fs claims = Inr (claims @ rows) \<and> length rows = 3
    \<and> (\<forall>i<3. \<exists>entry l. dget metrics (lit ''http_req_duration{'' @ lit (TAGS ! i) @ lit ''}'') = Some (JObj entry)
          \<and> fl (dict_get entry (lit ''p(95)'') zero_float) = Inr l
          \<and> ec_result (rows ! i) = passed (below_twelve l)
          \<and> ec_id (rows ! i) = run @ lit '':bench-'' @ lit (LEVELS ! i))"
proof -
  let ?payload = "benchmark_payload base recorded res"
  define bench where "bench = jsort ?payload"
  have jt: "json_text ?payload" by (rule payload_text [OF fl res base])
  have rd: "loads (dumps_indent 0 ?payload) = Inr bench"
    using loads_layouts(1) [OF jt] by (simp add: bench_def)
  obtain levels rate where rows: "length levels = 3" "\<forall>i<3. level_from fl metrics (lit (TAGS ! i)) (levels ! i)"
    and r: "res = zip (map lit LEVELS) levels @ [(lit ''http_req_failed_rate'', JFloat rate), (lit ''thresholds_passed'', JBool True)]"
    using res by (auto simp: results_from_def)
  obtain r1 r2 r3 where rs: "levels = [r1, r2, r3]" using rows(1) by (auto simp: length_Suc_conv numeral_3_eq_3)
  obtain kvs where kvs: "bench = JObj kvs" by (simp add: bench_def benchmark_payload_def)
  have get: "json_get bench (lit (LEVELS ! i)) (JObj []) = Inr (jsort (levels ! i))" if "i < 3" for i
  proof -
    obtain ms where ms: "?payload = JObj ms" "wf_dict ms" using jt by (simp add: benchmark_payload_def)
    have "dget ms (lit (LEVELS ! i)) = Some (levels ! i)"
      using that ms(1) by (auto simp: benchmark_payload_def r rs LEVELS_def less_Suc_eq numeral_3_eq_3)
    with dget_jsort [OF ms(2), of kvs "lit (LEVELS ! i)"] ms(1) kvs show ?thesis
      by (simp add: bench_def json_get_def)
  qed
  have "\<exists>entry l c. dget metrics (lit ''http_req_duration{'' @ lit (TAGS ! i) @ lit ''}'') = Some (JObj entry)
      \<and> fl (dict_get entry (lit ''p(95)'') zero_float) = Inr l
      \<and> benchmark_claim env fl run bench (LEVELS ! i) = Inr c \<and> ec_result c = passed (below_twelve l)
      \<and> ec_id c = run @ lit '':bench-'' @ lit (LEVELS ! i)" if "i < 3" for i
    using claim_of_level [OF fl _ get [OF that], of metrics "lit (TAGS ! i)" env run] rows(2) that by blast
  then obtain c where c: "\<forall>i<3. \<exists>entry l. dget metrics (lit ''http_req_duration{'' @ lit (TAGS ! i) @ lit ''}'') = Some (JObj entry)
      \<and> fl (dict_get entry (lit ''p(95)'') zero_float) = Inr l
      \<and> benchmark_claim env fl run bench (LEVELS ! i) = Inr (c i) \<and> ec_result (c i) = passed (below_twelve l)
      \<and> ec_id (c i) = run @ lit '':bench-'' @ lit (LEVELS ! i)" by metis
  have levs: "LEVELS = [LEVELS ! 0, LEVELS ! 1, LEVELS ! 2]" by (simp add: LEVELS_def)
  have "benchmark_rows env fl run bench LEVELS = Inr [c 0, c 1, c 2]"
    using c [rule_format, of 0] c [rule_format, of 1] c [rule_format, of 2]
    by (subst levs) (auto simp del: One_nat_def)
  then have "append_benchmark_claims env fl run fs claims = Inr (claims @ [c 0, c 1, c 2])"
    by (simp add: append_benchmark_claims_def stored rd)
  moreover have "\<forall>i<3. [c 0, c 1, c 2] ! i = c i" by (auto simp: less_Suc_eq numeral_3_eq_3 numeral_2_eq_2)
  ultimately show ?thesis using c by (intro exI [of _ "[c 0, c 1, c 2]"]) auto
qed

lemma append_benchmark_rows:
  "append_benchmark_claims env fl run fs [] = Inr rows \<Longrightarrow>
     append_benchmark_claims env fl run fs claims = Inr (claims @ rows)"
  by (auto simp: append_benchmark_claims_def andthen_eq_Inr split: option.splits)

subsection \<open>The whole benchmark\<close>

lemma valid_str_int [simp]: "valid_str (str_int n)"
  by (rule ascii_valid_str) (rule str_int_ascii)

lemma payload_written:
  assumes "float_conversion fl" "results_from fl metrics res" "valid_str base" "valid_str recorded"
  shows "write_text p (dumps_indent 0 (benchmark_payload base recorded res)) fs =
    (Inr (), fs\<lparr>texts := dput (texts fs) p (dumps_indent 0 (benchmark_payload base recorded res))\<rparr>)"
proof -
  have "valid_str (dumps_indent 0 (benchmark_payload base recorded res))"
    using layout_valid(1) [OF payload_text [OF assms]] .
  then show ?thesis by (simp add: write_text_def)
qed

lemma benchmark_base: "valid_str host \<Longrightarrow> valid_str (lit ''http://'' @ host @ lit '':'' @ str_int port)"
  by (simp add: valid_lit)

text \<open>Printing touches only what has been printed.\<close>

lemma print_simps [simp]:
  "print_text t s = (Inr (), s\<lparr>m_out := m_out s @ t\<rparr>)" "print_err t s = (Inr (), s\<lparr>m_err := m_err s @ t\<rparr>)"
  "print_line t s = (Inr (), s\<lparr>m_out := m_out s @ t @ [10]\<rparr>)"
  by (simp_all add: print_text_def print_err_def print_line_def change_def)

lemma print_rows_keeps:
  "m_files (snd (print_rows fixed2 results levs s)) = m_files s
   \<and> m_service (snd (print_rows fixed2 results levs s)) = m_service s"
proof (induction levs arbitrary: s)
  case (Cons lev levs)
  show ?case
  proof (cases "table_row fixed2 results lev")
    case (Inr t)
    with Cons.IH [of "s\<lparr>m_out := m_out s @ t @ [10]\<rparr>"] show ?thesis by (simp add: seq_do_def give_def)
  qed (simp add: seq_do_def give_def)
qed (simp add: give_def)

lemma print_table_rows:
  obtains s3 where "m_files s3 = m_files s" "m_service s3 = m_service s"
    and "print_table fixed2 results s = seq_do (print_rows fixed2 results TABLE_LEVELS) (\<lambda>_. print_line table_rule) s3"
proof
  let ?s3 = "s\<lparr>m_out := m_out s @ (10 # table_rule) @ [10] @
    lit ''| load level     | p50 (ms)       | p95 (ms)      |'' @ [10] @ table_rule @ [10]\<rparr>"
  show "m_files ?s3 = m_files s" "m_service ?s3 = m_service s" by simp_all
  show "print_table fixed2 results s = seq_do (print_rows fixed2 results TABLE_LEVELS) (\<lambda>_. print_line table_rule) ?s3"
    by (simp add: print_table_def seq_do_def)
qed

lemma print_table_keeps:
  "m_files (snd (print_table fixed2 results s)) = m_files s \<and> m_service (snd (print_table fixed2 results s)) = m_service s"
proof (rule print_table_rows [of s fixed2 results])
  fix s3 assume s3: "m_files s3 = m_files s" "m_service s3 = m_service s"
    "print_table fixed2 results s = seq_do (print_rows fixed2 results TABLE_LEVELS) (\<lambda>_. print_line table_rule) s3"
  obtain r s4 where rows: "print_rows fixed2 results TABLE_LEVELS s3 = (r, s4)" by force
  with print_rows_keeps [of fixed2 results TABLE_LEVELS s3] s3 show ?thesis
    by (cases r) (simp_all add: seq_do_def)
qed

subsection \<open>The run of the benchmark\<close>

text \<open>What k6 was asked and has left when it ends well.\<close>

definition k6_left :: "outside \<Rightarrow> str \<Rightarrow> str \<Rightarrow> json \<Rightarrow> bool" where
  "k6_left x summary_path base summary \<longleftrightarrow>
     (\<exists>proc fs fs' t. x_k6 x (k6_command (lit ''benchmarks/k6_gateway_stress.js'') summary_path)
          (k6_environ (x_environ x) base) fs = (Inr proc, fs')
        \<and> k6_code proc = 0 \<and> dget (texts fs') summary_path = Some t \<and> loads t = Inr summary)"

definition k6_spares :: "outside \<Rightarrow> str \<Rightarrow> bool" where
  "k6_spares x p \<longleftrightarrow> (\<forall>argv en fs. dget (texts (snd (x_k6 x argv en fs))) p = dget (texts fs) p)"

lemma run_k6_out:
  assumes "run_k6 (x_k6 x) (x_environ x) (lit ''benchmarks/k6_gateway_stress.js'') sp base s = (r, s')"
    and "k6_spares x p"
  shows "dget (texts (m_files s')) p = dget (texts (m_files s)) p \<and> m_service s' = m_service s
    \<and> (\<forall>summary. r = Inr summary \<longrightarrow> k6_left x sp base summary)"
proof -
  let ?argv = "k6_command (lit ''benchmarks/k6_gateway_stress.js'') sp" and ?en = "k6_environ (x_environ x) base"
  obtain rk fs where k: "x_k6 x ?argv ?en (m_files s) = (rk, fs)" by force
  have p: "dget (texts fs) p = dget (texts (m_files s)) p"
    using assms(2) k unfolding k6_spares_def by (metis snd_conv)
  show ?thesis
  proof (cases rk)
    case (Inl e)
    with assms(1) k p show ?thesis by (auto simp: run_k6_def seq_do_def at_files_def)
  next
    case (Inr proc)
    show ?thesis
    proof (cases "k6_code proc = 0")
      case False
      with assms(1) k p Inr show ?thesis by (auto simp: run_k6_def seq_do_def at_files_def give_def)
    next
      case True
      show ?thesis
      proof (cases "dget (texts fs) sp")
        case None
        with assms(1) k p Inr True show ?thesis by (auto simp: run_k6_def seq_do_def at_files_def read_text_def)
      next
        case (Some t)
        with assms(1) k p Inr True have "r = loads t \<and> m_files s' = fs \<and> m_service s' = m_service s"
          by (auto simp: run_k6_def seq_do_def at_files_def read_text_def give_def)
        moreover have "k6_left x sp base summary" if "loads t = Inr summary" for summary
          unfolding k6_left_def using k Inr True Some that by blast
        ultimately show ?thesis using p by simp
      qed
    qed
  qed
qed

lemma benchmark_body_out:
  assumes body: "benchmark_body env fl fixed2 x sp p base s = (r, s')"
    and spares: "k6_spares x p" and fl: "float_conversion fl" and base: "valid_str base" "valid_str (x_recorded x)"
  shows "m_service s' = m_service s
    \<and> ((\<exists>e. r = Inl e) \<and> dget (texts (m_files s')) p = dget (texts (m_files s)) p
       \<or> x_health x = Inr () \<and> (\<exists>summary metrics results. k6_left x sp base summary
           \<and> json_get summary (lit ''metrics'') (JObj []) = Inr (JObj metrics) \<and> results_from fl metrics results
           \<and> dget (texts (m_files s')) p = Some (dumps_indent 0 (benchmark_payload base (x_recorded x) results))))"
proof (cases "x_health x")
  case (Inl e)
  with body have "r = Inl e \<and> s' = s" by (simp add: benchmark_body_def)
  then show ?thesis by simp
next
  case (Inr u)
  obtain rk s1 where k: "run_k6 (x_k6 x) (x_environ x) (lit ''benchmarks/k6_gateway_stress.js'') sp base s = (rk, s1)" by force
  note kk = run_k6_out [OF k spares]
  show ?thesis
  proof (cases "andthen rk (extract_results env fl)")
    case (Inl e)
    then have "r = Inl e \<and> s' = s1"
      using body \<open>x_health x = Inr u\<close> k by (auto simp: benchmark_body_def seq_do_def give_def andthen_eq_Inl)
    with kk show ?thesis by simp
  next
    case (Inr results)
    then obtain summary where summary: "rk = Inr summary" "extract_results env fl summary = Inr results"
      by (auto simp: andthen_eq_Inr)
    obtain metrics where m: "json_get summary (lit ''metrics'') (JObj []) = Inr (JObj metrics)" "results_from fl metrics results"
      by (rule extract_Inr [OF summary(2)])
    let ?t = "dumps_indent 0 (benchmark_payload base (x_recorded x) results)"
    let ?s2 = "s1\<lparr>m_files := (m_files s1)\<lparr>texts := dput (texts (m_files s1)) p ?t\<rparr>\<rparr>"
    have "(r, s') = print_table fixed2 results ?s2"
      using body \<open>x_health x = Inr u\<close> k summary payload_written [OF fl m(2) base, of p]
      by (simp add: benchmark_body_def seq_do_def give_def at_files_def)
    then have "m_files s' = m_files ?s2 \<and> m_service s' = m_service s1"
      using print_table_keeps [of fixed2 results ?s2] by (metis snd_conv machine.select_convs(4) machine.simps(9)
        machine.surjective machine.update_convs(1))
    with kk summary(1) m \<open>x_health x = Inr u\<close> show ?thesis by (auto simp: dget_dput)
  qed
qed

text \<open>The path of the results, as \<open>main\<close> takes it by default, and the summary beside it.\<close>

definition BENCH_PATH :: "str list" where
  "BENCH_PATH = [lit ''evidence'', lit ''benchmarks'', lit ''k6_results.json'']"

definition SUMMARY_FILE :: str where
  "SUMMARY_FILE = lit ''evidence/benchmarks/k6_summary.json''"

lemma bench_paths:
  "join [47] BENCH_PATH = BENCH_FILE" "join [47] (butlast BENCH_PATH @ [lit ''k6_summary.json'']) = SUMMARY_FILE"
  by (simp_all add: BENCH_PATH_def BENCH_FILE_def SUMMARY_FILE_def lit_Cons)

lemma make_dirs_texts: "texts (snd (make_dirs ps fs)) = texts fs"
  by (simp add: make_dirs_def split: option.split)

lemma benchmark_main_out:
  assumes main: "benchmark_main env fl fixed2 x BENCH_PATH host port s = (r, s')"
    and spares: "k6_spares x BENCH_FILE" and fl: "float_conversion fl"
    and host: "valid_str host" "valid_str (x_recorded x)" and idle: "m_service s = None"
  shows "(\<forall>argv p. m_service s' = Some (argv, p) \<longrightarrow>
      p = Exited \<or> p = Signalled \<and> (\<exists>e. x_waited x = Inl e \<and> r = Inl e))
    \<and> ((\<exists>e. r = Inl e) \<and> dget (texts (m_files s')) BENCH_FILE = dget (texts (m_files s)) BENCH_FILE
       \<or> x_health x = Inr () \<and> (\<exists>summary metrics results.
           k6_left x SUMMARY_FILE (lit ''http://'' @ host @ lit '':'' @ str_int port) summary
           \<and> json_get summary (lit ''metrics'') (JObj []) = Inr (JObj metrics) \<and> results_from fl metrics results
           \<and> dget (texts (m_files s')) BENCH_FILE = Some (dumps_indent 0
               (benchmark_payload (lit ''http://'' @ host @ lit '':'' @ str_int port) (x_recorded x) results))))"
proof -
  let ?base = "lit ''http://'' @ host @ lit '':'' @ str_int port"
  obtain rd fs where d: "make_dirs (butlast BENCH_PATH) (m_files s) = (rd, fs)" by force
  then have fs: "texts fs = texts (m_files s)" using make_dirs_texts [of "butlast BENCH_PATH" "m_files s"] by simp
  show ?thesis
  proof (cases "andthen rd (\<lambda>_. x_popen x (service_command (x_python x) host port))")
    case (Inl e)
    then have "r = Inl e \<and> m_files s' = fs \<and> m_service s' = None"
      using main d idle
      by (auto simp: benchmark_main_def Let_def seq_do_def at_files_def start_service_def give_def change_def andthen_eq_Inl)
    with fs show ?thesis by simp
  next
    case (Inr u)
    let ?argv = "service_command (x_python x) host port"
    let ?s1 = "s\<lparr>m_files := fs, m_service := Some (?argv, Running)\<rparr>"
    obtain rb s2 where b: "benchmark_body env fl fixed2 x SUMMARY_FILE BENCH_FILE ?base ?s1 = (rb, s2)" by force
    note bb = benchmark_body_out [OF b spares fl benchmark_base [OF host(1)] host(2)]
    have out: "m_files s' = m_files s2"
        "m_service s' = Some (?argv, Exited) \<or> m_service s' = Some (?argv, Signalled) \<and> (\<exists>e. x_waited x = Inl e \<and> r = Inl e)"
      and rr: "\<And>e. rb = Inl e \<Longrightarrow> \<exists>e. r = Inl e"
      using main d Inr b bb
      by (cases "x_waited x"; auto simp: benchmark_main_def Let_def bench_paths seq_do_def at_files_def start_service_def
          give_def change_def with_finally_def stop_service_def set_process_def andthen_eq_Inr)+
    from bb have "(\<exists>e. rb = Inl e) \<and> dget (texts (m_files s2)) BENCH_FILE = dget (texts fs) BENCH_FILE
       \<or> x_health x = Inr () \<and> (\<exists>summary metrics results. k6_left x SUMMARY_FILE ?base summary
           \<and> json_get summary (lit ''metrics'') (JObj []) = Inr (JObj metrics) \<and> results_from fl metrics results
           \<and> dget (texts (m_files s2)) BENCH_FILE = Some (dumps_indent 0 (benchmark_payload ?base (x_recorded x) results)))"
      by simp
    then have "(\<exists>e. r = Inl e) \<and> dget (texts (m_files s')) BENCH_FILE = dget (texts (m_files s)) BENCH_FILE
       \<or> x_health x = Inr () \<and> (\<exists>summary metrics results. k6_left x SUMMARY_FILE ?base summary
           \<and> json_get summary (lit ''metrics'') (JObj []) = Inr (JObj metrics) \<and> results_from fl metrics results
           \<and> dget (texts (m_files s')) BENCH_FILE = Some (dumps_indent 0 (benchmark_payload ?base (x_recorded x) results)))"
      unfolding out(1) fs using rr by blast
    moreover have "\<forall>argv p. m_service s' = Some (argv, p) \<longrightarrow>
        p = Exited \<or> p = Signalled \<and> (\<exists>e. x_waited x = Inl e \<and> r = Inl e)"
      using out(2) by auto
    ultimately show ?thesis by blast
  qed
qed

lemma benchmark_main_claims:
  assumes "float_conversion fl" "valid_str host" "valid_str (x_recorded x)" "k6_spares x BENCH_FILE"
    and "m_service s = None" "benchmark_main env fl fixed2 x BENCH_PATH host port s = (r, s')"
  shows "(\<forall>argv p. m_service s' = Some (argv, p) \<longrightarrow>
      p = Exited \<or> p = Signalled \<and> (\<exists>e. x_waited x = Inl e \<and> r = Inl e))
    \<and> ((\<exists>e. r = Inl e) \<and> dget (texts (m_files s')) BENCH_FILE = dget (texts (m_files s)) BENCH_FILE
       \<or> x_health x = Inr () \<and> (\<exists>summary metrics rows.
           k6_left x SUMMARY_FILE (lit ''http://'' @ host @ lit '':'' @ str_int port) summary
           \<and> json_get summary (lit ''metrics'') (JObj []) = Inr (JObj metrics)
           \<and> append_benchmark_claims env fl run (m_files s') claims = Inr (claims @ rows) \<and> length rows = 3
           \<and> (\<forall>i<3. \<exists>entry l. dget metrics (lit ''http_req_duration{'' @ lit (TAGS ! i) @ lit ''}'') = Some (JObj entry)
                 \<and> fl (dict_get entry (lit ''p(95)'') zero_float) = Inr l
                 \<and> ec_result (rows ! i) = passed (below_twelve l)
                 \<and> ec_id (rows ! i) = run @ lit '':bench-'' @ lit (LEVELS ! i))))"
  using benchmark_main_out [OF assms(6,4,1-3,5)]
    rows_of_results [OF assms(1) _ benchmark_base [OF assms(2)] assms(3), of _ _ "m_files s'" port env run claims]
  by fastforce

text \<open>A run in which nothing fails outside returns.\<close>

lemma table_defined:
  assumes "results_from fl metrics res" "\<forall>l. \<exists>t. fixed2 (JFloat l) = Inr t"
  shows "fst (print_table fixed2 res s) = Inr ()"
proof -
  obtain rows rate where rows: "length rows = 3" "\<forall>i<3. level_from fl metrics (lit (TAGS ! i)) (rows ! i)"
    and res: "res = zip (map lit LEVELS) rows @ [(lit ''http_req_failed_rate'', JFloat rate), (lit ''thresholds_passed'', JBool True)]"
    using assms(1) by (auto simp: results_from_def)
  obtain r1 r2 r3 where rs: "rows = [r1, r2, r3]" using rows(1) by (auto simp: length_Suc_conv numeral_3_eq_3)
  have row: "\<exists>d l l'. r = JObj d \<and> dget d (lit ''p50'') = Some (JFloat l) \<and> dget d (lit ''p95'') = Some (JFloat l')"
    if r: "r \<in> set rows" for r
  proof -
    obtain i where "i < 3" "rows ! i = r" using r rows(1) by (auto simp: in_set_conv_nth)
    with rows(2) have "level_from fl metrics (lit (TAGS ! i)) r" by blast
    then show ?thesis by (auto simp: level_from_def)
  qed
  have defined: "\<exists>t. table_row fixed2 res lev = Inr t" if lev: "lev \<in> set TABLE_LEVELS" for lev
  proof -
    from lev obtain r where "dget res lev = Some r" "r \<in> set rows"
      by (auto simp: res rs TABLE_LEVELS_def LEVELS_def)
    with row obtain d l l' where d: "dget res lev = Some (JObj d)" "dget d (lit ''p50'') = Some (JFloat l)"
      "dget d (lit ''p95'') = Some (JFloat l')" by blast
    obtain t t' where "fixed2 (JFloat l) = Inr t" "fixed2 (JFloat l') = Inr t'" using assms(2) by metis
    with d show ?thesis by (simp add: table_row_def dict_item_def)
  qed
  have printed: "fst (print_rows fixed2 res levs s) = Inr ()" if "set levs \<subseteq> set TABLE_LEVELS" for levs s
    using that
  proof (induction levs arbitrary: s)
    case (Cons lev levs)
    then have "lev \<in> set TABLE_LEVELS" by simp
    from defined [OF this] obtain t where "table_row fixed2 res lev = Inr t" ..
    with Cons show ?case by (simp add: seq_do_def give_def)
  qed (simp add: give_def)
  show ?thesis
  proof (rule print_table_rows [of s fixed2 res])
    fix s3 assume "print_table fixed2 res s = seq_do (print_rows fixed2 res TABLE_LEVELS) (\<lambda>_. print_line table_rule) s3"
    moreover obtain s4 where "print_rows fixed2 res TABLE_LEVELS s3 = (Inr (), s4)"
      using printed [of TABLE_LEVELS s3] by (metis prod.collapse subset_refl)
    ultimately show ?thesis by (simp add: seq_do_def)
  qed
qed

lemma benchmark_body_succeeds:
  assumes "x_health x = Inr ()" "\<forall>l. \<exists>t. fixed2 (JFloat l) = Inr t"
    and "x_k6 x (k6_command (lit ''benchmarks/k6_gateway_stress.js'') sp) (k6_environ (x_environ x) base) (m_files s) = (Inr proc, fs)"
    and "k6_code proc = 0" "dget (texts fs) sp = Some t" "loads t = Inr summary" "extract_results env fl summary = Inr res"
    and "float_conversion fl" "valid_str base" "valid_str (x_recorded x)"
  shows "fst (benchmark_body env fl fixed2 x sp p base s) = Inr ()"
proof -
  obtain metrics where m: "results_from fl metrics res" by (rule extract_Inr [OF assms(7)])
  from table_defined [OF m assms(2)] payload_written [OF assms(8) m assms(9,10), of p] assms(1,3-7) show ?thesis
    by (simp add: benchmark_body_def run_k6_def seq_do_def give_def at_files_def read_text_def)
qed

text \<open>The names of the levels are longer than the column that is left for them.\<close>

lemma table_rows_wider: "lev \<in> set TABLE_LEVELS \<Longrightarrow> 14 < length (pad_right 14 lev)"
  by (auto simp: TABLE_LEVELS_def pad_right_def)

end
