(* ===== verification/Threads.thy ===== *)
theory Threads
  imports GatewayHistory
begin

text \<open>
  \<open>PolicyGateway.evaluate\<close> as its threads run it (\<open>src/policy/gateway.py\<close>, called from the thread
  pool of \<open>src/policy/service.py\<close> and by the engine): the store, the token store and the counter each
  have a lock of their own, so an evaluation is a sequence of atomic steps, one for each acquisition,
  and the steps of other evaluations and calls of the store come between them. What a thread does
  between two locks touches only its own variables, and belongs to the step before.

  A thread that runs alone computes \<open>evaluate\<close>. However threads are interleaved, each of them ends
  after a bounded number of its own steps; every grant has a nonce and a number of its own; and
  a withdrawal that has returned blocks every evaluation that has not yet read the asset.
\<close>

subsection \<open>Where a thread stands\<close>

text \<open>
  \<open>Deciding\<close> holds the arguments of the decision that is built next; its flag tells whether that
  is inside the \<open>try\<close> of \<open>evaluate\<close>.
\<close>

datatype phase =
    Fetch
  | Probing asset "str list" "str option"
  | Consuming asset "str list"
  | Deciding bool str policy_state "str list" str "str option"
  | Finished "exn + policy_decision"

text \<open>\<open>t_asset\<close> and \<open>t_nonce\<close> record which asset the thread has read and which nonce it has spent.\<close>

record thread =
  t_req :: policy_request
  t_now :: datetime
  t_rand :: bytes
  t_phase :: phase
  t_asset :: "asset option"
  t_nonce :: "str option"

definition new_thread :: "policy_request \<Rightarrow> datetime \<Rightarrow> bytes \<Rightarrow> thread" where
  "new_thread req now rand =
     \<lparr>t_req = req, t_now = now, t_rand = rand, t_phase = Fetch, t_asset = None, t_nonce = None\<rparr>"

subsection \<open>From one lock to the next\<close>

definition fail_closed :: "policy_request \<Rightarrow> exn \<Rightarrow> phase" where
  "fail_closed req e =
     Deciding False (req_asset_id req) BLOCKED [] (lit ''fail-closed on internal error: '' @ exn_name e) None"

definition stopped :: "policy_request \<Rightarrow> str option \<Rightarrow> str \<Rightarrow> phase" where
  "stopped req asset reason =
     Deciding True (if truthy asset then the asset else req_asset_id req) BLOCKED [] reason None"

definition concluding :: "pyenv \<Rightarrow> bytes \<Rightarrow> policy_request \<Rightarrow> asset \<Rightarrow> phase" where
  "concluding env rand req a =
     (if req_action req \<in> set HIGH_RISK_ACTIONS
      then Deciding True (asset_id a) HUMAN_REVIEW []
             (lit ''high-risk action '' @ py_repr env (req_action req) @ lit '' requires human review'')
             (Some (lit ''REV-'' @ map ascii_upper (hex rand)))
      else Deciding True (asset_id a) ALLOWED [] (lit ''within assessed scope'') None)"

definition at_gate :: "pyenv \<Rightarrow> bytes \<Rightarrow> policy_request \<Rightarrow> asset \<Rightarrow> phase" where
  "at_gate env rand req a =
     (if \<not> requires_consent a then concluding env rand req a
      else if consent_tokens req = [] then
        Deciding True (asset_id a) CONDITIONAL [lit ''consent_token:valid'']
          (lit ''awaiting valid consent token'') None
      else Probing a (consent_tokens req) None)"

text \<open>The rules between the read of the asset and the consent gate take no lock.\<close>

fun first_stop :: "(str \<times> check) list \<Rightarrow> exn + str option" where
  "first_stop [] = Inr None"
| "first_stop ((n, Inl e) # rs) = Inl e"
| "first_stop ((n, Inr (Some reason)) # rs) = Inr (Some reason)"
| "first_stop ((n, Inr None) # rs) = first_stop rs"

definition after_fetch :: "pyenv \<Rightarrow> keyring \<Rightarrow> bytes \<Rightarrow> policy_request \<Rightarrow> datetime \<Rightarrow> asset \<Rightarrow> phase" where
  "after_fetch env keys rand req now a =
     (case first_stop (checks env keys req now a) of
        Inl e \<Rightarrow> fail_closed req e
      | Inr (Some reason) \<Rightarrow> stopped req (Some (asset_id a)) reason
      | Inr None \<Rightarrow> at_gate env rand req a)"

definition tokens_refused :: "policy_request \<Rightarrow> asset \<Rightarrow> str option \<Rightarrow> phase" where
  "tokens_refused req a tamper =
     (let message = (case tamper of Some m \<Rightarrow> m | None \<Rightarrow> lit ''consent validation failed'')
      in if occurs (lit ''replay'') message
         then stopped req (Some (asset_id a)) (lit ''consent token replay detected'')
         else if occurs (lit ''expired'') message
         then stopped req (Some (asset_id a)) (lit ''consent token expired'')
         else stopped req (Some (asset_id a)) (lit ''consent token invalid: '' @ message))"

definition probe_now :: "pyenv \<Rightarrow> thread \<Rightarrow> int" where
  "probe_now env th = timestamp (local_off env) (t_now th)"

subsection \<open>One step of a thread\<close>

definition advance ::
    "pyenv \<Rightarrow> keyring \<Rightarrow> 's asset_store \<Rightarrow> thread \<Rightarrow> gateway_state \<Rightarrow> thread \<times> gateway_state" where
  "advance env keys store th gs =
     (case t_phase th of
        Fetch \<Rightarrow>
          (case get_asset store (req_asset_id (t_req th)) of
             Inl (AssetNotFound _) \<Rightarrow> (th\<lparr>t_phase := stopped (t_req th) None (lit ''unknown asset_id'')\<rparr>, gs)
           | Inl e \<Rightarrow> (th\<lparr>t_phase := fail_closed (t_req th) e\<rparr>, gs)
           | Inr a \<Rightarrow> (th\<lparr>t_asset := Some a, t_phase := after_fetch env keys (t_rand th) (t_req th) (t_now th) a\<rparr>, gs))
      | Probing a [] tamper \<Rightarrow> (th\<lparr>t_phase := tokens_refused (t_req th) a tamper\<rparr>, gs)
      | Probing a (token # toks) tamper \<Rightarrow>
          (case verify_without_consuming env (tokens gs) token (asset_id a) (tenant_id a) (probe_now env th) of
             Inr _ \<Rightarrow> (th\<lparr>t_phase := Consuming a (consent_tokens (t_req th))\<rparr>, gs)
           | Inl (TokenError m) \<Rightarrow> (th\<lparr>t_phase := Probing a toks (Some m)\<rparr>, gs)
           | Inl e \<Rightarrow> (th\<lparr>t_phase := fail_closed (t_req th) e\<rparr>, gs))
      | Consuming a [] \<Rightarrow>
          (th\<lparr>t_phase := stopped (t_req th) (Some (asset_id a)) (lit ''consent token replay detected'')\<rparr>, gs)
      | Consuming a (token # toks) \<Rightarrow>
          (case verify env (tokens gs) token (asset_id a) (tenant_id a) (probe_now env th) of
             Inr (cl, ts) \<Rightarrow>
               (th\<lparr>t_phase := concluding env (t_rand th) (t_req th) a, t_nonce := Some (c_nonce cl)\<rparr>,
                gs\<lparr>tokens := ts\<rparr>)
           | Inl (TokenError _) \<Rightarrow> (th\<lparr>t_phase := Consuming a toks\<rparr>, gs)
           | Inl e \<Rightarrow> (th\<lparr>t_phase := fail_closed (t_req th) e\<rparr>, gs))
      | Deciding inside asset st conds reason ticket \<Rightarrow>
          (let (n, gs') = next_sequence gs
           in case new_decision (draft (t_req th) asset st conds reason ticket (t_now th) n) of
                Inr d \<Rightarrow> (th\<lparr>t_phase := Finished (Inr d)\<rparr>, gs')
              | Inl e \<Rightarrow>
                  (th\<lparr>t_phase := (if inside then fail_closed (t_req th) e else Finished (Inl e))\<rparr>, gs'))
      | Finished r \<Rightarrow> (th, gs))"

subsection \<open>Threads among each other\<close>

record 's race =
  r_store :: "'s asset_store"
  r_aux :: 's
  r_gate :: gateway_state
  r_threads :: "thread list"

text \<open>A request arrives, a thread makes its next step, or the store is called.\<close>

datatype 's race_op = Arrive policy_request datetime bytes | Run nat | StoreOp "'s store_op"

fun race_step :: "pyenv \<Rightarrow> keyring \<Rightarrow> 's race \<Rightarrow> 's race_op \<Rightarrow> 's race" where
  "race_step env keys s (Arrive req now rand) = s\<lparr>r_threads := r_threads s @ [new_thread req now rand]\<rparr>"
| "race_step env keys s (Run i) =
     (if i < length (r_threads s)
      then (case advance env keys (r_store s) (r_threads s ! i) (r_gate s) of
              (th, gs) \<Rightarrow> s\<lparr>r_threads := (r_threads s)[i := th], r_gate := gs\<rparr>)
      else s)"
| "race_step env keys s (StoreOp opn) =
     (case store_step env (r_store s, r_aux s) opn of (store, x) \<Rightarrow> s\<lparr>r_store := store, r_aux := x\<rparr>)"

end
