(* ===== verification/EngineThreads.thy ===== *)
theory EngineThreads
  imports Engine Threads
begin

text \<open>
  The workflow engine as its callers' threads run it (\<open>src/workflows/engine.py\<close>): the engine's lock,
  the recorder's and those under the gateway are taken in turn, so a call of \<open>submit\<close>,
  \<open>record_tool_call\<close>, \<open>record_output\<close> or \<open>release_conditional\<close> is a sequence of atomic steps, one
  for each lock, and the steps of other calls come between them. The clocks are read inside the
  recorder's lock, so each step brings its own readings. What a call does between two locks
  touches only its own variables and the run that it has made and not filed yet.
\<close>

subsection \<open>Where a call stands\<close>

datatype job =
    Submit policy_request
  | Tool_call str str attrs
  | Put_output str attrs
  | Release policy_request

datatype answer = Ran ref | Called "str \<times> attrs" | Done

text \<open>
  \<open>Evaluating\<close> is inside the gateway; \<open>Receiving\<close> and \<open>Noting\<close> stand before the two appends of
  \<open>submit\<close>, \<open>Filing\<close> before its lock; \<open>Settling\<close> and \<open>Announcing\<close> before the second lock and the
  append of \<open>release_conditional\<close>; \<open>Logging\<close> before the append that ends a tool call or an output.
\<close>

datatype place =
    Begin
  | Evaluating thread
  | Receiving policy_request ref policy_decision
  | Noting policy_request ref policy_decision
  | Filing policy_request ref policy_decision
  | Settling policy_request ref policy_decision
  | Announcing policy_request ref
  | Logging str str str attrs answer
  | Returned "exn + answer"

text \<open>A call with what it draws: the bytes of the ticket, the id of the run, the time.\<close>

record worker =
  k_job :: job
  k_ticket :: bytes
  k_run_id :: str
  k_now :: datetime
  k_place :: place

definition new_worker :: "job \<Rightarrow> bytes \<Rightarrow> str \<Rightarrow> datetime \<Rightarrow> worker" where
  "new_worker job ticket rid now =
     \<lparr>k_job = job, k_ticket = ticket, k_run_id = rid, k_now = now, k_place = Begin\<rparr>"

subsection \<open>From one lock to the next\<close>

definition go_to :: "worker \<Rightarrow> place \<Rightarrow> engine \<Rightarrow> worker \<times> engine" where
  "go_to k p e = (k\<lparr>k_place := p\<rparr>, e)"

definition raise_in :: "worker \<Rightarrow> exn \<Rightarrow> engine \<Rightarrow> worker \<times> engine" where
  "raise_in k x = go_to k (Returned (Inl x))"

definition enter_gateway :: "worker \<Rightarrow> policy_request \<Rightarrow> engine \<Rightarrow> worker \<times> engine" where
  "enter_gateway k req = go_to k (Evaluating (new_thread req (k_now k) (k_ticket k)))"

fun begin_work :: "pyenv \<Rightarrow> worker \<Rightarrow> job \<Rightarrow> engine \<Rightarrow> worker \<times> engine" where
  "begin_work env k (Submit req) e = enter_gateway k req e"
| "begin_work env k (Release req) e =
     (if dget (conditional_queue e) (req_id req) = None
      then raise_in k (KeyError (lit ''no conditional hold for '' @ py_repr env (req_id req))) e
      else enter_gateway k req e)"
| "begin_work env k (Tool_call rid tool args) e =
     (case dget (runs e) rid of
        None \<Rightarrow> raise_in k (KeyError rid) e
      | Some r \<Rightarrow>
          (let w = objects e ! r
           in if w_state w \<noteq> EXECUTING
              then raise_in k (PermissionError (lit ''run '' @ rid @ lit '' is not executing (state=''
                      @ run_state_value (w_state w) @ lit '')'')) e
              else if (case decision w of None \<Rightarrow> True | Some d \<Rightarrow> d_state d \<noteq> ALLOWED)
              then raise_in k (PermissionError (lit ''tool execution requires an Allowed decision'')) e
              else go_to k (Logging (w_request_id w) (lit ''tool.called'') (lit ''agent'')
                       [(lit ''tool'', JStr tool)] (Called (tool, args)))
                     (set_run e r (\<lambda>w. w\<lparr>tool_calls := tool_calls w @ [(tool, args)]\<rparr>))))"
| "begin_work env k (Put_output rid output) e =
     (case dget (runs e) rid of
        None \<Rightarrow> raise_in k (KeyError rid) e
      | Some r \<Rightarrow>
          (let w = objects e ! r
           in if w_state w \<noteq> EXECUTING
              then raise_in k (PermissionError (lit ''only executing runs accept outputs'')) e
              else go_to k (Logging (w_request_id w) (lit ''run.completed'') (lit ''workflow'') [] Done)
                     (set_run e r (\<lambda>w. w\<lparr>outputs := outputs w @ [output], w_state := COMPLETED\<rparr>))))"

text \<open>The gateway has answered: the run is made, and nobody else knows it yet.\<close>

definition make_run :: "worker \<Rightarrow> policy_request \<Rightarrow> policy_decision \<Rightarrow> engine \<Rightarrow> worker \<times> engine" where
  "make_run k req d e =
     go_to k (Receiving req (length (objects e)) d)
       (e\<lparr>objects := objects e @
          [\<lparr>run_id = k_run_id k, w_request_id = req_id req, w_state = PENDING,
            decision = Some d, tool_calls = [], outputs = []\<rparr>]\<rparr>)"

definition in_gateway ::
    "pyenv \<Rightarrow> keyring \<Rightarrow> 's asset_store \<Rightarrow> worker \<Rightarrow> thread \<Rightarrow> engine \<Rightarrow> worker \<times> engine" where
  "in_gateway env keys store k th e =
     (case advance env keys store th (gateway e) of
        (th', gs) \<Rightarrow>
          (case t_phase th' of
             Finished (Inl x) \<Rightarrow> raise_in k x (e\<lparr>gateway := gs\<rparr>)
           | Finished (Inr d) \<Rightarrow> make_run k (t_req th') d (e\<lparr>gateway := gs\<rparr>)
           | _ \<Rightarrow> go_to k (Evaluating th') (e\<lparr>gateway := gs\<rparr>)))"

text \<open>An append of the recorder, and where the call goes when it does not raise.\<close>

definition append_then :: "worker \<Rightarrow> place \<Rightarrow> (exn + unit) \<times> engine \<Rightarrow> worker \<times> engine" where
  "append_then k next out =
     (case out of
        (Inl x, e) \<Rightarrow> raise_in k x e
      | (Inr _, e) \<Rightarrow> go_to k next e)"

definition filing :: "worker \<Rightarrow> policy_request \<Rightarrow> ref \<Rightarrow> policy_decision \<Rightarrow> engine \<Rightarrow> worker \<times> engine" where
  "filing k req r d e =
     (case file_run e r (k_run_id k) req d of
        (Inl x, e1) \<Rightarrow> raise_in k x e1
      | (Inr q, e1) \<Rightarrow>
          (case k_job k of
             Release _ \<Rightarrow> go_to k (Settling req q d) e1
           | _ \<Rightarrow> go_to k (Returned (Inr (Ran q))) e1))"

text \<open>\<open>del self._conditional_queue[request.request_id]\<close> raises when another call has deleted it.\<close>

definition settling :: "worker \<Rightarrow> policy_request \<Rightarrow> ref \<Rightarrow> policy_decision \<Rightarrow> engine \<Rightarrow> worker \<times> engine" where
  "settling k req r d e =
     (if d_state d \<noteq> ALLOWED then go_to k (Announcing req r) e
      else if dget (conditional_queue e) (req_id req) = None then raise_in k (KeyError (req_id req)) e
      else go_to k (Announcing req r) (e\<lparr>conditional_queue := ddel (conditional_queue e) (req_id req)\<rparr>))"

subsection \<open>One step of a call\<close>

definition work ::
    "pyenv \<Rightarrow> keyring \<Rightarrow> 's asset_store \<Rightarrow> clock \<Rightarrow> worker \<Rightarrow> engine \<Rightarrow> worker \<times> engine" where
  "work env keys store t k e =
     (case k_place k of
        Begin \<Rightarrow> begin_work env k (k_job k) e
      | Evaluating th \<Rightarrow> in_gateway env keys store k th e
      | Receiving req r d \<Rightarrow>
          append_then k (Noting req r d)
            (emit e t (req_id req) (lit ''request.received'') (lit ''workflow'')
               [(lit ''action'', JStr (req_action req))])
      | Noting req r d \<Rightarrow>
          append_then k (Filing req r d)
            (emit e t (req_id req) (state_event (d_state d)) (lit ''gateway'')
               [(lit ''reason'', JStr (d_reason d)), (lit ''sequence'', JInt (d_sequence d))])
      | Filing req r d \<Rightarrow> filing k req r d e
      | Settling req r d \<Rightarrow> settling k req r d e
      | Announcing req r \<Rightarrow>
          append_then k (Returned (Inr (Ran r)))
            (emit e t (req_id req) (lit ''hold.released'') (lit ''workflow'') [])
      | Logging rid ev act det ans \<Rightarrow> append_then k (Returned (Inr ans)) (emit e t rid ev act det)
      | Returned x \<Rightarrow> (k, e))"

subsection \<open>Calls among each other\<close>

record 's office =
  o_store :: "'s asset_store"
  o_aux :: 's
  o_engine :: engine
  o_workers :: "worker list"

text \<open>A method of the engine is called, a call makes its next step, or the store is called.\<close>

datatype 's office_op = Call job bytes str datetime | Step nat clock | Store "'s store_op"

fun office_step :: "pyenv \<Rightarrow> keyring \<Rightarrow> 's office \<Rightarrow> 's office_op \<Rightarrow> 's office" where
  "office_step env keys s (Call job ticket rid now) =
     s\<lparr>o_workers := o_workers s @ [new_worker job ticket rid now]\<rparr>"
| "office_step env keys s (Step i t) =
     (if i < length (o_workers s)
      then (case work env keys (o_store s) t (o_workers s ! i) (o_engine s) of
              (k, e) \<Rightarrow> s\<lparr>o_engine := e, o_workers := (o_workers s)[i := k]\<rparr>)
      else s)"
| "office_step env keys s (Store opn) =
     (case store_step env (o_store s, o_aux s) opn of (store, x) \<Rightarrow> s\<lparr>o_store := store, o_aux := x\<rparr>)"

definition office_start :: "'s asset_store \<Rightarrow> 's \<Rightarrow> engine \<Rightarrow> 's office" where
  "office_start store x e = \<lparr>o_store = store, o_aux = x, o_engine = e, o_workers = []\<rparr>"

end
