(* ===== verification/Schedule.thy ===== *)
theory Schedule
  imports Prelude
begin

text \<open>
  Activities that run among each other: a schedule is a list of operations, some of which are a step
  of activity \<open>i\<close>. Where a step of its own brings an activity nearer to its end, and nothing else
  takes it away from it, every schedule with enough of its steps ends it: no activity waits for another.
\<close>

locale scheduled =
  fixes step :: "'s \<Rightarrow> 'op \<Rightarrow> 's"
    and present :: "'s \<Rightarrow> nat"
    and todo :: "'s \<Rightarrow> nat \<Rightarrow> nat"
    and moves :: "nat \<Rightarrow> 'op \<Rightarrow> bool"
  assumes stays: "i < present s \<Longrightarrow> i < present (step s opn)"
    and moved: "i < present s \<Longrightarrow> moves i opn \<Longrightarrow> todo (step s opn) i \<le> todo s i - 1"
    and rests: "i < present s \<Longrightarrow> \<not> moves i opn \<Longrightarrow> todo (step s opn) i = todo s i"
begin

lemma stays_present: "i < present s \<Longrightarrow> i < present (foldl step s opns)"
  by (induction opns arbitrary: s) (simp_all add: stays)

lemma todo_shrinks:
  "i < present s \<Longrightarrow> todo (foldl step s opns) i \<le> todo s i - length (filter (moves i) opns)"
proof (induction opns arbitrary: s)
  case (Cons opn opns)
  note IH = Cons.IH [OF stays [OF Cons.prems], of opn]
  show ?case
  proof (cases "moves i opn")
    case True
    with IH moved [OF Cons.prems True] show ?thesis by simp
  next
    case False
    with IH rests [OF Cons.prems False] show ?thesis by simp
  qed
qed simp

lemma ends:
  "i < present s \<Longrightarrow> todo s i \<le> length (filter (moves i) opns) \<Longrightarrow> todo (foldl step s opns) i = 0"
  using todo_shrinks [of i s opns] by simp

end

text \<open>
  Activities that do wait for each other, for one of a bounded number of places: what can be done
  then is told by \<open>useful\<close>. Where each useful step takes some of the work away and some step is
  useful as long as not everything is done, a run of useful steps is bounded and gets everything done.
\<close>

fun eager :: "('s \<Rightarrow> 'op \<Rightarrow> 's) \<Rightarrow> ('s \<Rightarrow> 'op \<Rightarrow> bool) \<Rightarrow> 's \<Rightarrow> 'op list \<Rightarrow> bool" where
  "eager step useful s [] = True"
| "eager step useful s (opn # opns) \<longleftrightarrow> useful s opn \<and> eager step useful (step s opn) opns"

locale draining =
  fixes step :: "'s \<Rightarrow> 'op \<Rightarrow> 's"
    and useful :: "'s \<Rightarrow> 'op \<Rightarrow> bool"
    and inv :: "'s \<Rightarrow> bool"
    and all_done :: "'s \<Rightarrow> bool"
    and work :: "'s \<Rightarrow> nat"
  assumes keeps: "inv s \<Longrightarrow> useful s opn \<Longrightarrow> inv (step s opn)"
    and lessens: "inv s \<Longrightarrow> useful s opn \<Longrightarrow> work (step s opn) < work s"
    and progress: "inv s \<Longrightarrow> \<not> all_done s \<Longrightarrow> \<exists>opn. useful s opn"
begin

lemma eager_keeps: "inv s \<Longrightarrow> eager step useful s opns \<Longrightarrow> inv (foldl step s opns)"
  by (induction opns arbitrary: s) (simp_all add: keeps)

lemma eager_bounded: "inv s \<Longrightarrow> eager step useful s opns \<Longrightarrow> length opns + work (foldl step s opns) \<le> work s"
proof (induction opns arbitrary: s)
  case (Cons opn opns)
  then have "length opns + work (foldl step (step s opn) opns) \<le> work (step s opn)" by (simp add: keeps)
  with lessens [OF Cons.prems(1)] Cons.prems(2) show ?case by fastforce
qed simp

lemma drained:
  assumes "inv s" "eager step useful s opns" "\<forall>opn. \<not> useful (foldl step s opns) opn"
  shows "all_done (foldl step s opns)"
  using progress [OF eager_keeps [OF assms(1,2)]] assms(3) by blast

lemma can_drain: "inv s \<Longrightarrow> \<exists>opns. eager step useful s opns \<and> all_done (foldl step s opns)"
proof (induction "work s" arbitrary: s rule: less_induct)
  case less
  show ?case
  proof (cases "all_done s")
    case True
    then show ?thesis by (intro exI [of _ "[]"]) simp
  next
    case False
    with progress [OF less.prems] obtain opn where u: "useful s opn" by blast
    from less.hyps [OF lessens [OF less.prems u] keeps [OF less.prems u]]
    obtain opns where "eager step useful (step s opn) opns" "all_done (foldl step (step s opn) opns)" by blast
    with u show ?thesis by (intro exI [of _ "opn # opns"]) simp
  qed
qed

end

end
