(* ===== verification/ThreadsProofs.thy ===== *)
theory ThreadsProofs
  imports Threads Schedule
begin

text \<open>
  The properties of \<open>Threads\<close>: a thread alone computes \<open>evaluate\<close>, every thread ends, and what
  holds under every interleaving.
\<close>

lemma is_TokenError_iff: "is_TokenError e \<longleftrightarrow> (\<exists>n. e = TokenError n)"
  by (cases e) auto

subsection \<open>What is left for a thread to compute\<close>

text \<open>
  \<open>meaning\<close> is the result of a thread that runs alone from where it stands; a step of the thread does
  not change it.
\<close>

definition closing ::
    "policy_request \<Rightarrow> datetime \<Rightarrow> (exn + policy_decision) \<times> gateway_state \<Rightarrow> (exn + policy_decision) \<times> gateway_state" where
  "closing req now out =
     (case out of (Inr d, gs) \<Rightarrow> (Inr d, gs)
      | (Inl e, gs) \<Rightarrow> blocked req (lit ''fail-closed on internal error: '' @ exn_name e) now None gs)"

lemma evaluate_closing:
  "evaluate env keys store rand req now gs = closing req now (evaluate_inner env keys store rand req now gs)"
  by (simp add: evaluate_def closing_def)

definition consuming ::
    "pyenv \<Rightarrow> thread \<Rightarrow> asset \<Rightarrow> str list \<Rightarrow> policy_decision step" where
  "consuming env th a toks gs =
     (case consume_loop env (tokens gs) (asset_id a) (tenant_id a) (probe_now env th) toks of
        (Inl e, ts) \<Rightarrow> (Inl e, gs\<lparr>tokens := ts\<rparr>)
      | (Inr False, ts) \<Rightarrow>
          blocked (t_req th) (lit ''consent token replay detected'') (t_now th) (Some (asset_id a)) (gs\<lparr>tokens := ts\<rparr>)
      | (Inr True, ts) \<Rightarrow> conclude env (t_rand th) (t_req th) a (t_now th) (gs\<lparr>tokens := ts\<rparr>))"

definition probing ::
    "pyenv \<Rightarrow> thread \<Rightarrow> asset \<Rightarrow> str list \<Rightarrow> str option \<Rightarrow> policy_decision step" where
  "probing env th a toks tamper gs =
     (case probe_loop env (tokens gs) (asset_id a) (tenant_id a) (probe_now env th) toks tamper of
        Inl e \<Rightarrow> (Inl e, gs)
      | Inr (Some m) \<Rightarrow> refuse_tokens (t_req th) a (t_now th) m gs
      | Inr None \<Rightarrow> consuming env th a (consent_tokens (t_req th)) gs)"

text \<open>Neither depends on where the thread stands.\<close>

lemma phase_irrelevant [simp]:
  "probe_now env (th\<lparr>t_phase := p\<rparr>) = probe_now env th"
  "consuming env (th\<lparr>t_phase := p\<rparr>) a toks gs = consuming env th a toks gs"
  by (simp_all add: probe_now_def consuming_def split: prod.split sum.split bool.split)

lemma probing_phase [simp]: "probing env (th\<lparr>t_phase := p\<rparr>) a toks tamper gs = probing env th a toks tamper gs"
  by (simp add: probing_def split: sum.split option.split)

lemma probing_retry:
  "verify_without_consuming env (tokens gs) token (asset_id a) (tenant_id a) (probe_now env th) = Inl (TokenError m) \<Longrightarrow>
     probing env th a (token # toks) tamper gs = probing env th a toks (Some m) gs"
  by (simp add: probing_def)

lemma consuming_retry:
  "verify env (tokens gs) token (asset_id a) (tenant_id a) (probe_now env th) = Inl (TokenError m) \<Longrightarrow>
     consuming env th a (token # toks) gs = consuming env th a toks gs"
  by (simp add: consuming_def)

definition meaning ::
    "pyenv \<Rightarrow> keyring \<Rightarrow> 's asset_store \<Rightarrow> thread \<Rightarrow> policy_decision step" where
  "meaning env keys store th gs =
     (case t_phase th of
        Fetch \<Rightarrow> evaluate env keys store (t_rand th) (t_req th) (t_now th) gs
      | Probing a toks tamper \<Rightarrow> closing (t_req th) (t_now th) (probing env th a toks tamper gs)
      | Consuming a toks \<Rightarrow> closing (t_req th) (t_now th) (consuming env th a toks gs)
      | Deciding inside asset st conds reason ticket \<Rightarrow>
          (if inside then closing (t_req th) (t_now th) else id)
            (decide (t_req th) asset st conds reason ticket (t_now th) gs)
      | Finished r \<Rightarrow> (r, gs))"

lemma meaning_stopped:
  "t_phase th = stopped (t_req th) asset reason \<Longrightarrow>
     meaning env keys store th gs = closing (t_req th) (t_now th) (blocked (t_req th) reason (t_now th) asset gs)"
  by (simp add: meaning_def stopped_def blocked_def)

lemma meaning_fail_closed:
  "t_phase th = fail_closed (t_req th) e \<Longrightarrow>
     meaning env keys store th gs = closing (t_req th) (t_now th) (Inl e, gs)"
  by (simp add: meaning_def fail_closed_def blocked_def closing_def truthy_def)

lemma meaning_concluding:
  "t_phase th = concluding env (t_rand th) (t_req th) a \<Longrightarrow>
     meaning env keys store th gs =
       closing (t_req th) (t_now th) (conclude env (t_rand th) (t_req th) a (t_now th) gs)"
  by (simp add: meaning_def concluding_def conclude_def)

lemma meaning_refused:
  "t_phase th = tokens_refused (t_req th) a tamper \<Longrightarrow>
     meaning env keys store th gs = closing (t_req th) (t_now th) (refuse_tokens (t_req th) a (t_now th) tamper gs)"
  by (simp add: tokens_refused_def refuse_tokens_def Let_def meaning_stopped split: if_splits)

lemma meaning_at_gate:
  "t_phase th = at_gate env (t_rand th) (t_req th) a \<Longrightarrow>
     meaning env keys store th gs = closing (t_req th) (t_now th)
       (consent_gate env (t_req th) a (t_now th) (conclude env (t_rand th) (t_req th) a (t_now th)) gs)"
  by (auto simp: at_gate_def meaning_concluding consent_gate_def)
     (auto simp: meaning_def probing_def consuming_def probe_now_def Let_def split: sum.split option.split)

lemma first_stop_rules:
  "run_rules stop rs go gs =
     (case first_stop rs of Inl e \<Rightarrow> (Inl e, gs) | Inr (Some reason) \<Rightarrow> stop reason gs | Inr None \<Rightarrow> go gs)"
  by (induction rs rule: first_stop.induct) simp_all

lemma first_stop_pass: "first_stop rs = Inr None \<longleftrightarrow> all_pass rs"
  by (induction rs rule: first_stop.induct) (auto simp: all_pass_def)

lemma meaning_fetched:
  "t_phase th = after_fetch env keys (t_rand th) (t_req th) (t_now th) a \<Longrightarrow>
     get_asset store (req_asset_id (t_req th)) = Inr a \<Longrightarrow>
     meaning env keys store th gs = evaluate env keys store (t_rand th) (t_req th) (t_now th) gs"
  by (auto simp: after_fetch_def evaluate_closing evaluate_inner_rules first_stop_rules meaning_fail_closed
      meaning_stopped meaning_at_gate split: sum.splits option.splits)

lemma meaning_fetch_step:
  assumes "t_phase th = Fetch" "advance env keys store th gs = (th', gs')"
  shows "meaning env keys store th' gs' = meaning env keys store th gs"
proof (cases "get_asset store (req_asset_id (t_req th))")
  case (Inl e)
  with assms show ?thesis
    by (cases e) (auto simp: advance_def meaning_stopped meaning_fail_closed, auto simp: meaning_def assms(1)
        evaluate_closing evaluate_inner_def)
next
  case (Inr a)
  with assms have "th' = th\<lparr>t_asset := Some a, t_phase := after_fetch env keys (t_rand th) (t_req th) (t_now th) a\<rparr>"
    "gs' = gs" by (simp_all add: advance_def)
  with Inr assms(1) show ?thesis
    using meaning_fetched [of th' env keys a store gs] by (simp add: meaning_def [of env keys store th])
qed

lemma meaning_probing_step:
  assumes "t_phase th = Probing a toks tamper" "advance env keys store th gs = (th', gs')"
  shows "meaning env keys store th' gs' = meaning env keys store th gs"
proof -
  have m: "meaning env keys store th gs = closing (t_req th) (t_now th) (probing env th a toks tamper gs)"
    by (simp add: meaning_def assms(1))
  show ?thesis
  proof (cases toks)
    case Nil
    with assms show ?thesis unfolding m by (auto simp: advance_def meaning_refused probing_def)
  next
    case (Cons token rest)
    consider cl where "verify_without_consuming env (tokens gs) token (asset_id a) (tenant_id a) (probe_now env th) = Inr cl"
      | n where "verify_without_consuming env (tokens gs) token (asset_id a) (tenant_id a) (probe_now env th) = Inl (TokenError n)"
      | e where "verify_without_consuming env (tokens gs) token (asset_id a) (tenant_id a) (probe_now env th) = Inl e"
          "\<not> is_TokenError e"
      by (metis sumE is_TokenError_iff)
    then show ?thesis
    proof cases
      case 1
      with assms Cons show ?thesis unfolding m by (auto simp: advance_def probing_def meaning_def)
    next
      case (2 n)
      with assms Cons show ?thesis unfolding m by (auto simp: advance_def probing_retry) (simp add: meaning_def)
    next
      case (3 e)
      with assms Cons show ?thesis unfolding m
        by (cases e) (auto simp: advance_def meaning_fail_closed probing_def)
    qed
  qed
qed

lemma meaning_consuming_step:
  assumes "t_phase th = Consuming a toks" "advance env keys store th gs = (th', gs')"
  shows "meaning env keys store th' gs' = meaning env keys store th gs"
proof -
  have m: "meaning env keys store th gs = closing (t_req th) (t_now th) (consuming env th a toks gs)"
    by (simp add: meaning_def assms(1))
  show ?thesis
  proof (cases toks)
    case Nil
    with assms show ?thesis unfolding m by (auto simp: advance_def meaning_stopped consuming_def)
  next
    case (Cons token rest)
    consider cl ts where "verify env (tokens gs) token (asset_id a) (tenant_id a) (probe_now env th) = Inr (cl, ts)"
      | n where "verify env (tokens gs) token (asset_id a) (tenant_id a) (probe_now env th) = Inl (TokenError n)"
      | e where "verify env (tokens gs) token (asset_id a) (tenant_id a) (probe_now env th) = Inl e" "\<not> is_TokenError e"
      by (metis sumE prod.exhaust is_TokenError_iff)
    then show ?thesis
    proof cases
      case (1 cl ts)
      with assms Cons show ?thesis unfolding m by (auto simp: advance_def consuming_def meaning_concluding)
    next
      case (2 n)
      with assms Cons show ?thesis unfolding m by (auto simp: advance_def consuming_retry) (simp add: meaning_def)
    next
      case (3 e)
      with assms Cons show ?thesis unfolding m
        by (cases e) (auto simp: advance_def meaning_fail_closed consuming_def)
    qed
  qed
qed

lemma advance_meaning:
  assumes "advance env keys store th gs = (th', gs')"
  shows "meaning env keys store th' gs' = meaning env keys store th gs"
proof (cases "t_phase th")
  case (Deciding inside asset st conds reason ticket)
  with assms show ?thesis
    by (auto simp: advance_def Let_def meaning_def decide_def next_sequence_def closing_def fail_closed_def
        blocked_def truthy_def split: prod.splits sum.splits)
next
  case (Finished r)
  with assms show ?thesis by (simp add: advance_def)
qed (simp_all add: meaning_fetch_step [OF _ assms] meaning_probing_step [OF _ assms] meaning_consuming_step [OF _ assms])

subsection \<open>Every thread ends\<close>

text \<open>At most this many steps are left.\<close>

fun steps_left :: "nat \<Rightarrow> phase \<Rightarrow> nat" where
  "steps_left n Fetch = 2 * n + 5"
| "steps_left n (Probing a toks tamper) = n + 4 + length toks"
| "steps_left n (Consuming a toks) = 3 + length toks"
| "steps_left n (Deciding inside asset st conds reason ticket) = (if inside then 2 else 1)"
| "steps_left n (Finished r) = 0"

definition left :: "thread \<Rightarrow> nat" where
  "left th = steps_left (length (consent_tokens (t_req th))) (t_phase th)"

lemma left_0: "left th = 0 \<longleftrightarrow> (\<exists>r. t_phase th = Finished r)"
  by (cases "t_phase th") (auto simp: left_def)

lemma steps_simps:
  "steps_left n (fail_closed req e) = 1" "steps_left n (stopped req asset reason) = 2"
  "steps_left n (concluding env rand req a) = 2" "steps_left n (tokens_refused req a tamper) = 2"
  by (simp_all add: fail_closed_def stopped_def concluding_def tokens_refused_def Let_def)

lemma steps_at_gate: "steps_left n (at_gate env rand req a) \<le> n + 4 + length (consent_tokens req)"
  by (simp add: at_gate_def steps_simps)

lemma steps_fetched: "steps_left n (after_fetch env keys rand req now a) \<le> n + 4 + length (consent_tokens req)"
  using steps_at_gate by (auto simp: after_fetch_def steps_simps split: sum.split option.split)

lemma advance_thread:
  assumes "advance env keys store th gs = (th', gs')"
  shows "t_req th' = t_req th \<and> t_now th' = t_now th \<and> t_rand th' = t_rand th"
  using assms by (auto simp: advance_def Let_def split: phase.splits sum.splits list.splits exn.splits prod.splits)

lemma advance_left:
  assumes "advance env keys store th gs = (th', gs')" shows "left th' \<le> left th - 1"
proof -
  let ?n = "length (consent_tokens (t_req th))"
  have fetched: "steps_left ?n (after_fetch env keys (t_rand th) (t_req th) (t_now th) a) \<le> 4 + 2 * ?n" for a
    using steps_fetched [of ?n env keys "t_rand th" "t_req th" "t_now th" a] by simp
  show ?thesis
    using assms fetched
    by (cases "t_phase th")
       (auto simp: advance_def left_def steps_simps Let_def split: sum.splits list.splits exn.splits prod.splits)
qed

subsection \<open>What is known of a thread\<close>

text \<open>What a decision other than \<open>Blocked\<close> rests on: the asset as the thread read it.\<close>

definition grounds :: "pyenv \<Rightarrow> keyring \<Rightarrow> thread \<Rightarrow> str \<Rightarrow> policy_state \<Rightarrow> bool" where
  "grounds env keys th k st \<longleftrightarrow>
     (\<exists>a. t_asset th = Some a \<and> k = asset_id a \<and> within_rights env keys (t_req th) (t_now th) a
        \<and> (if requires_consent a \<and> consent_tokens (t_req th) = [] then st = CONDITIONAL
           else st = granted_state (t_req th) \<and> (requires_consent a \<longrightarrow> t_nonce th \<noteq> None)))"

definition at_tokens :: "pyenv \<Rightarrow> keyring \<Rightarrow> thread \<Rightarrow> asset \<Rightarrow> bool" where
  "at_tokens env keys th a \<longleftrightarrow>
     t_asset th = Some a \<and> within_rights env keys (t_req th) (t_now th) a
     \<and> requires_consent a \<and> consent_tokens (t_req th) \<noteq> [] \<and> t_nonce th = None"

fun phase_ok :: "pyenv \<Rightarrow> keyring \<Rightarrow> gateway_state \<Rightarrow> thread \<Rightarrow> phase \<Rightarrow> bool" where
  "phase_ok env keys gs th Fetch \<longleftrightarrow> t_asset th = None \<and> t_nonce th = None"
| "phase_ok env keys gs th (Probing a toks tamper) \<longleftrightarrow> at_tokens env keys th a"
| "phase_ok env keys gs th (Consuming a toks) \<longleftrightarrow> at_tokens env keys th a"
| "phase_ok env keys gs th (Deciding inside k st conds reason ticket) \<longleftrightarrow>
     (if inside then st = BLOCKED \<or> grounds env keys th k st
      else st = BLOCKED \<and> length reason \<le> 1024 \<and> \<not> truthy ticket)"
| "phase_ok env keys gs th (Finished r) \<longleftrightarrow>
     (\<exists>d. r = Inr d \<and> decision_ok d \<and> d_request_id d = req_id (t_req th) \<and> d_sequence d < counter gs
        \<and> (d_state d = BLOCKED \<or> grounds env keys th (d_asset_id d) (d_state d)))"

definition thread_ok :: "pyenv \<Rightarrow> keyring \<Rightarrow> gateway_state \<Rightarrow> thread \<Rightarrow> bool" where
  "thread_ok env keys gs th \<longleftrightarrow>
     phase_ok env keys gs th (t_phase th) \<and> (\<forall>n. t_nonce th = Some n \<longrightarrow> n \<in> used_nonces (tokens gs))"

lemma thread_ok_new: "thread_ok env keys gs (new_thread req now rand)"
  by (simp add: thread_ok_def new_thread_def)

lemma new_thread_sel [simp]:
  "t_req (new_thread req now rand) = req" "t_now (new_thread req now rand) = now" "t_rand (new_thread req now rand) = rand"
  "t_phase (new_thread req now rand) = Fetch" "t_asset (new_thread req now rand) = None"
  "t_nonce (new_thread req now rand) = None"
  by (simp_all add: new_thread_def)

lemma thread_ok_mono:
  "thread_ok env keys gs th \<Longrightarrow> counter gs \<le> counter gs' \<Longrightarrow> used_nonces (tokens gs) \<subseteq> used_nonces (tokens gs') \<Longrightarrow>
     thread_ok env keys gs' th"
  by (cases "t_phase th") (auto simp: thread_ok_def)

lemma phase_ok_refusals [simp]:
  "phase_ok env keys gs th (fail_closed req e)"
  "phase_ok env keys gs th (stopped req asset reason)"
  "phase_ok env keys gs th (tokens_refused req a tamper)"
  using fail_closed_short [of e]
  by (simp_all add: fail_closed_def stopped_def tokens_refused_def truthy_def Let_def)

lemma phase_ok_concluding:
  "phase_ok env keys gs th (concluding env' rand req a) \<longleftrightarrow> grounds env keys th (asset_id a) (granted_state req)"
  by (auto simp: concluding_def granted_state_def)

lemma grounds_phase [simp]:
  "grounds env keys (th\<lparr>t_phase := p\<rparr>) k st = grounds env keys th k st"
  "at_tokens env keys (th\<lparr>t_phase := p\<rparr>) a = at_tokens env keys th a"
  by (simp_all add: grounds_def at_tokens_def)

lemma phase_ok_phase [simp]: "phase_ok env keys gs (th\<lparr>t_phase := p\<rparr>) q = phase_ok env keys gs th q"
  by (cases q) simp_all

lemma phase_ok_fetched:
  assumes "t_asset th = Some a" "t_nonce th = None"
  shows "phase_ok env keys gs th (after_fetch env keys (t_rand th) (t_req th) (t_now th) a)"
proof (cases "all_pass (checks env keys (t_req th) (t_now th) a)")
  case False
  then show ?thesis
    by (cases "first_stop (checks env keys (t_req th) (t_now th) a)")
       (auto simp: after_fetch_def simp flip: first_stop_pass split: option.split)
next
  case True
  then have "within_rights env keys (t_req th) (t_now th) a" by (simp add: all_pass_iff)
  with assms have "phase_ok env keys gs th (at_gate env (t_rand th) (t_req th) a)"
    by (simp add: at_gate_def phase_ok_concluding) (simp add: grounds_def at_tokens_def)
  with first_stop_pass [THEN iffD2, OF True] show ?thesis by (simp add: after_fetch_def)
qed

text \<open>The numbers of the decisions that have been returned.\<close>

definition number_of :: "thread \<Rightarrow> int option" where
  "number_of th = (case t_phase th of Finished (Inr d) \<Rightarrow> Some (d_sequence d) | _ \<Rightarrow> None)"

lemma number_of_phase [simp]:
  "number_of (th\<lparr>t_phase := Fetch\<rparr>) = None" "number_of (th\<lparr>t_phase := Probing a toks tamper\<rparr>) = None"
  "number_of (th\<lparr>t_phase := Consuming a toks\<rparr>) = None"
  "number_of (th\<lparr>t_phase := Deciding inside k st conds reason ticket\<rparr>) = None"
  "number_of (th\<lparr>t_phase := Finished (Inr d)\<rparr>) = Some (d_sequence d)"
  by (simp_all add: number_of_def)

lemma number_of_next [simp]:
  "number_of (th\<lparr>t_phase := fail_closed req e\<rparr>) = None" "number_of (th\<lparr>t_phase := stopped req asset reason\<rparr>) = None"
  "number_of (th\<lparr>t_phase := tokens_refused req a tamper\<rparr>) = None"
  "number_of (th\<lparr>t_phase := concluding env rand req a\<rparr>) = None"
  "number_of (th\<lparr>t_phase := at_gate env rand req a\<rparr>) = None"
  by (simp_all add: fail_closed_def stopped_def tokens_refused_def concluding_def at_gate_def Let_def)

lemma number_of_fetched [simp]: "number_of (th\<lparr>t_phase := after_fetch env keys rand req now a\<rparr>) = None"
  by (simp add: after_fetch_def split: sum.split option.split)

lemma number_of_new [simp]: "number_of (new_thread req now rand) = None"
  by (simp add: number_of_def)

text \<open>What a step of a thread does to it, and to what the threads share.\<close>

definition step_ok :: "pyenv \<Rightarrow> keyring \<Rightarrow> thread \<Rightarrow> gateway_state \<Rightarrow> thread \<Rightarrow> gateway_state \<Rightarrow> bool" where
  "step_ok env keys th gs th' gs' \<longleftrightarrow>
     thread_ok env keys gs' th'
     \<and> counter gs \<le> counter gs' \<and> used_nonces (tokens gs) \<subseteq> used_nonces (tokens gs')
     \<and> (t_nonce th' = t_nonce th \<or> (\<exists>n. t_nonce th' = Some n \<and> n \<notin> used_nonces (tokens gs)))
     \<and> (number_of th' = number_of th \<or> number_of th' = Some (counter gs))"

lemma step_okI:
  assumes "thread_ok env keys gs th" "phase_ok env keys gs th p" "number_of th = None" "number_of (th\<lparr>t_phase := p\<rparr>) = None"
  shows "step_ok env keys th gs (th\<lparr>t_phase := p\<rparr>) gs"
  using assms by (auto simp: step_ok_def thread_ok_def)

lemma fetch_step_ok:
  assumes "t_phase th = Fetch" "thread_ok env keys gs th" "advance env keys store th gs = (th', gs')"
  shows "step_ok env keys th gs th' gs'"
proof (cases "get_asset store (req_asset_id (t_req th))")
  case (Inl e)
  have n: "number_of th = None" by (simp add: number_of_def assms(1))
  with Inl assms show ?thesis
    by (cases e) (auto simp: advance_def intro!: step_okI)
next
  case (Inr a)
  define th1 where "th1 = th\<lparr>t_asset := Some a\<rparr>"
  define p where "p = after_fetch env keys (t_rand th1) (t_req th1) (t_now th1) a"
  have e: "th' = th1\<lparr>t_phase := p\<rparr>" "gs' = gs" using assms Inr by (simp_all add: advance_def th1_def p_def)
  have n: "number_of th = None" "t_nonce th = None"
    using assms(1,2) by (simp_all add: number_of_def thread_ok_def)
  have "phase_ok env keys gs th1 p"
    unfolding p_def by (rule phase_ok_fetched) (simp_all add: n th1_def)
  moreover have "number_of th' = None" by (simp add: e p_def)
  moreover have "t_nonce th' = None" by (simp add: e th1_def n)
  ultimately show ?thesis using n by (simp add: step_ok_def thread_ok_def e)
qed

lemma probing_step_ok:
  assumes "t_phase th = Probing a toks tamper" "thread_ok env keys gs th" "advance env keys store th gs = (th', gs')"
  shows "step_ok env keys th gs th' gs'"
proof -
  have n: "number_of th = None" by (simp add: number_of_def assms(1))
  have t: "at_tokens env keys th a" using assms(1,2) by (simp add: thread_ok_def)
  show ?thesis
    using assms t n
    by (cases toks) (auto simp: advance_def split: sum.splits exn.splits intro!: step_okI)
qed

lemma consuming_step_ok:
  assumes "t_phase th = Consuming a toks" "thread_ok env keys gs th" "advance env keys store th gs = (th', gs')"
  shows "step_ok env keys th gs th' gs'"
proof -
  have n: "number_of th = None" by (simp add: number_of_def assms(1))
  have t: "at_tokens env keys th a" using assms(1,2) by (simp add: thread_ok_def)
  show ?thesis
  proof (cases "\<exists>token rest cl ts. toks = token # rest \<and>
      verify env (tokens gs) token (asset_id a) (tenant_id a) (probe_now env th) = Inr (cl, ts)")
    case True
    then obtain token rest cl ts where v: "toks = token # rest"
      "verify env (tokens gs) token (asset_id a) (tenant_id a) (probe_now env th) = Inr (cl, ts)" by blast
    then have e: "th' = th\<lparr>t_phase := concluding env (t_rand th) (t_req th) a, t_nonce := Some (c_nonce cl)\<rparr>"
      "gs' = gs\<lparr>tokens := ts\<rparr>" using assms(1,3) by (simp_all add: advance_def)
    have ts: "c_nonce cl \<notin> used_nonces (tokens gs)" "used_nonces ts = insert (c_nonce cl) (used_nonces (tokens gs))"
      using v(2) by (simp_all add: verify_iff)
    have "grounds env keys th' (asset_id a) (granted_state (t_req th))"
      using t by (simp add: e grounds_def at_tokens_def)
    then have "phase_ok env keys gs' th' (t_phase th')" by (simp add: e phase_ok_concluding)
    moreover have "number_of th' = None" by (simp add: e number_of_def concluding_def)
    ultimately show ?thesis using n ts by (simp add: step_ok_def thread_ok_def e) blast
  next
    case False
    then show ?thesis
      using assms t n
      by (cases toks) (auto simp: advance_def split: sum.splits exn.splits intro!: step_okI)
  qed
qed

lemma deciding_step_ok:
  assumes "t_phase th = Deciding inside k st conds reason ticket" "thread_ok env keys gs th" "0 \<le> counter gs"
    and "advance env keys store th gs = (th', gs')"
  shows "step_ok env keys th gs th' gs'"
proof -
  let ?d = "draft (t_req th) k st conds reason ticket (t_now th) (counter gs)"
  have n: "number_of th = None" by (simp add: number_of_def assms(1))
  have p: "if inside then st = BLOCKED \<or> grounds env keys th k st
      else st = BLOCKED \<and> length reason \<le> 1024 \<and> \<not> truthy ticket"
    using assms(1,2) by (simp add: thread_ok_def)
  show ?thesis
  proof (cases "decision_ok ?d")
    case True
    then have "new_decision ?d = Inr ?d" by (simp add: new_decision_iff)
    then have e: "th' = th\<lparr>t_phase := Finished (Inr ?d)\<rparr>" "gs' = bump gs"
      using assms(1,4) by (simp_all add: advance_def next_sequence_def bump_def)
    show ?thesis
      using True assms(2) p by (simp add: step_ok_def thread_ok_def e split: if_splits)
  next
    case False
    with p assms(3) have inside by (auto simp: draft_ok split: if_splits)
    moreover from False have "new_decision ?d = Inl ValidationError" by (simp add: new_decision_Inl)
    ultimately have e: "th' = th\<lparr>t_phase := fail_closed (t_req th) ValidationError\<rparr>" "gs' = bump gs"
      using assms(1,4) by (simp_all add: advance_def next_sequence_def bump_def)
    show ?thesis using assms(2) n by (simp add: step_ok_def thread_ok_def e)
  qed
qed

lemma advance_ok:
  assumes "thread_ok env keys gs th" "0 \<le> counter gs" "advance env keys store th gs = (th', gs')"
  shows "step_ok env keys th gs th' gs'"
proof (cases "t_phase th")
  case (Finished r)
  with assms show ?thesis by (auto simp: advance_def step_ok_def)
qed (simp_all add: fetch_step_ok [OF _ assms(1,3)] probing_step_ok [OF _ assms(1,3)]
       consuming_step_ok [OF _ assms(1,3)] deciding_step_ok [OF _ assms])

subsection \<open>Lists whose members are told apart\<close>

definition apart :: "('a \<Rightarrow> 'b option) \<Rightarrow> 'a list \<Rightarrow> bool" where
  "apart f xs \<longleftrightarrow> (\<forall>i<length xs. \<forall>j<length xs. i \<noteq> j \<longrightarrow> f (xs ! i) \<noteq> None \<longrightarrow> f (xs ! i) \<noteq> f (xs ! j))"

lemma apart_snoc: "apart f xs \<Longrightarrow> f x = None \<Longrightarrow> apart f (xs @ [x])"
  by (auto simp: apart_def nth_append less_Suc_eq)

lemma apart_update:
  assumes "apart f xs" "i < length xs" "f x = f (xs ! i) \<or> f x \<notin> f ` set xs"
  shows "apart f (xs[i := x])"
proof -
  have "f x \<noteq> f (xs ! j)" if "j < length xs" "j \<noteq> i" "f x \<noteq> None \<or> f (xs ! j) \<noteq> None" for j
    using assms that unfolding apart_def by (metis image_eqI nth_mem)
  note x = this
  show ?thesis
    unfolding apart_def
  proof (intro allI impI)
    fix j k assume j: "j < length (xs[i := x])" and k: "k < length (xs[i := x])" and ne: "j \<noteq> k"
      and some: "f (xs[i := x] ! j) \<noteq> None"
    consider "j = i" | "k = i" | "j \<noteq> i" "k \<noteq> i" by blast
    then show "f (xs[i := x] ! j) \<noteq> f (xs[i := x] ! k)"
    proof cases
      case 1
      then have "xs[i := x] ! j = x" "xs[i := x] ! k = xs ! k" using assms(2) ne by simp_all
      with x [of k] k ne some 1 show ?thesis by auto
    next
      case 2
      then have "xs[i := x] ! k = x" "xs[i := x] ! j = xs ! j" using assms(2) ne by simp_all
      with x [of j] j ne some 2 show ?thesis by auto
    next
      case 3
      with assms(1) j k ne some show ?thesis by (simp add: apart_def)
    qed
  qed
qed

subsection \<open>Every interleaving\<close>

definition race_start :: "'s asset_store \<Rightarrow> 's \<Rightarrow> gateway_state \<Rightarrow> 's race" where
  "race_start store x gs = \<lparr>r_store = store, r_aux = x, r_gate = gs, r_threads = []\<rparr>"

inductive race_reach :: "pyenv \<Rightarrow> keyring \<Rightarrow> 's race \<Rightarrow> bool" for env keys where
  start: "0 \<le> counter gs \<Longrightarrow> race_reach env keys (race_start store x gs)"
| step: "race_reach env keys s \<Longrightarrow> race_reach env keys (race_step env keys s opn)"

definition race_inv :: "pyenv \<Rightarrow> keyring \<Rightarrow> 's race \<Rightarrow> bool" where
  "race_inv env keys s \<longleftrightarrow>
     0 \<le> counter (r_gate s) \<and> (\<forall>th\<in>set (r_threads s). thread_ok env keys (r_gate s) th)
     \<and> apart t_nonce (r_threads s) \<and> apart number_of (r_threads s)"

lemma number_below: "thread_ok env keys gs th \<Longrightarrow> number_of th = Some n \<Longrightarrow> n < counter gs"
  by (auto simp: thread_ok_def number_of_def split: phase.splits sum.splits)

lemma nonce_used: "thread_ok env keys gs th \<Longrightarrow> t_nonce th = Some n \<Longrightarrow> n \<in> used_nonces (tokens gs)"
  by (simp add: thread_ok_def)

lemma race_run_inv:
  assumes inv: "race_inv env keys s" and i: "i < length (r_threads s)"
    and adv: "advance env keys store (r_threads s ! i) (r_gate s) = (th, gs)"
  shows "race_inv env keys (s\<lparr>r_threads := (r_threads s)[i := th], r_gate := gs\<rparr>)"
proof -
  have c: "0 \<le> counter (r_gate s)" and all: "\<forall>th\<in>set (r_threads s). thread_ok env keys (r_gate s) th"
    using inv by (simp_all add: race_inv_def)
  have ok: "step_ok env keys (r_threads s ! i) (r_gate s) th gs"
    using advance_ok [OF _ c adv] all i by simp
  have "t_nonce th = t_nonce (r_threads s ! i) \<or> t_nonce th \<notin> t_nonce ` set (r_threads s)"
    using ok all nonce_used unfolding step_ok_def by (metis image_iff)
  moreover have "number_of th = number_of (r_threads s ! i) \<or> number_of th \<notin> number_of ` set (r_threads s)"
    using ok all number_below unfolding step_ok_def by (metis image_iff less_irrefl)
  moreover have "\<forall>u\<in>set (r_threads s). thread_ok env keys gs u"
    using ok all thread_ok_mono unfolding step_ok_def by blast
  then have "\<forall>u\<in>set ((r_threads s)[i := th]). thread_ok env keys gs u"
    using ok set_update_subset_insert [of "r_threads s" i th] unfolding step_ok_def by blast
  ultimately show ?thesis
    using inv ok i by (simp add: race_inv_def step_ok_def apart_update)
qed

lemma race_step_inv:
  assumes "race_inv env keys s" shows "race_inv env keys (race_step env keys s opn)"
proof (cases opn)
  case (Arrive req now rand)
  with assms show ?thesis
    by (simp add: race_inv_def thread_ok_new apart_snoc)
next
  case (Run i)
  with race_run_inv [OF assms] assms show ?thesis by (auto split: prod.split)
next
  case (StoreOp opn)
  with assms show ?thesis by (simp add: race_inv_def split: prod.split)
qed

lemma race_reach_inv: "race_reach env keys s \<Longrightarrow> race_inv env keys s"
  by (induction rule: race_reach.induct) (simp_all add: race_step_inv, simp add: race_start_def race_inv_def apart_def)

text \<open>What the steps keep of a thread and of the numbers.\<close>

lemma race_step_thread:
  assumes "i < length (r_threads s)"
  shows "i < length (r_threads (race_step env keys s opn))"
    and "t_req (r_threads (race_step env keys s opn) ! i) = t_req (r_threads s ! i)"
    and "t_now (r_threads (race_step env keys s opn) ! i) = t_now (r_threads s ! i)"
    and "opn \<noteq> Run i \<Longrightarrow> r_threads (race_step env keys s opn) ! i = r_threads s ! i"
proof -
  show "i < length (r_threads (race_step env keys s opn))"
    using assms by (cases opn) (auto split: prod.split)
  show "opn \<noteq> Run i \<Longrightarrow> r_threads (race_step env keys s opn) ! i = r_threads s ! i"
    using assms by (cases opn) (auto simp: nth_append split: prod.split)
  show "t_req (r_threads (race_step env keys s opn) ! i) = t_req (r_threads s ! i)"
    "t_now (r_threads (race_step env keys s opn) ! i) = t_now (r_threads s ! i)"
    using assms by (cases opn; auto simp: nth_append nth_list_update dest: advance_thread split: prod.split)+
qed

subsection \<open>Every thread ends, whatever the others do\<close>

interpretation races: scheduled "race_step env keys" "\<lambda>s. length (r_threads s)" "\<lambda>s i. left (r_threads s ! i)"
  "\<lambda>i. (=) (Run i)"
proof (unfold_locales, goal_cases)
  case (1 i s opn)
  then show ?case by (rule race_step_thread(1))
next
  case (2 i s opn)
  obtain th gs where "advance env keys (r_store s) (r_threads s ! i) (r_gate s) = (th, gs)" by force
  with 2 advance_left [OF this] show ?case by auto
next
  case (3 i s opn)
  then show ?case using race_step_thread(4) [of i s opn env keys] by auto
qed

lemma race_left:
  "i < length (r_threads s) \<Longrightarrow>
     left (r_threads (foldl (race_step env keys) s opns) ! i) \<le> left (r_threads s ! i) - count_list opns (Run i)"
  by (simp add: count_list_eq_length_filter races.todo_shrinks)

lemma race_length: "i < length (r_threads s) \<Longrightarrow> i < length (r_threads (foldl (race_step env keys) s opns))"
  by (rule races.stays_present)

lemma race_run_reach: "race_reach env keys s \<Longrightarrow> race_reach env keys (foldl (race_step env keys) s opns)"
  by (induction opns arbitrary: s) (simp_all add: race_reach.step)

lemma new_thread_left: "left (new_thread req now rand) = 2 * length (consent_tokens req) + 5"
  by (simp add: left_def)

lemma race_request:
  "i < length (r_threads s) \<Longrightarrow> t_req (r_threads (foldl (race_step env keys) s opns) ! i) = t_req (r_threads s ! i)"
  by (induction opns arbitrary: s) (simp_all add: race_step_thread(1,2))

lemma thread_finishes:
  assumes "race_reach env keys s" "i < length (r_threads s)" "left (r_threads s ! i) \<le> count_list opns (Run i)"
  shows "\<exists>d. t_phase (r_threads (foldl (race_step env keys) s opns) ! i) = Finished (Inr d)
    \<and> decision_ok d \<and> d_request_id d = req_id (t_req (r_threads s ! i))"
proof -
  let ?s = "foldl (race_step env keys) s opns"
  note req = race_request [OF assms(2), of env keys opns]
  have "thread_ok env keys (r_gate ?s) (r_threads ?s ! i)"
    using race_reach_inv [OF race_run_reach [OF assms(1)]] race_length [OF assms(2)] by (simp add: race_inv_def)
  moreover from race_left [OF assms(2), of env keys opns] assms(3)
  obtain r where "t_phase (r_threads ?s ! i) = Finished r" using left_0 by auto
  ultimately show ?thesis by (auto simp: thread_ok_def req)
qed

text \<open>A thread that makes its steps with nothing in between returns what \<open>evaluate\<close> returns.\<close>

lemma race_alone:
  assumes "i < length (r_threads s)"
  shows "r_store (foldl (race_step env keys) s (replicate n (Run i))) = r_store s
    \<and> meaning env keys (r_store s) (r_threads (foldl (race_step env keys) s (replicate n (Run i))) ! i)
          (r_gate (foldl (race_step env keys) s (replicate n (Run i)))) =
        meaning env keys (r_store s) (r_threads s ! i) (r_gate s)"
  using assms
proof (induction n arbitrary: s)
  case (Suc n)
  obtain th gs where adv: "advance env keys (r_store s) (r_threads s ! i) (r_gate s) = (th, gs)" by force
  have s: "race_step env keys s (Run i) = s\<lparr>r_threads := (r_threads s)[i := th], r_gate := gs\<rparr>"
    using Suc.prems adv by simp
  have "i < length (r_threads (race_step env keys s (Run i)))" by (rule race_step_thread(1) [OF Suc.prems])
  from Suc.IH [OF this [unfolded s]] advance_meaning [OF adv] Suc.prems show ?case
    by (simp add: s del: race_step.simps)
qed simp

lemma count_replicate [simp]: "count_list (replicate n x) x = n"
  by (induction n) simp_all

lemma race_store_ops:
  "r_threads (foldl (race_step env keys) s (map StoreOp sops)) = r_threads s
   \<and> r_gate (foldl (race_step env keys) s (map StoreOp sops)) = r_gate s"
  by (induction sops arbitrary: s) (simp_all split: prod.split)

lemma advance_fetched:
  "t_phase th = Fetch \<Longrightarrow> advance env keys store th gs = (th', gs') \<Longrightarrow> t_phase th' \<noteq> Fetch"
  by (auto simp: advance_def after_fetch_def at_gate_def concluding_def fail_closed_def stopped_def Let_def
      split: sum.splits exn.splits option.splits if_splits)

lemma meaning_store:
  "t_phase th \<noteq> Fetch \<Longrightarrow> meaning env keys store th gs = meaning env keys store' th gs"
  by (cases "t_phase th") (simp_all add: meaning_def)

text \<open>
  The read of the asset is the only moment at which an evaluation looks at the store: what the store
  is told after it, a withdrawal for instance, comes too late for that evaluation.
\<close>

lemma evaluates_as_read:
  assumes "i < length (r_threads s)" "t_phase (r_threads s ! i) = Fetch" "left (r_threads s ! i) \<le> Suc n"
    and "s' = foldl (race_step env keys) s (Run i # map StoreOp sops @ replicate n (Run i))"
  shows "t_phase (r_threads s' ! i) =
      Finished (fst (evaluate env keys (r_store s) (t_rand (r_threads s ! i)) (t_req (r_threads s ! i))
        (t_now (r_threads s ! i)) (r_gate s)))
    \<and> r_gate s' =
        snd (evaluate env keys (r_store s) (t_rand (r_threads s ! i)) (t_req (r_threads s ! i))
          (t_now (r_threads s ! i)) (r_gate s))"
proof -
  let ?ev = "evaluate env keys (r_store s) (t_rand (r_threads s ! i)) (t_req (r_threads s ! i)) (t_now (r_threads s ! i)) (r_gate s)"
  obtain th gs where adv: "advance env keys (r_store s) (r_threads s ! i) (r_gate s) = (th, gs)" by force
  define s1 where "s1 = race_step env keys s (Run i)"
  define s2 where "s2 = foldl (race_step env keys) s1 (map StoreOp sops)"
  have s1: "r_threads s1 ! i = th" "r_gate s1 = gs" "i < length (r_threads s1)"
    using assms(1) adv by (simp_all add: s1_def)
  have s2: "r_threads s2 ! i = th" "r_gate s2 = gs" "i < length (r_threads s2)"
    using s1 race_store_ops [of env keys s1 sops] by (simp_all add: s2_def)
  have s': "s' = foldl (race_step env keys) s2 (replicate n (Run i))"
    by (simp add: assms(4) s1_def s2_def)
  have "left th \<le> n" using advance_left [OF adv] assms(3) by simp
  with race_left [OF s2(3), of env keys "replicate n (Run i)"] s2(1)
  have "left (r_threads s' ! i) = 0" by (simp add: s')
  then obtain r where r: "t_phase (r_threads s' ! i) = Finished r" by (auto simp: left_0)
  have "meaning env keys (r_store s2) (r_threads s' ! i) (r_gate s') = meaning env keys (r_store s2) th gs"
    using race_alone [OF s2(3)] unfolding s' by (simp add: s2(1,2))
  also have "\<dots> = meaning env keys (r_store s) th gs"
    using advance_fetched [OF assms(2) adv] by (rule meaning_store)
  also have "\<dots> = ?ev" using advance_meaning [OF adv] assms(2) by (simp add: meaning_def)
  finally have "(r, r_gate s') = ?ev" using r by (simp add: meaning_def)
  with r show ?thesis by (metis fst_conv snd_conv)
qed

subsection \<open>Withdrawal among threads\<close>

definition store_withdrawn :: "'s race \<Rightarrow> str \<Rightarrow> bool" where
  "store_withdrawn s k \<longleftrightarrow> (\<exists>a. get_asset (r_store s) k = Inr a \<and> withdrawn a)"

lemma store_withdrawn_step: "store_withdrawn s k \<Longrightarrow> store_withdrawn (race_step env keys s opn) k"
proof (cases opn)
  case (StoreOp so)
  assume "store_withdrawn s k"
  then obtain a where a: "dget (assets (r_store s)) k = Some a" "withdrawn a"
    by (auto simp: store_withdrawn_def get_asset_iff)
  with stores.withdrawn_forever [of "(r_store s, r_aux s)" k a env "[so]"]
  have "\<exists>b. dget (assets (fst (store_step env (r_store s, r_aux s) so))) k = Some b \<and> withdrawn b"
    by (auto simp: case_prod_unfold)
  then show ?thesis by (auto simp: StoreOp store_withdrawn_def get_asset_iff split: prod.splits)
qed (auto simp: store_withdrawn_def split: prod.split)

lemma store_withdraw_race:
  assumes "contains_asset (r_store s) k"
  shows "store_withdrawn (race_step env keys s (StoreOp (OpWithdraw k ns))) k"
proof -
  from assms obtain a store y where w: "withdraw (r_store s) k ns (r_aux s) = Inr (a, store, y)"
    using withdraw_defined [of "r_store s" k ns "r_aux s"] by auto
  from withdraw_get [OF w] w show ?thesis by (simp add: store_withdrawn_def)
qed

text \<open>A thread for the asset has not read it yet, or has read it as withdrawn.\<close>

definition reads_withdrawn :: "str \<Rightarrow> thread \<Rightarrow> bool" where
  "reads_withdrawn k th \<longleftrightarrow>
     (req_asset_id (t_req th) = k \<longrightarrow> t_phase th = Fetch \<or> (\<exists>a. t_asset th = Some a \<and> withdrawn a))"

lemma advance_asset:
  "advance env keys store th gs = (th', gs') \<Longrightarrow> t_phase th \<noteq> Fetch \<Longrightarrow> t_asset th' = t_asset th"
  by (auto simp: advance_def Let_def split: phase.splits sum.splits list.splits exn.splits prod.splits)

lemma advance_reads:
  assumes "advance env keys (r_store s) th (r_gate s) = (th', gs)" "store_withdrawn s k" "reads_withdrawn k th"
  shows "reads_withdrawn k th'"
proof (cases "t_phase th = Fetch \<and> req_asset_id (t_req th) = k")
  case True
  from assms(2) obtain a where a: "get_asset (r_store s) k = Inr a" "withdrawn a"
    by (auto simp: store_withdrawn_def)
  with assms(1) True have "t_asset th' = Some a" by (auto simp: advance_def)
  with a show ?thesis by (simp add: reads_withdrawn_def)
next
  case False
  with assms(3) advance_thread [OF assms(1)] advance_asset [OF assms(1)] show ?thesis
    by (auto simp: reads_withdrawn_def)
qed

lemma reads_withdrawn_step:
  assumes "store_withdrawn s k" "i < length (r_threads s) \<Longrightarrow> reads_withdrawn k (r_threads s ! i)"
    and "i < length (r_threads (race_step env keys s opn))"
  shows "reads_withdrawn k (r_threads (race_step env keys s opn) ! i)"
proof (cases "i < length (r_threads s)")
  case True
  show ?thesis
  proof (cases "opn = Run i")
    case False
    with race_step_thread(4) [OF True False] assms(2) [OF True] show ?thesis by simp
  next
    case run: True
    obtain th gs where adv: "advance env keys (r_store s) (r_threads s ! i) (r_gate s) = (th, gs)" by force
    with run True advance_reads [OF adv assms(1) assms(2) [OF True]] show ?thesis by simp
  qed
next
  case False
  with assms(3) obtain req now rand where "opn = Arrive req now rand" "i = length (r_threads s)"
    by (cases opn) (auto split: prod.splits if_splits)
  then show ?thesis by (simp add: reads_withdrawn_def)
qed

lemma reads_withdrawn_run:
  assumes "store_withdrawn s k" "i < length (r_threads s) \<Longrightarrow> reads_withdrawn k (r_threads s ! i)"
    and "i < length (r_threads (foldl (race_step env keys) s opns))"
  shows "reads_withdrawn k (r_threads (foldl (race_step env keys) s opns) ! i)"
  using assms
proof (induction opns arbitrary: s)
  case (Cons opn opns)
  show ?case
    using Cons.IH [OF store_withdrawn_step [OF Cons.prems(1)] reads_withdrawn_step [OF Cons.prems(1,2)]] Cons.prems(3)
    by simp
qed simp

lemma reads_withdrawn_blocked:
  "thread_ok env keys gs th \<Longrightarrow> reads_withdrawn k th \<Longrightarrow> req_asset_id (t_req th) = k \<Longrightarrow>
     t_phase th = Finished (Inr d) \<Longrightarrow> d_state d = BLOCKED"
  by (auto simp: thread_ok_def reads_withdrawn_def grounds_def within_rights_def)

theorem withdrawn_for_threads:
  assumes "race_reach env keys s" "store_withdrawn s k"
    and "i < length (r_threads s) \<Longrightarrow> t_phase (r_threads s ! i) = Fetch"
    and "i < length (r_threads (foldl (race_step env keys) s opns))"
    and "req_asset_id (t_req (r_threads (foldl (race_step env keys) s opns) ! i)) = k"
    and "t_phase (r_threads (foldl (race_step env keys) s opns) ! i) = Finished (Inr d)"
  shows "d_state d = BLOCKED"
proof -
  let ?th = "r_threads (foldl (race_step env keys) s opns) ! i"
  have "thread_ok env keys (r_gate (foldl (race_step env keys) s opns)) ?th"
    using race_reach_inv [OF race_run_reach [OF assms(1)]] assms(4) by (simp add: race_inv_def)
  moreover have "reads_withdrawn k ?th"
    by (rule reads_withdrawn_run [OF assms(2) _ assms(4)]) (simp add: reads_withdrawn_def assms(3))
  ultimately show ?thesis using assms(5,6) by (rule reads_withdrawn_blocked)
qed

subsection \<open>What every interleaving keeps\<close>

theorem race_safe:
  assumes "race_reach env keys s"
  shows "(\<forall>th\<in>set (r_threads s). \<forall>d. t_phase th = Finished (Inr d) \<and> d_state d \<noteq> BLOCKED \<longrightarrow>
        grounds env keys th (d_asset_id d) (d_state d))
    \<and> (\<forall>th\<in>set (r_threads s). \<forall>n. t_nonce th = Some n \<longrightarrow> n \<in> used_nonces (tokens (r_gate s)))
    \<and> apart t_nonce (r_threads s) \<and> apart number_of (r_threads s)"
  using race_reach_inv [OF assms] by (auto simp: race_inv_def thread_ok_def)

text \<open>Numbers follow real time: what is decided later has a larger number than what has been returned.\<close>

lemma race_step_counter:
  assumes "race_inv env keys s"
  shows "counter (r_gate s) \<le> counter (r_gate (race_step env keys s opn))"
proof (cases opn)
  case (Run i)
  show ?thesis
  proof (cases "i < length (r_threads s)")
    case True
    obtain th gs where adv: "advance env keys (r_store s) (r_threads s ! i) (r_gate s) = (th, gs)" by force
    have "thread_ok env keys (r_gate s) (r_threads s ! i)" "0 \<le> counter (r_gate s)"
      using assms True by (simp_all add: race_inv_def)
    from advance_ok [OF this adv] True adv Run show ?thesis by (simp add: step_ok_def)
  qed (simp add: Run)
qed (auto split: prod.split)

lemma race_step_number:
  assumes "race_inv env keys s" "j < length (r_threads (race_step env keys s opn))"
    and "number_of (r_threads (race_step env keys s opn) ! j) = Some n"
  shows "j < length (r_threads s) \<and> number_of (r_threads s ! j) = Some n \<or> counter (r_gate s) \<le> n"
proof (cases "j < length (r_threads s)")
  case True
  show ?thesis
  proof (cases "opn = Run j")
    case False
    with race_step_thread(4) [OF True False] assms(3) True show ?thesis by simp
  next
    case run: True
    obtain th gs where adv: "advance env keys (r_store s) (r_threads s ! j) (r_gate s) = (th, gs)" by force
    have "thread_ok env keys (r_gate s) (r_threads s ! j)" "0 \<le> counter (r_gate s)"
      using assms(1) True by (simp_all add: race_inv_def)
    from advance_ok [OF this adv] True adv run assms(3) show ?thesis by (auto simp: step_ok_def)
  qed
next
  case False
  with assms(2) obtain req now rand where "opn = Arrive req now rand" "j = length (r_threads s)"
    by (cases opn) (auto split: prod.splits if_splits)
  with assms(3) show ?thesis by simp
qed

lemma race_numbers_later:
  assumes "race_inv env keys s" "j < length (r_threads (foldl (race_step env keys) s opns))"
    and "number_of (r_threads (foldl (race_step env keys) s opns) ! j) = Some n"
  shows "j < length (r_threads s) \<and> number_of (r_threads s ! j) = Some n \<or> counter (r_gate s) \<le> n"
  using assms
proof (induction opns arbitrary: s)
  case (Cons opn opns)
  from Cons.IH [OF race_step_inv [OF Cons.prems(1)]] Cons.prems(2,3)
  consider "j < length (r_threads (race_step env keys s opn))" "number_of (r_threads (race_step env keys s opn) ! j) = Some n"
    | "counter (r_gate (race_step env keys s opn)) \<le> n" by auto
  then show ?case
  proof cases
    case 1
    then show ?thesis by (rule race_step_number [OF Cons.prems(1)])
  next
    case 2
    then show ?thesis using race_step_counter [OF Cons.prems(1), of opn] by linarith
  qed
qed simp

lemma race_audit_order:
  assumes "race_reach env keys s" "i < length (r_threads s)" "number_of (r_threads s ! i) = Some n"
    and "j < length (r_threads (foldl (race_step env keys) s opns))"
    and "number_of (r_threads (foldl (race_step env keys) s opns) ! j) = Some n'"
    and "j < length (r_threads s) \<Longrightarrow> number_of (r_threads s ! j) = None"
  shows "n < n'"
proof -
  have inv: "race_inv env keys s" by (rule race_reach_inv [OF assms(1)])
  then have "thread_ok env keys (r_gate s) (r_threads s ! i)" using assms(2) by (simp add: race_inv_def)
  from number_below [OF this assms(3)] race_numbers_later [OF inv assms(4,5)] assms(6) show ?thesis by auto
qed

text \<open>
  They do not follow the use of tokens: the number is drawn after the token is spent, under another
  lock. Of two threads with one token the one that comes too late can get the smaller number.
\<close>

lemma deciding_done:
  assumes "t_phase th = Deciding inside k st conds reason ticket"
    and "decision_ok (draft (t_req th) k st conds reason ticket (t_now th) (counter gs))"
  shows "advance env keys store th gs =
    (th\<lparr>t_phase := Finished (Inr (draft (t_req th) k st conds reason ticket (t_now th) (counter gs)))\<rparr>, bump gs)"
proof -
  let ?d = "draft (t_req th) k st conds reason ticket (t_now th) (counter gs)"
  have "new_decision ?d = Inr ?d" using assms(2) by (simp add: new_decision_iff)
  with assms(1) show ?thesis by (simp add: advance_def next_sequence_def bump_def)
qed

theorem replay_numbered_first:
  assumes i: "i < length (r_threads s)" "t_phase (r_threads s ! i) = Consuming a [token]"
    and j: "j < length (r_threads s)" "t_phase (r_threads s ! j) = Consuming a [token]" "i \<noteq> j"
    and now: "t_now (r_threads s ! j) = t_now (r_threads s ! i)"
    and ok: "verify env (tokens (r_gate s)) token (asset_id a) (tenant_id a) (probe_now env (r_threads s ! i)) = Inr (cl, ts)"
    and low: "req_action (t_req (r_threads s ! i)) \<notin> set HIGH_RISK_ACTIONS" "0 \<le> counter (r_gate s)"
    and s': "s' = foldl (race_step env keys) s [Run i, Run j, Run j, Run j, Run i]"
  shows "\<exists>d d'. t_phase (r_threads s' ! j) = Finished (Inr d) \<and> t_phase (r_threads s' ! i) = Finished (Inr d')
    \<and> d_state d = BLOCKED \<and> d_reason d = lit ''consent token replay detected'' \<and> d_state d' = ALLOWED
    \<and> d_sequence d = counter (r_gate s) \<and> d_sequence d' = counter (r_gate s) + 1"
proof -
  let ?thi = "r_threads s ! i" and ?thj = "r_threads s ! j" and ?gs = "(r_gate s)\<lparr>tokens := ts\<rparr>"
  define thi where "thi = ?thi\<lparr>t_phase := concluding env (t_rand ?thi) (t_req ?thi) a, t_nonce := Some (c_nonce cl)\<rparr>"
  define stop where "stop = stopped (t_req ?thj) (Some (asset_id a)) (lit ''consent token replay detected'')"
  have again: "verify env ts token (asset_id a) (tenant_id a) (probe_now env ?thj) = Inl (token_error ''token replay detected'')"
    using verify_again [OF ok] now by (simp add: probe_now_def)
  have "advance env keys (r_store s) ?thi (r_gate s) = (thi, ?gs)"
    using i(2) ok by (simp add: advance_def thi_def)
  moreover have "advance env keys (r_store s) ?thj ?gs = (?thj\<lparr>t_phase := Consuming a []\<rparr>, ?gs)"
    using j(2) again by (simp add: advance_def token_error_def)
  moreover have "advance env keys (r_store s) (?thj\<lparr>t_phase := Consuming a []\<rparr>) ?gs = (?thj\<lparr>t_phase := stop\<rparr>, ?gs)"
    by (simp add: advance_def stop_def)
  moreover define d where "d = draft (t_req ?thj) (if truthy (Some (asset_id a)) then asset_id a else req_asset_id (t_req ?thj))
      BLOCKED [] (lit ''consent token replay detected'') None (t_now ?thj) (counter (r_gate s))"
  then have "advance env keys (r_store s) (?thj\<lparr>t_phase := stop\<rparr>) ?gs = (?thj\<lparr>t_phase := Finished (Inr d)\<rparr>, bump ?gs)"
    using low(2) by (subst deciding_done [where inside = True]) (simp_all add: stop_def stopped_def draft_ok truthy_def)
  moreover define d' where "d' = draft (t_req ?thi) (asset_id a) ALLOWED [] (lit ''within assessed scope'') None (t_now ?thi) (counter (r_gate s) + 1)"
  then have "advance env keys (r_store s) thi (bump ?gs) = (thi\<lparr>t_phase := Finished (Inr d')\<rparr>, bump (bump ?gs))"
    using low by (subst deciding_done [where inside = True]) (simp_all add: thi_def concluding_def draft_ok truthy_def)
  moreover have "d_state d = BLOCKED" "d_reason d = lit ''consent token replay detected''" "d_sequence d = counter (r_gate s)"
    "d_state d' = ALLOWED" "d_sequence d' = counter (r_gate s) + 1"
    by (simp_all add: d_def d'_def)
  ultimately show ?thesis
    using i(1) j(1,3) unfolding s' by (simp add: nth_list_update)
qed

end
