(* ===== verification/EngineThreadsProofs.thy ===== *)
theory EngineThreadsProofs
  imports EngineThreads EngineProofs ThreadsProofs
begin

text \<open>
  What holds of the engine under every interleaving of its callers: the invariant of \<open>EngineProofs\<close>
  and the trace are kept by each step, whoever makes it, and every call ends; a call that
  makes its steps with nothing in between is the operation of \<open>Engine\<close>. The proofs follow the
  rely/guarantee pattern: a step guarantees \<open>guarantee\<close> to the others, under which \<open>worker_ok\<close> is stable.
\<close>

subsection \<open>What a call owns, and what it knows\<close>

text \<open>The run that a call has made and not filed yet.\<close>

definition unfiled :: "worker \<Rightarrow> ref option" where
  "unfiled k =
     (case k_place k of
        Receiving req r d \<Rightarrow> Some r
      | Noting req r d \<Rightarrow> Some r
      | Filing req r d \<Rightarrow> Some r
      | _ \<Rightarrow> None)"

definition fresh_run :: "engine \<Rightarrow> worker \<Rightarrow> policy_request \<Rightarrow> ref \<Rightarrow> policy_decision \<Rightarrow> bool" where
  "fresh_run e k req r d \<longleftrightarrow>
     r < length (objects e)
     \<and> objects e ! r = \<lparr>run_id = k_run_id k, w_request_id = req_id req, w_state = PENDING,
         decision = Some d, tool_calls = [], outputs = []\<rparr>"

definition filed_at :: "engine \<Rightarrow> ref \<Rightarrow> bool" where
  "filed_at e r \<longleftrightarrow> r < length (objects e) \<and> w_state (objects e ! r) \<noteq> PENDING"

fun place_ok :: "pyenv \<Rightarrow> keyring \<Rightarrow> engine \<Rightarrow> worker \<Rightarrow> place \<Rightarrow> bool" where
  "place_ok env keys e k (Evaluating th) \<longleftrightarrow>
     thread_ok env keys (gateway e) th \<and> (\<forall>r. t_phase th \<noteq> Finished r)"
| "place_ok env keys e k (Receiving req r d) \<longleftrightarrow> fresh_run e k req r d"
| "place_ok env keys e k (Noting req r d) \<longleftrightarrow> fresh_run e k req r d"
| "place_ok env keys e k (Filing req r d) \<longleftrightarrow> fresh_run e k req r d"
| "place_ok env keys e k (Settling req r d) \<longleftrightarrow> filed_at e r"
| "place_ok env keys e k (Announcing req r) \<longleftrightarrow> filed_at e r"
| "place_ok env keys e k (Returned (Inr (Ran r))) \<longleftrightarrow> filed_at e r"
| "place_ok env keys e k (Logging rid ev act det (Ran r)) \<longleftrightarrow> False"
| "place_ok env keys e k _ \<longleftrightarrow> True"

definition worker_ok :: "pyenv \<Rightarrow> keyring \<Rightarrow> engine \<Rightarrow> worker \<Rightarrow> bool" where
  "worker_ok env keys e k \<longleftrightarrow> place_ok env keys e k (k_place k)"

text \<open>What a step leaves to the others; \<open>own\<close> is the run that only its caller knows.\<close>

definition guarantee :: "ref option \<Rightarrow> engine \<Rightarrow> engine \<Rightarrow> bool" where
  "guarantee own e e' \<longleftrightarrow>
     counter (gateway e) \<le> counter (gateway e')
     \<and> used_nonces (tokens (gateway e)) \<subseteq> used_nonces (tokens (gateway e'))
     \<and> length (objects e) \<le> length (objects e')
     \<and> (\<forall>r<length (objects e). own \<noteq> Some r \<longrightarrow> run_evolves (objects e ! r) (objects e' ! r))"

lemma guarantee_same [simp]: "guarantee own e e"
  by (simp add: guarantee_def run_evolves.same)

lemma evolves_pending: "run_evolves w v \<Longrightarrow> w_state w = PENDING \<Longrightarrow> v = w"
  by (erule run_evolvesE) simp_all

lemma evolves_filed: "run_evolves w v \<Longrightarrow> w_state w \<noteq> PENDING \<Longrightarrow> w_state v \<noteq> PENDING"
  by (erule run_evolvesE) simp_all

lemma filed_at_stable:
  "filed_at e r \<Longrightarrow> guarantee own e e' \<Longrightarrow> own \<noteq> Some r \<Longrightarrow> filed_at e' r"
  unfolding filed_at_def guarantee_def using evolves_filed by (meson less_le_trans)

lemma fresh_run_stable:
  "fresh_run e k req r d \<Longrightarrow> guarantee own e e' \<Longrightarrow> own \<noteq> Some r \<Longrightarrow> fresh_run e' k req r d"
  unfolding fresh_run_def guarantee_def using evolves_pending by force

text \<open>A run that is filed is not owned: the references of \<open>unfiled\<close> are pending.\<close>

definition owns :: "engine \<Rightarrow> ref option \<Rightarrow> bool" where
  "owns e own \<longleftrightarrow> (\<forall>r. own = Some r \<longrightarrow> r < length (objects e) \<and> w_state (objects e ! r) = PENDING)"

lemma worker_owns: "worker_ok env keys e k \<Longrightarrow> owns e (unfiled k)"
  by (auto simp: worker_ok_def owns_def unfiled_def fresh_run_def split: place.splits)

lemma worker_ok_stable:
  assumes "worker_ok env keys e k" "guarantee own e e'" "owns e own" "own = None \<or> own \<noteq> unfiled k"
  shows "worker_ok env keys e' k"
proof -
  have filed: "filed_at e' r" if "filed_at e r" for r
  proof (rule filed_at_stable [OF that assms(2)])
    show "own \<noteq> Some r" using that assms(3) by (auto simp: filed_at_def owns_def)
  qed
  have fresh: "fresh_run e' k req r d" if "fresh_run e k req r d" "unfiled k = Some r" for req r d
    using fresh_run_stable [OF that(1) assms(2)] that(2) assms(4) by auto
  have thread: "thread_ok env keys (gateway e') th" if "thread_ok env keys (gateway e) th" for th
    using thread_ok_mono [OF that] assms(2) by (simp add: guarantee_def)
  show ?thesis
  proof (cases "k_place k")
    case (Returned x)
    show ?thesis
    proof (cases x)
      case (Inr ans)
      with Returned assms(1) filed show ?thesis by (cases ans) (simp_all add: worker_ok_def)
    qed (simp add: worker_ok_def Returned)
  next
    case (Logging rid ev act det ans)
    with assms(1) show ?thesis by (cases ans) (simp_all add: worker_ok_def)
  qed (use assms(1) filed fresh thread in \<open>simp_all add: worker_ok_def unfiled_def\<close>)
qed

subsection \<open>Each step keeps the invariant\<close>

definition work_ok :: "pyenv \<Rightarrow> keyring \<Rightarrow> worker \<Rightarrow> engine \<Rightarrow> worker \<times> engine \<Rightarrow> bool" where
  "work_ok env keys k e out \<longleftrightarrow>
     engine_inv (snd out) \<and> worker_ok env keys (snd out) (fst out)
     \<and> guarantee (unfiled k) e (snd out)
     \<and> unfiled (fst out) \<in> {unfiled k, None, Some (length (objects e))}
     \<and> k_job (fst out) = k_job k"

lemma work_ok_place:
  "engine_inv e' \<Longrightarrow> place_ok env keys e' (k\<lparr>k_place := p\<rparr>) p \<Longrightarrow> guarantee (unfiled k) e e' \<Longrightarrow>
     unfiled (k\<lparr>k_place := p\<rparr>) \<in> {unfiled k, None, Some (length (objects e))} \<Longrightarrow>
     work_ok env keys k e (k\<lparr>k_place := p\<rparr>, e')"
  by (simp add: work_ok_def worker_ok_def)

lemma place_ok_worker [simp]: "place_ok env keys e (k\<lparr>k_place := p\<rparr>) q = place_ok env keys e k q"
proof (cases q)
  case (Returned x)
  show ?thesis
  proof (cases x)
    case (Inr ans)
    with Returned show ?thesis by (cases ans) simp_all
  qed (simp add: Returned)
next
  case (Logging rid ev act det ans)
  then show ?thesis by (cases ans) simp_all
qed (simp_all add: fresh_run_def)

lemma unfiled_place [simp]:
  "unfiled (k\<lparr>k_place := Begin\<rparr>) = None" "unfiled (k\<lparr>k_place := Evaluating th\<rparr>) = None"
  "unfiled (k\<lparr>k_place := Receiving req r d\<rparr>) = Some r" "unfiled (k\<lparr>k_place := Noting req r d\<rparr>) = Some r"
  "unfiled (k\<lparr>k_place := Filing req r d\<rparr>) = Some r" "unfiled (k\<lparr>k_place := Settling req r d\<rparr>) = None"
  "unfiled (k\<lparr>k_place := Announcing req r\<rparr>) = None" "unfiled (k\<lparr>k_place := Logging rid ev act det ans\<rparr>) = None"
  "unfiled (k\<lparr>k_place := Returned x\<rparr>) = None"
  by (simp_all add: unfiled_def)

lemma raise_ok: "engine_inv e' \<Longrightarrow> guarantee (unfiled k) e e' \<Longrightarrow> work_ok env keys k e (raise_in k x e')"
  by (simp add: raise_in_def go_to_def work_ok_place)

lemma guarantee_trace: "guarantee own e (e\<lparr>trace := rc\<rparr>)"
  by (simp add: guarantee_def run_evolves.same)

lemma append_then_ok:
  assumes "engine_inv e" "\<And>rc. place_ok env keys (e\<lparr>trace := rc\<rparr>) k next"
    and "unfiled (k\<lparr>k_place := next\<rparr>) \<in> {unfiled k, None, Some (length (objects e))}"
  shows "work_ok env keys k e (append_then k next (emit e t rid ev act det))"
proof -
  obtain rc where rc: "snd (emit e t rid ev act det) = e\<lparr>trace := rc\<rparr>" by (rule emit_cases)
  then obtain x where out: "emit e t rid ev act det = (x, e\<lparr>trace := rc\<rparr>)" by (metis prod.collapse)
  have inv: "engine_inv (e\<lparr>trace := rc\<rparr>)" using assms(1) by simp
  show ?thesis
  proof (cases x)
    case (Inl y)
    then show ?thesis using raise_ok [OF inv guarantee_trace] by (simp add: append_then_def out)
  next
    case (Inr u)
    then show ?thesis
      using work_ok_place [OF inv _ guarantee_trace assms(3)] assms(2) by (simp add: append_then_def out go_to_def)
  qed
qed

lemma guarantee_set_run:
  "run_evolves (objects e ! r) (f (objects e ! r)) \<Longrightarrow> guarantee own e (set_run e r f)"
  using objects_evolve_set [of "set_run e r f" e r f] by (simp add: guarantee_def objects_evolve_def)

lemma enter_ok: "engine_inv e \<Longrightarrow> work_ok env keys k e (enter_gateway k req e)"
  by (simp add: enter_gateway_def go_to_def work_ok_place thread_ok_new)

lemma begin_ok:
  assumes "engine_inv e" shows "work_ok env keys k e (begin_work env k job e)"
proof (cases job)
  case (Submit req)
  with enter_ok [OF assms] show ?thesis by simp
next
  case (Release req)
  with enter_ok [OF assms] raise_ok [OF assms] show ?thesis by simp
next
  case (Tool_call rid tool args)
  show ?thesis
  proof (cases "dget (runs e) rid")
    case (Some r)
    with executing_inv(1) [OF assms Some] raise_ok [OF assms] show ?thesis
      by (simp add: Tool_call Let_def go_to_def work_ok_place guarantee_set_run run_evolves.call)
  qed (simp add: Tool_call raise_ok assms)
next
  case (Put_output rid out)
  show ?thesis
  proof (cases "dget (runs e) rid")
    case (Some r)
    with executing_inv(2) [OF assms Some] raise_ok [OF assms] show ?thesis
      by (simp add: Put_output Let_def go_to_def work_ok_place guarantee_set_run run_evolves.finish)
  qed (simp add: Put_output raise_ok assms)
qed

lemma engine_inv_gateway: "engine_inv e \<Longrightarrow> 0 \<le> counter gs \<Longrightarrow> engine_inv (e\<lparr>gateway := gs\<rparr>)"
  by (simp add: engine_inv_def refs_ok_def)

lemma in_gateway_ok:
  assumes inv: "engine_inv e" and th: "thread_ok env keys (gateway e) th"
  shows "work_ok env keys k e (in_gateway env keys store k th e)"
proof -
  obtain th' gs where adv: "advance env keys store th (gateway e) = (th', gs)" by force
  have c: "0 \<le> counter (gateway e)" using inv by (simp add: engine_inv_def)
  note ok = advance_ok [OF th c adv]
  have inv': "engine_inv (e\<lparr>gateway := gs\<rparr>)"
    using ok c by (intro engine_inv_gateway inv) (simp add: step_ok_def)
  have g: "guarantee own e (e\<lparr>gateway := gs\<rparr>)" for own
    using ok by (simp add: step_ok_def guarantee_def run_evolves.same)
  show ?thesis
  proof (cases "t_phase th'")
    case (Finished x)
    show ?thesis
    proof (cases x)
      case (Inl y)
      with raise_ok [OF inv' g] Finished show ?thesis by (simp add: in_gateway_def adv)
    next
      case (Inr d)
      let ?w = "\<lparr>run_id = k_run_id k, w_request_id = req_id (t_req th'), w_state = PENDING,
        decision = Some d, tool_calls = [], outputs = []\<rparr>"
      let ?e = "e\<lparr>gateway := gs, objects := objects e @ [?w]\<rparr>"
      have "decision_ok d" "d_request_id d = req_id (t_req th')" "0 \<le> counter gs"
        using ok Finished Inr c by (auto simp: step_ok_def thread_ok_def)
      then have "engine_inv ?e"
        by (intro engine_inv_alloc inv) (simp_all add: run_ok_def state_fits_def idle_def)
      moreover have "guarantee own e ?e" for own
        using ok by (simp add: step_ok_def guarantee_def nth_append run_evolves.same)
      ultimately show ?thesis
        using Finished Inr by (simp add: in_gateway_def adv make_run_def go_to_def work_ok_place fresh_run_def)
    qed
  qed (use ok in \<open>simp_all add: in_gateway_def adv go_to_def work_ok_place inv' g step_ok_def\<close>)
qed

text \<open>Filing changes one object, the one it files.\<close>

lemma file_run_out:
  obtains st where "objects (snd (file_run e r rid req d)) = (objects e)[r := (objects e ! r)\<lparr>w_state := st\<rparr>]"
    and "st \<noteq> PENDING" and "gateway (snd (file_run e r rid req d)) = gateway e"
  by (cases "d_state d"; cases "ticket_id d") (simp_all add: file_run_def Let_def set_state_def set_run_def)

lemma filing_ok:
  assumes inv: "engine_inv e" and fresh: "fresh_run e k req r d" and own: "unfiled k = Some r"
  shows "work_ok env keys k e (filing k req r d e)"
proof -
  obtain x e1 where f: "file_run e r (k_run_id k) req d = (x, e1)" by force
  obtain st where e1: "objects e1 = (objects e)[r := (objects e ! r)\<lparr>w_state := st\<rparr>]" "st \<noteq> PENDING"
    "gateway e1 = gateway e"
    using file_run_out [of e r "k_run_id k" req d] f by auto
  have r: "r < length (objects e)" using fresh by (simp add: fresh_run_def)
  have "engine_inv (snd (file_run e r (k_run_id k) req d))"
    by (rule file_run_inv [OF inv r]) (use fresh in \<open>simp_all add: fresh_run_def\<close>)
  then have inv': "engine_inv e1" by (simp add: f)
  have g: "guarantee (unfiled k) e e1"
    using own by (simp add: guarantee_def e1 run_evolves.same)
  have filed: "filed_at e1 r" using r e1 by (simp add: filed_at_def)
  show ?thesis
  proof (cases x)
    case (Inl y)
    with raise_ok [OF inv' g] show ?thesis by (simp add: filing_def f)
  next
    case (Inr q)
    then have "q = r" using file_run_fst [of e r "k_run_id k" req d q] f by simp
    with inv' g filed Inr show ?thesis by (simp add: filing_def f go_to_def work_ok_place split: job.split)
  qed
qed

lemma settling_ok:
  assumes inv: "engine_inv e" and filed: "filed_at e r" and own: "unfiled k = None"
  shows "work_ok env keys k e (settling k req r d e)"
proof -
  let ?e = "e\<lparr>conditional_queue := ddel (conditional_queue e) (req_id req)\<rparr>"
  have "engine_inv ?e"
    using inv refs_ok_del [of e] by (auto simp: engine_inv_def refs_ok_objects [of ?e e])
  moreover have "guarantee own e ?e" for own by (simp add: guarantee_def run_evolves.same)
  moreover have "filed_at ?e r" using filed by (simp add: filed_at_def)
  ultimately show ?thesis
    using inv filed raise_ok [OF inv] by (simp add: settling_def go_to_def work_ok_place)
qed

lemma fresh_run_trace [simp]: "fresh_run (e\<lparr>trace := rc\<rparr>) k req r d = fresh_run e k req r d"
  by (simp add: fresh_run_def)

lemma filed_at_trace [simp]: "filed_at (e\<lparr>trace := rc\<rparr>) r = filed_at e r"
  by (simp add: filed_at_def)

lemma work_keeps:
  assumes inv: "engine_inv e" and ok: "worker_ok env keys e k"
  shows "work_ok env keys k e (work env keys store t k e)"
proof (cases "k_place k")
  case Begin
  with begin_ok [OF inv] show ?thesis by (simp add: work_def)
next
  case (Evaluating th)
  with ok have "thread_ok env keys (gateway e) th" by (simp add: worker_ok_def)
  from in_gateway_ok [OF inv this] Evaluating show ?thesis by (simp add: work_def)
next
  case (Receiving req r d)
  with ok show ?thesis by (simp add: work_def append_then_ok [OF inv] worker_ok_def unfiled_def)
next
  case (Noting req r d)
  with ok show ?thesis by (simp add: work_def append_then_ok [OF inv] worker_ok_def unfiled_def)
next
  case (Filing req r d)
  with ok show ?thesis by (simp add: work_def filing_ok [OF inv] worker_ok_def unfiled_def)
next
  case (Settling req r d)
  with ok show ?thesis by (simp add: work_def settling_ok [OF inv] worker_ok_def unfiled_def)
next
  case (Announcing req r)
  with ok show ?thesis by (simp add: work_def append_then_ok [OF inv] worker_ok_def)
next
  case (Logging rid ev act det ans)
  with ok show ?thesis by (cases ans) (simp_all add: work_def append_then_ok [OF inv] worker_ok_def)
next
  case (Returned x)
  with ok inv show ?thesis by (simp add: work_def work_ok_def)
qed

subsection \<open>Every interleaving\<close>

text \<open>The reachable states, with the last reading of the monotonic clock: it does not run backwards.\<close>

fun next_clock :: "int \<Rightarrow> 's office_op \<Rightarrow> int" where
  "next_clock c (Step i t) = snd t"
| "next_clock c _ = c"

inductive office_reach :: "pyenv \<Rightarrow> keyring \<Rightarrow> 's office \<Rightarrow> int \<Rightarrow> bool" for env keys where
  start: "0 \<le> counter gs \<Longrightarrow> office_reach env keys (office_start store x (new_engine gs tid)) (-1)"
| step: "office_reach env keys s c \<Longrightarrow> c \<le> next_clock c opn \<Longrightarrow>
     office_reach env keys (office_step env keys s opn) (next_clock c opn)"

definition office_inv :: "pyenv \<Rightarrow> keyring \<Rightarrow> 's office \<Rightarrow> bool" where
  "office_inv env keys s \<longleftrightarrow>
     engine_inv (o_engine s) \<and> (\<forall>k\<in>set (o_workers s). worker_ok env keys (o_engine s) k)
     \<and> apart unfiled (o_workers s)"

lemma apart_clear:
  assumes "apart f xs" "f x = None" shows "apart f (xs[i := x])"
  unfolding apart_def
proof (intro allI impI)
  fix j k assume *: "j < length (xs[i := x])" "k < length (xs[i := x])" "j \<noteq> k" "f (xs[i := x] ! j) \<noteq> None"
  with assms(2) have "j \<noteq> i" by auto
  with * assms show "f (xs[i := x] ! j) \<noteq> f (xs[i := x] ! k)"
    by (cases "k = i") (simp_all add: apart_def)
qed

lemma office_step_inv:
  assumes "office_inv env keys s" shows "office_inv env keys (office_step env keys s opn)"
proof (cases opn)
  case (Call job ticket rid now)
  have "worker_ok env keys e (new_worker job ticket rid now)" "unfiled (new_worker job ticket rid now) = None" for e
    by (simp_all add: worker_ok_def new_worker_def unfiled_def)
  with assms Call show ?thesis by (simp add: office_inv_def apart_snoc)
next
  case (Store so)
  with assms show ?thesis by (simp add: office_inv_def split: prod.split)
next
  case (Step i t)
  show ?thesis
  proof (cases "i < length (o_workers s)")
    case True
    let ?k = "o_workers s ! i" and ?e = "o_engine s"
    obtain k e where w: "work env keys (o_store s) t ?k ?e = (k, e)" by force
    have inv: "engine_inv ?e" and all: "\<forall>k\<in>set (o_workers s). worker_ok env keys ?e k"
      and ap: "apart unfiled (o_workers s)"
      using assms by (simp_all add: office_inv_def)
    have okk: "worker_ok env keys ?e ?k" using all True by simp
    from work_keeps [OF inv okk, of "o_store s" t] w
    have ok: "engine_inv e" "worker_ok env keys e k" "guarantee (unfiled ?k) ?e e"
      "unfiled k \<in> {unfiled ?k, None, Some (length (objects ?e))}"
      by (simp_all add: work_ok_def)
    have "worker_ok env keys e (o_workers s ! j)" if "j < length (o_workers s)" "j \<noteq> i" for j
    proof (rule worker_ok_stable [OF _ ok(3) worker_owns [OF okk]])
      show "worker_ok env keys ?e (o_workers s ! j)" using all that by simp
      show "unfiled ?k = None \<or> unfiled ?k \<noteq> unfiled (o_workers s ! j)"
        using ap True that unfolding apart_def by metis
    qed
    then have "\<forall>u\<in>set ((o_workers s)[i := k]). worker_ok env keys e u"
      using ok(2) True unfolding set_conv_nth by (auto simp: nth_list_update)
    moreover have "Some (length (objects ?e)) \<notin> unfiled ` set (o_workers s)"
    proof
      assume "Some (length (objects ?e)) \<in> unfiled ` set (o_workers s)"
      then obtain u where "u \<in> set (o_workers s)" "unfiled u = Some (length (objects ?e))" by (metis imageE)
      with all worker_owns [of env keys ?e u] show False by (auto simp: owns_def)
    qed
    then have "apart unfiled ((o_workers s)[i := k])"
      using ok(4) apart_clear [OF ap, of k i] apart_update [OF ap True, of k] by auto
    ultimately show ?thesis using ok(1) True w by (simp add: Step office_inv_def)
  qed (simp add: Step assms)
qed

lemma office_reach_inv: "office_reach env keys s c \<Longrightarrow> office_inv env keys s"
  by (induction rule: office_reach.induct)
     (simp_all add: office_step_inv, simp add: office_start_def office_inv_def apart_def engine_inv_new)

subsection \<open>The trace\<close>

lemma append_then_upto:
  assumes "trace_upto e c" "c \<le> snd t"
  shows "trace_upto (snd (append_then k next (emit e t rid ev act det))) (snd t)"
proof -
  obtain x e1 where out: "emit e t rid ev act det = (x, e1)" by force
  with emit_upto [OF assms, of rid ev act det] have "trace_upto e1 (snd t)" by simp
  then show ?thesis by (cases x) (simp_all add: append_then_def out raise_in_def go_to_def)
qed

lemma begin_trace [simp]: "trace (snd (begin_work env k job e)) = trace e"
  by (cases job) (auto simp: enter_gateway_def go_to_def raise_in_def Let_def split: option.split)

lemma in_gateway_trace [simp]: "trace (snd (in_gateway env keys store k th e)) = trace e"
  by (simp add: in_gateway_def go_to_def raise_in_def make_run_def split: prod.split phase.split sum.split)

lemma filing_trace [simp]: "trace (snd (filing k req r d e)) = trace e"
proof -
  obtain x e1 where f: "file_run e r (k_run_id k) req d = (x, e1)" by force
  then have "trace e1 = trace e" using file_run_trace [of e r "k_run_id k" req d] by simp
  then show ?thesis by (cases x) (simp_all add: filing_def f go_to_def raise_in_def split: job.split)
qed

lemma settling_trace [simp]: "trace (snd (settling k req r d e)) = trace e"
  by (simp add: settling_def go_to_def raise_in_def)

lemma work_upto:
  assumes "trace_upto e c" "c \<le> snd t" shows "trace_upto (snd (work env keys store t k e)) (snd t)"
proof -
  have "trace_upto e' (snd t)" if "trace e' = trace e" for e'
    using trace_upto_mono [OF assms] trace_upto_cong [OF that] by simp
  then show ?thesis
    by (cases "k_place k") (simp_all add: work_def append_then_upto [OF assms])
qed

lemma office_reach_upto: "office_reach env keys s c \<Longrightarrow> trace_upto (o_engine s) c"
proof (induction rule: office_reach.induct)
  case (start gs store x tid)
  then show ?case by (simp add: office_start_def trace_upto_def new_engine_def new_recorder_def verify_chain_def clock_from_def)
next
  case (step s c opn)
  show ?case
  proof (cases opn)
    case (Step i t)
    with step have c: "c \<le> snd t" by simp
    show ?thesis
    proof (cases "i < length (o_workers s)")
      case True
      from work_upto [OF step.IH c, of env keys "o_store s" "o_workers s ! i"] True Step show ?thesis
        by (simp add: case_prod_beta)
    next
      case False
      with Step trace_upto_mono [OF step.IH c] show ?thesis by simp
    qed
  qed (use step in \<open>simp_all split: prod.split\<close>)
qed

subsection \<open>Every call ends\<close>

fun job_left :: "job \<Rightarrow> nat" where
  "job_left (Submit req) = 2 * length (consent_tokens req) + 12"
| "job_left (Release req) = 2 * length (consent_tokens req) + 12"
| "job_left _ = 2"

definition work_left :: "worker \<Rightarrow> nat" where
  "work_left k =
     (case k_place k of
        Begin \<Rightarrow> job_left (k_job k)
      | Evaluating th \<Rightarrow> left th + 6
      | Receiving req r d \<Rightarrow> 5
      | Noting req r d \<Rightarrow> 4
      | Filing req r d \<Rightarrow> 3
      | Settling req r d \<Rightarrow> 2
      | Announcing req r \<Rightarrow> 1
      | Logging rid ev act det ans \<Rightarrow> 1
      | Returned x \<Rightarrow> 0)"

lemma work_left_0: "work_left k = 0 \<longleftrightarrow> (\<exists>x. k_place k = Returned x)"
  by (cases "k_place k"; cases "k_job k") (simp_all add: work_left_def)

lemma work_left_place [simp]:
  "work_left (k\<lparr>k_place := Evaluating th\<rparr>) = left th + 6"
  "work_left (k\<lparr>k_place := Receiving req r d\<rparr>) = 5" "work_left (k\<lparr>k_place := Noting req r d\<rparr>) = 4"
  "work_left (k\<lparr>k_place := Filing req r d\<rparr>) = 3" "work_left (k\<lparr>k_place := Settling req r d\<rparr>) = 2"
  "work_left (k\<lparr>k_place := Announcing req r\<rparr>) = 1" "work_left (k\<lparr>k_place := Logging rid ev act det ans\<rparr>) = 1"
  "work_left (k\<lparr>k_place := Returned x\<rparr>) = 0"
  by (simp_all add: work_left_def)

lemma append_then_left: "work_left (fst (append_then k next out)) \<le> work_left (k\<lparr>k_place := next\<rparr>)"
  by (cases out; cases "fst out") (auto simp: append_then_def raise_in_def go_to_def)

lemma begin_left: "work_left (fst (begin_work env k job e)) \<le> job_left job - 1"
  by (cases job)
     (auto simp: enter_gateway_def raise_in_def go_to_def new_thread_left Let_def split: option.split)

lemma in_gateway_left: "work_left (fst (in_gateway env keys store k th e)) \<le> left th + 5"
proof -
  obtain th' gs where adv: "advance env keys store th (gateway e) = (th', gs)" by force
  have "left th' + 6 \<le> left th + 5" if "\<forall>r. t_phase th' \<noteq> Finished r"
  proof -
    have "left th' \<noteq> 0" using that left_0 by blast
    then show ?thesis using advance_left [OF adv] by linarith
  qed
  then show ?thesis
    by (auto simp: in_gateway_def adv raise_in_def go_to_def make_run_def split: phase.split sum.split)
qed

lemma filing_left: "work_left (fst (filing k req r d e)) \<le> 2"
  by (auto simp: filing_def raise_in_def go_to_def split: prod.split sum.split job.split)

lemma settling_left: "work_left (fst (settling k req r d e)) \<le> 1"
  by (simp add: settling_def raise_in_def go_to_def)

lemma append_less:
  "work_left (k\<lparr>k_place := next\<rparr>) \<le> work_left k - 1 \<Longrightarrow>
     work_left (fst (append_then k next out)) \<le> work_left k - 1"
  using append_then_left by (rule order_trans)

lemma work_less: "work_left (fst (work env keys store t k e)) \<le> work_left k - 1"
proof (cases "k_place k")
  case Begin
  then have "work_left k = job_left (k_job k)" by (simp add: work_left_def)
  with Begin begin_left [of env k "k_job k" e] show ?thesis by (simp add: work_def)
next
  case (Evaluating th)
  then have "work_left k = left th + 6" by (simp add: work_left_def)
  with Evaluating in_gateway_left [of env keys store k th e] show ?thesis by (simp add: work_def)
next
  case (Filing req r d)
  then have "work_left k = 3" by (simp add: work_left_def)
  with Filing filing_left [of k req r d e] show ?thesis by (simp add: work_def)
next
  case (Settling req r d)
  then have "work_left k = 2" by (simp add: work_left_def)
  with Settling settling_left [of k req r d e] show ?thesis by (simp add: work_def)
next
  case (Receiving req r d)
  then have "work_left k = 5" by (simp add: work_left_def)
  with Receiving append_less [where k = k] show ?thesis by (simp add: work_def)
next
  case (Noting req r d)
  then have "work_left k = 4" by (simp add: work_left_def)
  with Noting append_less [where k = k] show ?thesis by (simp add: work_def)
next
  case (Announcing req r)
  then have "work_left k = 1" by (simp add: work_left_def)
  with Announcing append_less [where k = k] show ?thesis by (simp add: work_def)
next
  case (Logging rid ev act det ans)
  then have "work_left k = 1" by (simp add: work_left_def)
  with Logging append_less [where k = k] show ?thesis by (simp add: work_def)
qed (simp add: work_def work_left_def)

fun step_of :: "nat \<Rightarrow> 's office_op \<Rightarrow> bool" where
  "step_of i (Step j t) \<longleftrightarrow> j = i"
| "step_of i _ \<longleftrightarrow> False"

lemma office_step_worker:
  assumes "i < length (o_workers s)"
  shows "i < length (o_workers (office_step env keys s opn))"
    and "\<not> step_of i opn \<Longrightarrow> o_workers (office_step env keys s opn) ! i = o_workers s ! i"
    and "step_of i opn \<Longrightarrow>
      work_left (o_workers (office_step env keys s opn) ! i) \<le> work_left (o_workers s ! i) - 1"
proof -
  show "i < length (o_workers (office_step env keys s opn))"
    using assms by (cases opn) (auto split: prod.split)
  show "\<not> step_of i opn \<Longrightarrow> o_workers (office_step env keys s opn) ! i = o_workers s ! i"
    using assms by (cases opn) (auto simp: nth_append split: prod.split)
  show "step_of i opn \<Longrightarrow>
      work_left (o_workers (office_step env keys s opn) ! i) \<le> work_left (o_workers s ! i) - 1"
    using assms work_less [of env keys "o_store s" _ "o_workers s ! i" "o_engine s"]
    by (cases opn) (auto simp: case_prod_beta)
qed

interpretation offices: scheduled "office_step env keys" "\<lambda>s. length (o_workers s)"
  "\<lambda>s i. work_left (o_workers s ! i)" step_of
proof (unfold_locales, goal_cases)
  case (1 i s opn)
  then show ?case by (rule office_step_worker(1))
next
  case (2 i s opn)
  then show ?case by (rule office_step_worker(3))
next
  case (3 i s opn)
  then show ?case using office_step_worker(2) by metis
qed

theorem office_call_ends:
  assumes "i < length (o_workers s)" "work_left (o_workers s ! i) \<le> length (filter (step_of i) opns)"
  shows "\<exists>x. k_place (o_workers (foldl (office_step env keys) s opns) ! i) = Returned x"
  using offices.ends [OF assms, of env keys] work_left_0 by simp

subsection \<open>A call alone is the operation of the engine\<close>

fun solo :: "pyenv \<Rightarrow> keyring \<Rightarrow> 's asset_store \<Rightarrow> clock list \<Rightarrow> worker \<times> engine \<Rightarrow> worker \<times> engine" where
  "solo env keys store [] p = p"
| "solo env keys store (t # ts) p = solo env keys store ts (work env keys store t (fst p) (snd p))"

lemma solo_append: "solo env keys store (ts @ us) p = solo env keys store us (solo env keys store ts p)"
  by (induction ts arbitrary: p) simp_all

lemma solo_returned [simp]: "k_place k = Returned x \<Longrightarrow> solo env keys store ts (k, e) = (k, e)"
  by (induction ts) (simp_all add: work_def)

definition answered :: "worker \<Rightarrow> policy_request \<Rightarrow> engine \<Rightarrow> (exn + policy_decision) \<times> gateway_state \<Rightarrow> worker \<times> engine" where
  "answered k req e out =
     (case out of
        (Inl x, gs) \<Rightarrow> raise_in k x (e\<lparr>gateway := gs\<rparr>)
      | (Inr d, gs) \<Rightarrow> make_run k req d (e\<lparr>gateway := gs\<rparr>))"

lemma solo_gateway:
  assumes "\<forall>r. t_phase th \<noteq> Finished r"
  shows "\<exists>n\<le>left th. solo env keys store (replicate n t) (k\<lparr>k_place := Evaluating th\<rparr>, e) =
    answered k (t_req th) e (meaning env keys store th (gateway e))"
  using assms
proof (induction "left th" arbitrary: th e rule: less_induct)
  case less
  obtain th' gs where adv: "advance env keys store th (gateway e) = (th', gs)" by force
  note m = advance_meaning [OF adv]
  have step: "solo env keys store (t # ts) (k\<lparr>k_place := Evaluating th\<rparr>, e) =
      solo env keys store ts (in_gateway env keys store (k\<lparr>k_place := Evaluating th\<rparr>) th e)" for ts
    by (simp add: work_def)
  have left: "left th' < left th"
    using advance_left [OF adv] less.prems left_0 [of th] by fastforce
  show ?case
  proof (cases "\<exists>x. t_phase th' = Finished x")
    case True
    then obtain x where x: "t_phase th' = Finished x" ..
    with m have "meaning env keys store th (gateway e) = (x, gs)" by (simp add: meaning_def)
    then have "solo env keys store (replicate 1 t) (k\<lparr>k_place := Evaluating th\<rparr>, e) =
        answered k (t_req th) e (meaning env keys store th (gateway e))"
      using x step [of "[]"] advance_thread [OF adv]
      by (simp add: in_gateway_def adv answered_def raise_in_def go_to_def make_run_def split: sum.split)
    with left show ?thesis by (intro exI [of _ 1]) simp
  next
    case False
    from less.hyps [OF left, of "e\<lparr>gateway := gs\<rparr>"] False obtain n where n: "n \<le> left th'"
      "solo env keys store (replicate n t) (k\<lparr>k_place := Evaluating th'\<rparr>, e\<lparr>gateway := gs\<rparr>) =
        answered k (t_req th') (e\<lparr>gateway := gs\<rparr>) (meaning env keys store th' gs)" by auto
    have "in_gateway env keys store (k\<lparr>k_place := Evaluating th\<rparr>) th e = (k\<lparr>k_place := Evaluating th'\<rparr>, e\<lparr>gateway := gs\<rparr>)"
      using False by (simp add: in_gateway_def adv go_to_def split: phase.split)
    moreover have "answered k (t_req th') (e\<lparr>gateway := gs\<rparr>) out = answered k (t_req th) e out" for out
      using advance_thread [OF adv] by (cases out; cases "fst out") (auto simp: answered_def)
    ultimately have "solo env keys store (replicate (Suc n) t) (k\<lparr>k_place := Evaluating th\<rparr>, e) =
        answered k (t_req th) e (meaning env keys store th (gateway e))"
      using n(2) m by (simp only: replicate_Suc step)
    with n(1) left show ?thesis by (intro exI [of _ "Suc n"]) simp
  qed
qed

text \<open>From the answer of the gateway on: two appends, the lock, and what \<open>release_conditional\<close> adds.\<close>

fun waits :: "job \<Rightarrow> bool" where
  "waits (Release req) \<longleftrightarrow> True"
| "waits _ \<longleftrightarrow> False"

lemma waits_cases:
  "(case job of Release req \<Rightarrow> x | _ \<Rightarrow> y) = (if waits job then x else y)"
  by (cases job) simp_all

text \<open>Where a submission leaves the thread that made it.\<close>

definition submitted :: "worker \<Rightarrow> policy_request \<Rightarrow> (exn + ref) \<times> engine \<Rightarrow> worker \<times> engine" where
  "submitted k req out =
     (case out of
        (Inl x, e) \<Rightarrow> raise_in k x e
      | (Inr r, e) \<Rightarrow>
          (if waits (k_job k) then go_to k (Settling req r (the (decision (objects e ! r)))) e
           else go_to k (Returned (Inr (Ran r))) e))"

lemma submit_tail:
  assumes "dr_run_id dr = k_run_id k"
  shows "solo env keys store [dr_clock1 dr, dr_clock2 dr, t]
      (answered k req e (evaluate env keys store (dr_ticket dr) req (dr_now dr) (gateway e))) =
    submitted k req (submit env keys store dr req e)"
proof (cases "evaluate env keys store (dr_ticket dr) req (dr_now dr) (gateway e)")
  case (Pair x gs)
  show ?thesis
  proof (cases x)
    case (Inl y)
    with Pair show ?thesis
      by (simp add: answered_def submitted_def submit_def raise_in_def go_to_def work_def)
  next
    case (Inr d)
    define w where "w = \<lparr>run_id = k_run_id k, w_request_id = req_id req, w_state = PENDING,
      decision = Some d, tool_calls = [], outputs = []\<rparr>"
    define e1 where "e1 = e\<lparr>gateway := gs, objects := objects e @ [w]\<rparr>"
    obtain x2 e2 where e2: "emit e1 (dr_clock1 dr) (req_id req) (lit ''request.received'') (lit ''workflow'')
        [(lit ''action'', JStr (req_action req))] = (x2, e2)" by force
    obtain x3 e3 where e3: "emit e2 (dr_clock2 dr) (req_id req) (state_event (d_state d)) (lit ''gateway'')
        [(lit ''reason'', JStr (d_reason d)), (lit ''sequence'', JInt (d_sequence d))] = (x3, e3)" by force
    obtain x4 e4 where e4: "file_run e3 (length (objects e)) (k_run_id k) req d = (x4, e4)" by force
    have sub: "submit env keys store dr req e = (case x2 of Inl x \<Rightarrow> (Inl x, e2)
        | Inr _ \<Rightarrow> (case x3 of Inl x \<Rightarrow> (Inl x, e3) | Inr _ \<Rightarrow> (x4, e4)))"
      by (simp add: submit_def Pair Inr Let_def assms e2 e3 e4 split: sum.split flip: w_def e1_def)
    have "objects e3 = objects e2" by (metis emit_sel(2) e3 snd_conv)
    also have "objects e2 = objects e1" by (metis emit_sel(2) e2 snd_conv)
    finally have obj: "objects e3 = objects e @ [w]" by (simp add: e1_def)
    have dec: "decision (objects e4 ! r) = Some d" if "x4 = Inr r" for r
    proof -
      obtain st where "objects e4 = (objects e3)[length (objects e) := (objects e3 ! length (objects e))\<lparr>w_state := st\<rparr>]"
        using file_run_out [of e3 "length (objects e)" "k_run_id k" req d] e4 by auto
      moreover have "r = length (objects e)"
        using file_run_fst [of e3 "length (objects e)" "k_run_id k" req d r] e4 that by simp
      ultimately show ?thesis by (simp add: obj w_def)
    qed
    have a: "answered k req e (x, gs) = go_to k (Receiving req (length (objects e)) d) e1"
      by (simp add: answered_def Inr make_run_def e1_def w_def)
    show ?thesis
      unfolding Pair a sub
      by (cases x2; cases x3; cases x4)
         (simp_all add: go_to_def work_def e2 e3 e4 append_then_def raise_in_def submitted_def filing_def waits_cases dec)
  qed
qed

text \<open>The operations of \<open>Engine\<close> by the call that asks for them.\<close>

fun perform ::
    "pyenv \<Rightarrow> keyring \<Rightarrow> 's asset_store \<Rightarrow> draw \<Rightarrow> clock \<Rightarrow> job \<Rightarrow> engine \<Rightarrow> (exn + answer) \<times> engine" where
  "perform env keys store dr t (Submit req) e = apfst (map_sum id Ran) (submit env keys store dr req e)"
| "perform env keys store dr t (Release req) e =
     apfst (map_sum id Ran) (release_conditional env keys store dr t req e)"
| "perform env keys store dr t (Tool_call rid tool args) e =
     apfst (map_sum id Called) (record_tool_call e t rid tool args)"
| "perform env keys store dr t (Put_output rid output) e =
     apfst (map_sum id (\<lambda>_. Done)) (record_output e t rid output)"

text \<open>The readings of the clocks, one for each step, after the steps in the gateway.\<close>

fun readings :: "draw \<Rightarrow> clock \<Rightarrow> job \<Rightarrow> clock list" where
  "readings dr t (Submit req) = [dr_clock1 dr, dr_clock2 dr, t]"
| "readings dr t (Release req) = [dr_clock1 dr, dr_clock2 dr, t, t, t]"
| "readings dr t _ = [t]"

definition returned :: "worker \<Rightarrow> (exn + answer) \<times> engine \<Rightarrow> worker \<times> engine" where
  "returned k out = go_to k (Returned (fst out)) (snd out)"

lemma solo_done [simp]: "solo env keys store ts (returned k out) = returned k out"
  by (simp add: returned_def go_to_def)

lemma gateway_alone:
  assumes "k_now k = dr_now dr" "k_ticket k = dr_ticket dr" "k_run_id k = dr_run_id dr"
  shows "\<exists>n\<le>2 * length (consent_tokens req) + 5.
    solo env keys store (replicate n t' @ dr_clock1 dr # dr_clock2 dr # t # ts) (enter_gateway k req e) =
      solo env keys store ts (submitted k req (submit env keys store dr req e))"
proof -
  let ?th = "new_thread req (k_now k) (k_ticket k)"
  obtain n where n: "n \<le> left ?th" "solo env keys store (replicate n t') (k\<lparr>k_place := Evaluating ?th\<rparr>, e) =
      answered k req e (evaluate env keys store (dr_ticket dr) req (dr_now dr) (gateway e))"
    using solo_gateway [of ?th env keys store t' k e] assms by (auto simp: meaning_def)
  have "solo env keys store (replicate n t' @ dr_clock1 dr # dr_clock2 dr # t # ts) (enter_gateway k req e) =
      solo env keys store ts (solo env keys store [dr_clock1 dr, dr_clock2 dr, t]
        (answered k req e (evaluate env keys store (dr_ticket dr) req (dr_now dr) (gateway e))))"
    by (simp only: enter_gateway_def go_to_def solo_append n(2) solo.simps)
  also have "\<dots> = solo env keys store ts (submitted k req (submit env keys store dr req e))"
    by (simp only: submit_tail [OF assms(3) [symmetric]])
  finally show ?thesis using n(1) unfolding new_thread_left by blast
qed

lemma submit_kept:
  assumes "engine_inv e" "submit env keys store dr req e = (Inr r, e1)"
  obtains d where "decision (objects e1 ! r) = Some d"
    and "d_state d = ALLOWED \<Longrightarrow> conditional_queue e1 = conditional_queue e"
proof -
  from submit_cases [OF assms(1), of env keys store dr req] obtain d gs w e3 where
    w: "w = \<lparr>run_id = dr_run_id dr, w_request_id = req_id req, w_state = PENDING,
          decision = Some d, tool_calls = [], outputs = []\<rparr>"
    and e3: "e3 = e\<lparr>gateway := gs, objects := objects e @ [w], trace := trace e3\<rparr>"
    and f: "file_run e3 (length (objects e)) (dr_run_id dr) req d = (Inr r, e1)"
    by (metis assms(2) Inl_Inr_False fst_conv)
  have e3': "objects e3 = objects e @ [w]" "conditional_queue e3 = conditional_queue e" by (subst e3, simp)+
  have r: "r = length (objects e)" using file_run_fst f by (metis fst_conv)
  obtain st where "objects e1 = (objects e3)[length (objects e) := (objects e3 ! length (objects e))\<lparr>w_state := st\<rparr>]"
    using file_run_out [of e3 "length (objects e)" "dr_run_id dr" req d] f by auto
  then have "decision (objects e1 ! r) = Some d" by (simp add: e3' r w)
  moreover have "conditional_queue e1 = conditional_queue e" if "d_state d = ALLOWED"
    using f that e3'(2) by (auto simp: file_run_def Let_def set_state_def)
  ultimately show thesis by (rule that)
qed

lemma release_tail:
  assumes "engine_inv e" "dget (conditional_queue e) (req_id req) \<noteq> None" "waits (k_job k)"
  shows "solo env keys store [t', t] (submitted k req (submit env keys store dr req e)) =
    returned k (apfst (map_sum id Ran) (release_conditional env keys store dr t req e))"
proof (cases "submit env keys store dr req e")
  case (Pair x e1)
  show ?thesis
  proof (cases x)
    case (Inl y)
    have "release_conditional env keys store dr t req e = (Inl y, e1)"
      using Pair Inl assms(2) by (auto simp: release_conditional_def)
    with Pair Inl show ?thesis
      by (simp add: submitted_def raise_in_def go_to_def returned_def work_def)
  next
    case (Inr r)
    obtain d where d: "decision (objects e1 ! r) = Some d"
      "d_state d = ALLOWED \<Longrightarrow> conditional_queue e1 = conditional_queue e"
      using submit_kept [OF assms(1) Pair [unfolded Inr]] by blast
    define e2 where "e2 = (if d_state d = ALLOWED
      then e1\<lparr>conditional_queue := ddel (conditional_queue e1) (req_id req)\<rparr> else e1)"
    obtain x3 e3 where e3: "emit e2 t (req_id req) (lit ''hold.released'') (lit ''workflow'') [] = (x3, e3)" by force
    have rel: "release_conditional env keys store dr t req e = (case x3 of Inl x \<Rightarrow> (Inl x, e3) | Inr _ \<Rightarrow> (Inr r, e3))"
      using assms(2) by (cases "dget (conditional_queue e) (req_id req)")
        (simp_all add: release_conditional_def Pair Inr d(1) e3 flip: e2_def split: sum.split)
    have "settling (k\<lparr>k_place := Settling req r d\<rparr>) req r d e1 = go_to k (Announcing req r) e2"
      using d(2) assms(2) by (auto simp: settling_def go_to_def e2_def)
    then show ?thesis
      unfolding rel
      by (cases x3)
         (simp_all add: Pair Inr submitted_def assms(3) d(1) go_to_def work_def append_then_def e3 raise_in_def returned_def)
  qed
qed

theorem call_alone:
  assumes "engine_inv e"
  shows "\<exists>n<job_left job.
    solo env keys store (replicate n t' @ readings dr t job)
      (new_worker job (dr_ticket dr) (dr_run_id dr) (dr_now dr), e) =
    returned (new_worker job (dr_ticket dr) (dr_run_id dr) (dr_now dr)) (perform env keys store dr t job e)"
proof -
  let ?k = "new_worker job (dr_ticket dr) (dr_run_id dr) (dr_now dr)"
  have k: "k_now ?k = dr_now dr" "k_ticket ?k = dr_ticket dr" "k_run_id ?k = dr_run_id dr"
    "k_job ?k = job" "k_place ?k = Begin"
    by (simp_all add: new_worker_def)
  have start: "solo env keys store (replicate (Suc n) t' @ ts) (?k, e) =
      solo env keys store (replicate n t' @ ts) (begin_work env ?k job e)" for n ts
    by (simp add: work_def k)
  show ?thesis
  proof (cases job)
    case (Submit req)
    obtain n where n: "n \<le> 2 * length (consent_tokens req) + 5"
      "solo env keys store (replicate n t' @ dr_clock1 dr # dr_clock2 dr # t # []) (enter_gateway ?k req e) =
        solo env keys store [] (submitted ?k req (submit env keys store dr req e))"
      using gateway_alone [OF k(1-3)] by blast
    have "\<not> waits (k_job ?k)" using k(4) Submit by simp
    then have "submitted ?k req out = returned ?k (apfst (map_sum id Ran) out)" for out
      by (cases out; cases "fst out") (auto simp: submitted_def returned_def raise_in_def)
    with n start [of n "readings dr t job"] Submit show ?thesis by (intro exI [of _ "Suc n"]) simp
  next
    case (Release req)
    show ?thesis
    proof (cases "dget (conditional_queue e) (req_id req) = None")
      case True
      then have "begin_work env ?k job e = returned ?k (perform env keys store dr t job e)"
        by (simp add: Release raise_in_def returned_def release_conditional_def)
      with start [of 0 "readings dr t job"] show ?thesis
        by (intro exI [of _ 1]) (simp only: solo_done replicate_0 append_Nil One_nat_def Release job_left.simps, simp)
    next
      case False
      obtain n where n: "n \<le> 2 * length (consent_tokens req) + 5"
        "solo env keys store (replicate n t' @ dr_clock1 dr # dr_clock2 dr # t # [t, t]) (enter_gateway ?k req e) =
          solo env keys store [t, t] (submitted ?k req (submit env keys store dr req e))"
        using gateway_alone [OF k(1-3)] by blast
      have "waits (k_job ?k)" using k(4) Release by simp
      from release_tail [OF assms False this, of env keys store t t dr] n start [of n "readings dr t job"] False Release
      show ?thesis by (intro exI [of _ "Suc n"]) simp
    qed
  next
    case (Tool_call rid tool args)
    have "solo env keys store [t] (begin_work env ?k job e) = returned ?k (perform env keys store dr t job e)"
      by (auto simp: Tool_call record_tool_call_def returned_def raise_in_def go_to_def work_def append_then_def Let_def
          split: option.split sum.split prod.split)
    with start [of 0 "readings dr t job"] Tool_call show ?thesis by (intro exI [of _ 1]) simp
  next
    case (Put_output rid out)
    have "solo env keys store [t] (begin_work env ?k job e) = returned ?k (perform env keys store dr t job e)"
      by (auto simp: Put_output record_output_def returned_def raise_in_def go_to_def work_def append_then_def Let_def
          split: option.split sum.split prod.split)
    with start [of 0 "readings dr t job"] Put_output show ?thesis by (intro exI [of _ 1]) simp
  qed
qed

text \<open>The same among the others: the steps of one call, with none of another between them.\<close>

lemma office_solo:
  assumes "i < length (o_workers s)"
  shows "foldl (office_step env keys) s (map (Step i) ts) =
    (case solo env keys (o_store s) ts (o_workers s ! i, o_engine s) of
       (k, e) \<Rightarrow> s\<lparr>o_engine := e, o_workers := (o_workers s)[i := k]\<rparr>)"
  using assms
proof (induction ts arbitrary: s)
  case (Cons t ts)
  obtain k e where w: "work env keys (o_store s) t (o_workers s ! i) (o_engine s) = (k, e)" by force
  with Cons.prems Cons.IH [of "s\<lparr>o_engine := e, o_workers := (o_workers s)[i := k]\<rparr>"] show ?case
    by (simp split: prod.split)
qed simp

theorem office_alone:
  assumes "engine_inv (o_engine s)" "i < length (o_workers s)"
    and "o_workers s ! i = new_worker job (dr_ticket dr) (dr_run_id dr) (dr_now dr)"
  shows "\<exists>n<job_left job. \<exists>s'.
    s' = foldl (office_step env keys) s (map (Step i) (replicate n t' @ readings dr t job))
    \<and> k_place (o_workers s' ! i) = Returned (fst (perform env keys (o_store s) dr t job (o_engine s)))
    \<and> o_engine s' = snd (perform env keys (o_store s) dr t job (o_engine s))"
proof -
  from call_alone [OF assms(1), of job env keys "o_store s" t' dr t] obtain n where n: "n < job_left job"
    "solo env keys (o_store s) (replicate n t' @ readings dr t job) (o_workers s ! i, o_engine s) =
      returned (o_workers s ! i) (perform env keys (o_store s) dr t job (o_engine s))"
    unfolding assms(3) by blast
  have "foldl (office_step env keys) s (map (Step i) (replicate n t' @ readings dr t job)) =
      s\<lparr>o_engine := snd (perform env keys (o_store s) dr t job (o_engine s)),
        o_workers := (o_workers s)[i := (o_workers s ! i)
          \<lparr>k_place := Returned (fst (perform env keys (o_store s) dr t job (o_engine s)))\<rparr>]\<rparr>"
    unfolding office_solo [OF assms(2)] n(2) by (simp add: returned_def go_to_def)
  with n(1) assms(2) show ?thesis by (intro exI [of _ n]) simp
qed

subsection \<open>What the interleavings keep\<close>

theorem office_safe:
  assumes "office_reach env keys s c"
  shows "verify_chain (trace (o_engine s)) = Inr True"
    and "w \<in> set (objects (o_engine s)) \<Longrightarrow> run_ok w"
    and "k \<in> set (o_workers s) \<Longrightarrow> k_place k = Returned (Inr (Ran r)) \<Longrightarrow> filed_at (o_engine s) r"
  using office_reach_upto [OF assms] office_reach_inv [OF assms]
  by (auto simp: trace_upto_def office_inv_def engine_inv_def worker_ok_def)

lemma office_steps_reach:
  "office_reach env keys s c \<Longrightarrow> c \<le> snd t \<Longrightarrow>
     \<exists>c'. office_reach env keys (foldl (office_step env keys) s (replicate n (Step i t))) c'"
proof (induction n arbitrary: s c)
  case (Suc n)
  from office_reach.step [OF Suc.prems(1), of "Step i t"] Suc.prems(2)
  have "office_reach env keys (office_step env keys s (Step i t)) (snd t)" by simp
  from Suc.IH [OF this] show ?case by simp
qed auto

text \<open>
  The test and the deletion of \<open>release_conditional\<close> are two critical sections: of two releases of
  one request that both passed the test, the one that comes second to the deletion raises.
\<close>

lemma second_release_raises:
  assumes "k_place k = Settling req r d" "d_state d = ALLOWED" "k_place k' = Settling req r' d'" "d_state d' = ALLOWED"
    and "work env keys store t k e = (k1, e1)"
  shows "work env keys store t' k' e1 = (k'\<lparr>k_place := Returned (Inl (KeyError (req_id req)))\<rparr>, e1)"
proof -
  have "dget (conditional_queue e1) (req_id req) = None"
    using assms(1,2,5)
    by (cases "dget (conditional_queue e) (req_id req)") (auto simp: work_def settling_def go_to_def raise_in_def dget_ddel)
  with assms(3,4) show ?thesis by (simp add: work_def settling_def raise_in_def go_to_def)
qed

text \<open>
  A tool call is entered under the lock and traced after it: the output of another call can complete
  the run in between, and then the two events are appended in whichever order the calls go on.
\<close>

lemma tool_event_after_completion:
  assumes "k_place k = Begin" "k_job k = Tool_call rid tool args" "k_place k' = Begin" "k_job k' = Put_output rid out"
    and "dget (runs e) rid = Some r" "r < length (objects e)" "w_state (objects e ! r) = EXECUTING"
    and "decision (objects e ! r) = Some d" "d_state d = ALLOWED"
    and "work env keys store t k e = (k1, e1)" "work env keys store t' k' e1 = (k2, e2)"
  shows "k_place k1 = Logging (w_request_id (objects e ! r)) (lit ''tool.called'') (lit ''agent'')
      [(lit ''tool'', JStr tool)] (Called (tool, args))"
    and "k_place k2 = Logging (w_request_id (objects e ! r)) (lit ''run.completed'') (lit ''workflow'') [] Done"
    and "w_state (objects e2 ! r) = COMPLETED" "trace e2 = trace e"
proof -
  have 1: "k1 = k\<lparr>k_place := Logging (w_request_id (objects e ! r)) (lit ''tool.called'') (lit ''agent'')
      [(lit ''tool'', JStr tool)] (Called (tool, args))\<rparr>"
    and e1: "e1 = set_run e r (\<lambda>w. w\<lparr>tool_calls := tool_calls w @ [(tool, args)]\<rparr>)"
    using assms(1,2,5-10) by (simp_all add: work_def Let_def go_to_def)
  have 2: "k2 = k'\<lparr>k_place := Logging (w_request_id (objects e ! r)) (lit ''run.completed'') (lit ''workflow'') [] Done\<rparr>"
    and e2: "e2 = set_run e1 r (\<lambda>w. w\<lparr>outputs := outputs w @ [out], w_state := COMPLETED\<rparr>)"
    using assms(3-7,11) by (simp_all add: work_def Let_def go_to_def e1)
  show "k_place k1 = Logging (w_request_id (objects e ! r)) (lit ''tool.called'') (lit ''agent'')
      [(lit ''tool'', JStr tool)] (Called (tool, args))"
    "k_place k2 = Logging (w_request_id (objects e ! r)) (lit ''run.completed'') (lit ''workflow'') [] Done"
    "w_state (objects e2 ! r) = COMPLETED" "trace e2 = trace e"
    using assms(6) by (simp_all add: 1 2 e1 e2)
qed

end
