(* ===== verification/ServiceThreads.thy ===== *)
theory ServiceThreads
  imports Threads Service
begin

text \<open>
  The HTTP service as its threads run it (\<open>src/policy/service.py\<close>): \<open>do_POST\<close> gives the work on a
  request to the module's \<open>ThreadPoolExecutor\<close>, whose queue is first in, first out and of whose jobs
  at most 32 are at work at a time. A job that is at work goes from one lock to the next: the
  store's in \<open>withdraw\<close>, and those under \<open>PolicyGateway.evaluate\<close>, which \<open>Threads\<close> models. What a job
  does between two locks touches only its own variables and belongs to the step before. The
  gateway is built before the service takes requests, as \<open>main\<close> does it, so \<open>_gateway()\<close> and
  \<open>_store()\<close> only read it.
\<close>

definition POOL_WORKERS :: nat where
  "POOL_WORKERS = 32"

subsection \<open>Jobs\<close>

text \<open>
  \<open>Judging\<close> and \<open>Rechecking\<close> name the thread of the gateway that works for the job; \<open>Withdrawing\<close>
  stands before the withdrawal. \<open>Replied\<close> holds what the future returns or raises.
\<close>

datatype stage =
    Waiting
  | Withdrawing str
  | Judging nat
  | Rechecking str nat
  | Replied "exn + response"

record post =
  j_reading :: reading
  j_path :: str
  j_raw :: bytes
  j_stage :: stage

record pool =
  p_race :: "unit race"
  p_jobs :: "post list"

text \<open>What the handlers do with a request before the first lock: answer it, evaluate, or withdraw.\<close>

datatype task = Answer_now "exn + response" | To_evaluate policy_request | To_withdraw str

definition first_task :: "pyenv \<Rightarrow> (exn \<Rightarrow> str) \<Rightarrow> reading \<Rightarrow> str \<Rightarrow> bytes \<Rightarrow> task" where
  "first_task env exc_text rd path raw =
     (if path = lit ''/evaluate'' then
        (case decode_payload raw of
           Inl _ \<Rightarrow> Answer_now (Inr (400, error_json (lit ''invalid json'')))
         | Inr data \<Rightarrow>
             (case parse_request env rd data of
                Inl e \<Rightarrow> Answer_now (Inr (400, error_json (lit ''invalid request: '' @ exc_str exc_text e)))
              | Inr req \<Rightarrow> To_evaluate req))
      else if path = lit ''/revoke'' then
        (case andthen (decode_payload raw) (\<lambda>j. json_item j (lit ''asset_id'')) of
           Inl _ \<Rightarrow> Answer_now (Inr (400, error_json (lit ''asset_id required'')))
         | Inr v \<Rightarrow> To_withdraw (json_str env v))
      else Answer_now (Inr (404, error_json (lit ''not found''))))"

text \<open>What they make of the decision.\<close>

definition evaluate_reply :: "exn + policy_decision \<Rightarrow> exn + response" where
  "evaluate_reply r =
     (case r of
        Inl e \<Rightarrow> Inl e
      | Inr d \<Rightarrow>
          Inr (200, JObj [(lit ''state'', JStr (state_value (d_state d))),
                          (lit ''reason'', JStr (d_reason d)),
                          (lit ''sequence'', JInt (d_sequence d)),
                          (lit ''rule_version'', JStr (d_rule_version d))]))"

definition revoke_reply :: "reading \<Rightarrow> exn + policy_decision \<Rightarrow> exn + response" where
  "revoke_reply rd r =
     (case r of
        Inl e \<Rightarrow> Inl e
      | Inr d \<Rightarrow>
          Inr (200, JObj [(lit ''revoked'', JBool True),
                          (lit ''blocked'', JBool (state_value (d_state d) = lit ''Blocked'')),
                          (lit ''revoke_to_block_ms'', JFloat (rd_elapsed rd))]))"

subsection \<open>The pool\<close>

definition new_post :: "reading \<Rightarrow> str \<Rightarrow> bytes \<Rightarrow> post" where
  "new_post rd path raw = \<lparr>j_reading = rd, j_path = path, j_raw = raw, j_stage = Waiting\<rparr>"

fun is_waiting :: "stage \<Rightarrow> bool" where
  "is_waiting Waiting = True"
| "is_waiting _ = False"

fun is_replied :: "stage \<Rightarrow> bool" where
  "is_replied (Replied r) = True"
| "is_replied _ = False"

definition at_work :: "post \<Rightarrow> bool" where
  "at_work jb \<longleftrightarrow> \<not> is_waiting (j_stage jb) \<and> \<not> is_replied (j_stage jb)"

fun first_waiting :: "post list \<Rightarrow> nat option" where
  "first_waiting [] = None"
| "first_waiting (jb # jbs) = (if is_waiting (j_stage jb) then Some 0 else map_option Suc (first_waiting jbs))"

definition set_stage :: "pool \<Rightarrow> nat \<Rightarrow> stage \<Rightarrow> pool" where
  "set_stage s j st = s\<lparr>p_jobs := (p_jobs s)[j := (p_jobs s ! j)\<lparr>j_stage := st\<rparr>]\<rparr>"

definition start_evaluation ::
    "pyenv \<Rightarrow> keyring \<Rightarrow> pool \<Rightarrow> nat \<Rightarrow> policy_request \<Rightarrow> (nat \<Rightarrow> stage) \<Rightarrow> pool" where
  "start_evaluation env keys s j req st =
     set_stage
       (s\<lparr>p_race := race_step env keys (p_race s)
            (Arrive req (rd_now (j_reading (p_jobs s ! j))) (rd_ticket (j_reading (p_jobs s ! j))))\<rparr>)
       j (st (length (r_threads (p_race s))))"

text \<open>A worker takes a job off the queue.\<close>

definition take_job :: "pyenv \<Rightarrow> (exn \<Rightarrow> str) \<Rightarrow> keyring \<Rightarrow> pool \<Rightarrow> nat \<Rightarrow> pool" where
  "take_job env exc_text keys s j =
     (let jb = p_jobs s ! j
      in case first_task env exc_text (j_reading jb) (j_path jb) (j_raw jb) of
           Answer_now r \<Rightarrow> set_stage s j (Replied r)
         | To_evaluate req \<Rightarrow> start_evaluation env keys s j req Judging
         | To_withdraw aid \<Rightarrow> set_stage s j (Withdrawing aid))"

text \<open>The withdrawal, and the probe that follows it.\<close>

definition withdraw_step :: "pyenv \<Rightarrow> (exn \<Rightarrow> str) \<Rightarrow> keyring \<Rightarrow> pool \<Rightarrow> nat \<Rightarrow> str \<Rightarrow> pool" where
  "withdraw_step env exc_text keys s j aid =
     (let rd = j_reading (p_jobs s ! j)
      in case withdraw (r_store (p_race s)) aid (rd_withdraw_ns rd) (r_aux (p_race s)) of
           Inl e \<Rightarrow> set_stage s j (Replied (Inr (404, error_json (exc_str exc_text e))))
         | Inr (_, store, x) \<Rightarrow>
             (let s1 = s\<lparr>p_race := (p_race s)\<lparr>r_store := store, r_aux := x\<rparr>\<rparr>
              in case checked_request (probe_request rd aid) of
                   Inl e \<Rightarrow> set_stage s1 j (Replied (Inl e))
                 | Inr req \<Rightarrow> start_evaluation env keys s1 j req (Rechecking aid)))"

text \<open>One step of the gateway for the job, and the reply when it was the last.\<close>

definition gateway_step ::
    "pyenv \<Rightarrow> keyring \<Rightarrow> pool \<Rightarrow> nat \<Rightarrow> nat \<Rightarrow> (exn + policy_decision \<Rightarrow> exn + response) \<Rightarrow> pool" where
  "gateway_step env keys s j i reply =
     (let s1 = s\<lparr>p_race := race_step env keys (p_race s) (Run i)\<rparr>
      in case t_phase (r_threads (p_race s1) ! i) of
           Finished r \<Rightarrow> set_stage s1 j (Replied (reply r))
         | _ \<Rightarrow> s1)"

definition post_step :: "pyenv \<Rightarrow> (exn \<Rightarrow> str) \<Rightarrow> keyring \<Rightarrow> pool \<Rightarrow> nat \<Rightarrow> pool" where
  "post_step env exc_text keys s j =
     (case j_stage (p_jobs s ! j) of
        Withdrawing aid \<Rightarrow> withdraw_step env exc_text keys s j aid
      | Judging i \<Rightarrow> gateway_step env keys s j i evaluate_reply
      | Rechecking aid i \<Rightarrow> gateway_step env keys s j i (revoke_reply (j_reading (p_jobs s ! j)))
      | Waiting \<Rightarrow> s
      | Replied r \<Rightarrow> s)"

text \<open>A request is handed to the pool, an idle worker takes the next job, or a job at work goes on.\<close>

datatype pool_op = Posted reading str bytes | Take | Go nat

definition can_take :: "pool \<Rightarrow> bool" where
  "can_take s \<longleftrightarrow> first_waiting (p_jobs s) \<noteq> None \<and> length (filter at_work (p_jobs s)) < POOL_WORKERS"

fun pool_step :: "pyenv \<Rightarrow> (exn \<Rightarrow> str) \<Rightarrow> keyring \<Rightarrow> pool \<Rightarrow> pool_op \<Rightarrow> pool" where
  "pool_step env exc_text keys s (Posted rd path raw) = s\<lparr>p_jobs := p_jobs s @ [new_post rd path raw]\<rparr>"
| "pool_step env exc_text keys s Take =
     (case first_waiting (p_jobs s) of
        None \<Rightarrow> s
      | Some j \<Rightarrow> if can_take s then take_job env exc_text keys s j else s)"
| "pool_step env exc_text keys s (Go j) =
     (if j < length (p_jobs s) then post_step env exc_text keys s j else s)"

definition pool_start :: "running \<Rightarrow> pool" where
  "pool_start r = \<lparr>p_race = \<lparr>r_store = sv_store r, r_aux = (), r_gate = sv_gateway r, r_threads = []\<rparr>, p_jobs = []\<rparr>"

text \<open>The service that the pool works on.\<close>

definition pool_running :: "keyring \<Rightarrow> pool \<Rightarrow> running" where
  "pool_running keys s = \<lparr>sv_gateway = r_gate (p_race s), sv_keys = keys, sv_store = r_store (p_race s)\<rparr>"

end
