(* ===== verification/Http.thy ===== *)
theory Http
  imports Service JsonLayout
begin

text \<open>
  The HTTP side of \<open>src/policy/service.py\<close>: how a handler reads the body of a request and how it
  sends a payload. A request is its path, the value of its \<open>Content-Length\<close> header, if any, and the
  bytes that follow the headers; a reply is a status, the headers that the handler sets and a body.
  The status line, the \<open>Server\<close> and \<open>Date\<close> headers and the socket are those of \<open>http.server\<close>.
  \<open>service_main\<close> and \<open>serve_all\<close> are the start of the service and the requests it then receives.
\<close>

subsection \<open>\<open>json.dumps\<close> with its defaults\<close>

text \<open>Keys stay in the order of insertion.\<close>

fun dumps_plain :: "json \<Rightarrow> str" where
  "dumps_plain (JArr xs) = 91 # join (lit '', '') (map dumps_plain xs) @ [93]"
| "dumps_plain (JObj kvs) =
     123 # join (lit '', '') (map (\<lambda>(k, v). quote k @ lit '': '' @ dumps_plain v) kvs) @ [125]"
| "dumps_plain j = dumps j"

lemma dumps_plain_spells: "json_text j \<Longrightarrow> spells j (dumps_plain j)"
proof (induction j rule: dumps_plain.induct)
  case (1 xs)
  show ?case
  proof (cases "xs = []")
    case False
    have "spells_items (map id xs) (join (44 # [32]) (map dumps_plain xs) @ [] @ [93])"
      using 1 False by (intro spells_items_join) (auto simp: is_ws_def)
    with items [OF _, of _ _ "[]"] show ?thesis by (simp add: lit_Cons)
  qed (simp add: no_items)
next
  case (2 kvs)
  show ?case
  proof (cases "kvs = []")
    case False
    have "loadable k \<and> spells (id v) (dumps_plain v)" if "(k, v) \<in> set kvs" for k v
      using 2(1) [of "(k, v)" k v] 2(2) that by auto
    from spells_members_join [where f = id and g = dumps_plain, OF False this, of "[32]" "[]" "[32]"]
    have "spells_members kvs (join (44 # [32]) (map (\<lambda>(k, v). quote k @ 58 # [32] @ dumps_plain v) kvs) @ [] @ [125])"
      by (simp add: is_ws_def)
    moreover have "wf_dict kvs" using 2(2) by simp
    ultimately show ?thesis using members [of kvs _ "[]"] by (simp add: lit_Cons)
  qed (simp add: no_members)
qed (auto intro: spells_atom)

lemma loads_plain: "json_text j \<Longrightarrow> loads (dumps_plain j) = Inr j"
  using loads_spelt [of j "dumps_plain j" "[]" "[]"] dumps_plain_spells by simp

lemma dumps_plain_ascii: "json_text j \<Longrightarrow> c \<in> set (dumps_plain j) \<Longrightarrow> c < 128"
  using spells_ascii(1) dumps_plain_spells by blast

subsection \<open>Requests and replies\<close>

record http_reply =
  rp_status :: nat
  rp_headers :: "(str \<times> str) list"
  rp_body :: bytes

definition send_json :: "nat \<Rightarrow> json \<Rightarrow> exn + http_reply" where
  "send_json code payload =
     andthen (utf8_encode (dumps_plain payload)) (\<lambda>body.
       Inr \<lparr>rp_status = code,
            rp_headers = [(lit ''Content-Type'', lit ''application/json''),
                          (lit ''Content-Length'', dec (length body))],
            rp_body = body\<rparr>)"

text \<open>
  \<open>int(self.headers.get("Content-Length", "0"))\<close>: of a text of decimal digits (no more than Python
  converts), its value; of any other text, what the interpreter makes of it.
\<close>

definition content_length :: "pyenv \<Rightarrow> str option \<Rightarrow> exn + int" where
  "content_length env h =
     (case h of
        None \<Rightarrow> Inr 0
      | Some s \<Rightarrow>
          if s \<noteq> [] \<and> list_all is_digit s \<and> length s \<le> 4300 then Inr (int (undec 0 s)) else int_of_str env s)"

text \<open>\<open>rfile.read(length)\<close>: as many bytes, or all there are before the end of the stream.\<close>

definition read_body :: "pyenv \<Rightarrow> str option \<Rightarrow> bytes \<Rightarrow> exn + bytes" where
  "read_body env h stream =
     andthen (content_length env h) (\<lambda>n. Inr (if n > 0 then take (nat n) stream else [123, 125]))"

definition serve_get :: "str \<Rightarrow> exn + http_reply" where
  "serve_get path = (case do_get path of (code, payload) \<Rightarrow> send_json code payload)"

definition serve_post ::
    "pyenv \<Rightarrow> (exn \<Rightarrow> str) \<Rightarrow> reading \<Rightarrow> str \<Rightarrow> str option \<Rightarrow> bytes \<Rightarrow> running option
     \<Rightarrow> (exn + http_reply) \<times> running option" where
  "serve_post env exc_text rd path h stream sv =
     (case read_body env h stream of
        Inl e \<Rightarrow> (Inl e, sv)
      | Inr raw \<Rightarrow>
          (case do_post env exc_text rd path raw sv of
             (Inl e, sv') \<Rightarrow> (Inl e, sv')
           | (Inr (code, payload), sv') \<Rightarrow> (send_json code payload, sv')))"

text \<open>
  \<open>main\<close>: the gateway is built before the socket is opened, and the address is printed. From then on
  the requests that arrive are handed to \<open>do_GET\<close> and \<open>do_POST\<close>; one whose handler raises gets no
  reply, and the server goes on.
\<close>

record server =
  se_state :: "running option"
  se_printed :: str

definition banner :: "str \<Rightarrow> int \<Rightarrow> str" where
  "banner host port = lit ''MY3PAI gateway listening on '' @ host @ lit '':'' @ str_int port @ [10]"

definition service_main :: "pyenv \<Rightarrow> datetime \<Rightarrow> datetime \<Rightarrow> str \<Rightarrow> int \<Rightarrow> exn + server" where
  "service_main env since until host port =
     andthen (ensure env since until None) (\<lambda>r.
       Inr \<lparr>se_state = Some r, se_printed = banner host port\<rparr>)"

datatype wire = Get str | Post str "str option" bytes

fun serve ::
    "pyenv \<Rightarrow> (exn \<Rightarrow> str) \<Rightarrow> reading \<Rightarrow> wire \<Rightarrow> running option \<Rightarrow> (exn + http_reply) \<times> running option" where
  "serve env exc_text rd (Get path) sv = (serve_get path, sv)"
| "serve env exc_text rd (Post path h stream) sv = serve_post env exc_text rd path h stream sv"

fun serve_all ::
    "pyenv \<Rightarrow> (exn \<Rightarrow> str) \<Rightarrow> running option \<Rightarrow> (reading \<times> wire) list \<Rightarrow> (exn + http_reply) list \<times> running option" where
  "serve_all env exc_text sv [] = ([], sv)"
| "serve_all env exc_text sv ((rd, rq) # reqs) =
     (case serve env exc_text rd rq sv of
        (reply, sv') \<Rightarrow> (case serve_all env exc_text sv' reqs of (replies, sv'') \<Rightarrow> (reply # replies, sv'')))"

subsection \<open>A reply reads back\<close>

text \<open>What a client that trusts the headers decodes.\<close>

definition reply_carries :: "http_reply \<Rightarrow> nat \<Rightarrow> json \<Rightarrow> bool" where
  "reply_carries rp code payload \<longleftrightarrow>
     rp_status rp = code \<and> (lit ''Content-Length'', dec (length (rp_body rp))) \<in> set (rp_headers rp)
     \<and> decode_payload (rp_body rp) = Inr payload"

lemma send_json_carries:
  assumes "json_text payload"
  shows "\<exists>rp. send_json code payload = Inr rp \<and> reply_carries rp code payload"
proof -
  have enc: "utf8_encode (dumps_plain payload) = Inr (map of_nat (dumps_plain payload))"
    by (rule utf8_encode_ascii) (rule dumps_plain_ascii [OF assms])
  have "decode_payload (map of_nat (dumps_plain payload)) = Inr payload"
    using utf8_decode_encode [OF enc] loads_plain [OF assms] by (simp add: decode_payload_def)
  with enc show ?thesis by (simp add: send_json_def reply_carries_def)
qed

lemma dec_is_digits: "list_all is_digit (dec n) \<and> dec n \<noteq> []"
  using dec_digits [of _ n] by (subst dec.simps) (auto simp: list_all_iff)

text \<open>A body that is announced with its length is read whole, and no more.\<close>

lemma read_body_announced:
  assumes "raw \<noteq> []" "length (dec (length raw)) \<le> 4300"
  shows "read_body env (Some (dec (length raw))) (raw @ rest) = Inr raw"
  using assms dec_is_digits [of "length raw"] by (simp add: read_body_def content_length_def)

subsection \<open>The reasons of decisions are text\<close>

definition reason_valid :: "(exn + policy_decision) \<times> gateway_state \<Rightarrow> bool" where
  "reason_valid out \<longleftrightarrow> (\<forall>d. fst out = Inr d \<longrightarrow> valid_str (d_reason d))"

lemma reason_decide: "valid_str reason \<Longrightarrow> reason_valid (decide req k st conds reason ticket now gs)"
  by (simp add: reason_valid_def decide_eq Let_def)

lemma reason_blocked: "valid_str reason \<Longrightarrow> reason_valid (blocked req reason now asset gs)"
  by (simp add: blocked_def reason_decide)

lemma reason_raise: "reason_valid (Inl e, gs)"
  by (simp add: reason_valid_def)

lemma valid_exn_name: "valid_str (exn_name e)"
  by (cases e) (simp_all add: valid_lit)

lemma valid_py_repr [simp]: "valid_str (py_repr env s)"
proof -
  have hex: "valid_str (hexn k c)" for k c
    by (induction k arbitrary: c) (auto simp: scalar_def hexdigit_def)
  have "valid_str (repr_char env q c)" if "q < 128" for q c
    using that hex by (auto simp: repr_char_def scalar_def lit_Cons)
  then have "valid_str (concat (map (repr_char env q) s))" if "q < 128" for q
    using that by (induction s) auto
  then show ?thesis by (simp add: py_repr_def Let_def scalar_def)
qed

text \<open>The messages of token errors are literals of the module.\<close>

definition clear_error :: "exn \<Rightarrow> bool" where
  "clear_error e \<longleftrightarrow> (\<forall>m. e = TokenError m \<longrightarrow> valid_str m)"

lemma clear_token_error [simp]: "clear_error (token_error m)"
  by (simp add: clear_error_def token_error_def valid_lit)

lemma raises_weaken: "raises_only P r \<Longrightarrow> (\<And>e. P e \<Longrightarrow> Q e) \<Longrightarrow> raises_only Q r"
  by (simp add: raises_only_def)

lemma decode_token_clear: "raises_only clear_error (decode_token s token)"
  by (auto simp: decode_token_def raises_only_def andthen_eq_Inl ascii_encode_def clear_error_def token_error_def valid_lit
      split: option.splits sum.splits if_splits)

lemma decode_payload_clear: "raises_only clear_error (decode_payload raw)"
  unfolding raises_only_def clear_error_def decode_payload_def
  by (auto simp: andthen_eq_Inl loads_def utf8_decode_def split: option.splits list.splits prod.splits if_splits)

lemma probe_clear:
  assumes "conversions_ok env" shows "raises_only clear_error (verify_without_consuming env s token a t current)"
proof -
  have "raises_only clear_error (read_claim env p)" for p
    by (rule raises_weaken [OF read_claim_raises [OF assms]]) (auto simp: conversion_error_def clear_error_def)
  then show ?thesis
    unfolding verify_without_consuming_def
    by (intro raises_intros decode_token_clear decode_payload_clear) auto
qed

lemma probe_loop_clear:
  assumes "conversions_ok env" "\<forall>m. tamper = Some m \<longrightarrow> valid_str m"
    and "probe_loop env ts a t current toks tamper = Inr (Some (Some m))"
  shows "valid_str m"
  using assms(2,3)
proof (induction toks arbitrary: tamper)
  case (Cons token toks)
  show ?case
  proof (cases "verify_without_consuming env ts token a t current")
    case (Inl e)
    with probe_clear [OF assms(1), of ts token a t current] have "clear_error e" by simp
    with Inl Cons show ?thesis by (cases e) (auto simp: clear_error_def)
  qed (use Cons in simp)
qed simp

lemma reason_refuse_tokens:
  "\<forall>m. tamper = Some m \<longrightarrow> valid_str m \<Longrightarrow> reason_valid (refuse_tokens req a now tamper gs)"
  by (auto simp: refuse_tokens_def Let_def valid_lit intro!: reason_blocked split: option.split)

lemma reason_consent_gate:
  assumes "conversions_ok env" "\<And>gs. reason_valid (go gs)"
  shows "reason_valid (consent_gate env req a now go gs)"
proof -
  have "reason_valid (refuse_tokens req a now tamper gs)"
    if "probe_loop env (tokens gs) x y z toks None = Inr (Some tamper)" for tamper x y z toks
    using probe_loop_clear [OF assms(1), of None] that by (intro reason_refuse_tokens) auto
  then show ?thesis
    by (auto simp: consent_gate_def Let_def assms(2) valid_lit reason_decide reason_raise reason_blocked
        split: sum.split option.split prod.split bool.split)
qed

lemma reason_run_rules:
  assumes "\<forall>(n, c)\<in>set rs. \<forall>r. c = Inr (Some r) \<longrightarrow> valid_str r"
    and "\<And>m gs. valid_str m \<Longrightarrow> reason_valid (stop m gs)" "\<And>gs. reason_valid (go gs)"
  shows "reason_valid (run_rules stop rs go gs)"
  using assms(1)
proof (induction rs arbitrary: gs)
  case (Cons r rs)
  obtain n c where r: "r = (n, c)" by (cases r)
  consider e where "c = Inl e" | m where "c = Inr (Some m)" | "c = Inr None"
    by (cases c) (auto simp: not_None_eq)
  then show ?case using assms(2,3) Cons by cases (auto simp: r reason_raise)
qed (use assms(3) in simp)

lemma refuse_if_reason: "refuse_if c m = Inr (Some r) \<Longrightarrow> r = m"
  by (auto simp: refuse_if_def andthen_eq_Inr split: if_splits)

lemma checks_reasons:
  "\<forall>(n, c)\<in>set (checks env keys req now a). \<forall>r. c = Inr (Some r) \<longrightarrow> valid_str r"
proof -
  have refuse: "valid_str r" if "refuse_if c m = Inr (Some r)" "valid_str m" for c m r
    using refuse_if_reason [OF that(1)] that(2) by simp
  have window: "valid_str r" if w: "window_check a now = Inr (Some r)" for r
  proof -
    from w obtain q where q: "refuse_if (dt_lt now (valid_from a)) (lit ''rights not yet valid'') = Inr q"
      unfolding window_check_def andthen_eq_Inr by blast
    show ?thesis
    proof (cases q)
      case None
      with w q show ?thesis by (simp add: window_check_def) (erule refuse, rule valid_lit)
    next
      case (Some m)
      with w q have "m = r" by (simp add: window_check_def)
      with q Some show ?thesis using refuse [OF _ valid_lit] by blast
    qed
  qed
  show ?thesis
    unfolding checks_def by (auto simp: valid_lit elim: refuse window)
qed

lemma evaluate_reason_valid:
  assumes "conversions_ok env" "evaluate env keys store rand req now gs = (Inr d, gs')"
  shows "valid_str (d_reason d)"
proof -
  have inner: "reason_valid (evaluate_inner env keys store rand req now gs)"
  proof (cases "get_asset store (req_asset_id req)")
    case (Inl e)
    then show ?thesis by (cases e) (simp_all add: evaluate_inner_def reason_blocked reason_raise valid_lit)
  next
    case (Inr a)
    have "reason_valid (conclude env rand req a now gs)" for gs
      by (simp add: conclude_def reason_decide valid_lit)
    then show ?thesis
      unfolding evaluate_inner_rules [OF Inr]
      by (intro reason_run_rules reason_blocked reason_consent_gate checks_reasons assms)
  qed
  have closed: "reason_valid (blocked req (lit ''fail-closed on internal error: '' @ exn_name e) now None gs1)" for e gs1
    by (rule reason_blocked) (simp add: valid_lit valid_exn_name)
  have "reason_valid (evaluate env keys store rand req now gs)"
    using inner closed by (auto simp: evaluate_def reason_valid_def split: prod.split sum.split)
  with assms(2) show ?thesis by (simp add: reason_valid_def)
qed

subsection \<open>Whatever is answered reads back\<close>

text \<open>
  What is documented of the texts that come from outside: \<open>str\<close> of a \<open>float\<close>, and the messages of the
  three exceptions that reading a request can raise (\<open>data.get\<close> of what is no dictionary, \<open>tuple\<close> of
  what is no sequence, pydantic's refusal, which shows its input by \<open>repr\<close>), are text without
  surrogates. Of \<open>AssetNotFound\<close> nothing is said: it shows the id of the request.
\<close>

definition texts_ok :: "pyenv \<Rightarrow> (exn \<Rightarrow> str) \<Rightarrow> bool" where
  "texts_ok env exc_text \<longleftrightarrow>
     (\<forall>l. valid_str (float_str env l))
     \<and> (\<forall>e\<in>{AttributeError, TypeError, ValidationError}. valid_str (exc_text e))"

definition refusal :: "exn \<Rightarrow> bool" where
  "refusal e \<longleftrightarrow> e \<in> {AttributeError, TypeError, ValidationError}"

lemma json_tuple_raises: "raises_only refusal (json_tuple j)"
  by (cases j) (simp_all add: refusal_def)

lemma json_strs_raises: "raises_only refusal (json_strs js)"
  by (induction js rule: json_strs.induct) (auto simp: refusal_def intro: raises_intros)

lemma parse_request_raises: "raises_only refusal (parse_request env rd data)"
proof -
  have get: "raises_only refusal (json_get data k d)" for k d
    by (cases data) (simp_all add: json_get_def refusal_def)
  have new: "raises_only refusal (checked_request r)" for r
    by (simp add: checked_request_def new_request_def refusal_def)
  show ?thesis
    unfolding parse_request_def by (intro raises_intros get new json_tuple_raises json_strs_raises)
qed

lemma refusal_text: "texts_ok env exc_text \<Longrightarrow> refusal e \<Longrightarrow> valid_str (exc_str exc_text e)"
  by (auto simp: texts_ok_def refusal_def)

subsubsection \<open>The id of a request\<close>

lemma valid_join: "(\<And>s. s \<in> set ss \<Longrightarrow> valid_str s) \<Longrightarrow> valid_str sep \<Longrightarrow> valid_str (join sep ss)"
  by (induction sep ss rule: join.induct) auto

lemma valid_json_repr: "texts_ok env exc_text \<Longrightarrow> valid_str (json_repr env j)"
proof (induction j)
  case (JBool b)
  show ?case by (cases b) (simp_all add: valid_lit)
next
  case (JInt n)
  show ?case using ascii_valid_str str_int_ascii by auto
next
  case (JArr xs)
  then show ?case by (auto simp: valid_lit intro!: valid_join)
next
  case (JObj kvs)
  then show ?case by (fastforce simp: valid_lit intro!: valid_join)
qed (auto simp: valid_lit texts_ok_def)

lemma json_str_loadable: "texts_ok env exc_text \<Longrightarrow> json_loadable j \<Longrightarrow> loadable (json_str env j)"
  using valid_json_repr [of env exc_text j] by (cases j) auto

lemma decode_payload_loadable: "decode_payload raw = Inr j \<Longrightarrow> json_loadable j"
  by (auto simp: decode_payload_def andthen_eq_Inr dest: loads_loadable utf8_decode_valid)

lemma json_item_loadable: "json_item j k = Inr v \<Longrightarrow> json_loadable j \<Longrightarrow> json_loadable v"
  by (cases j) (auto dest: map_of_SomeD split: option.splits)

lemma error_json_text: "loadable m \<Longrightarrow> json_text (error_json m)"
  by (simp add: error_json_def wf_dict_def valid_lit)

lemma wf_evaluate: "well_formed_step req now gs (evaluate env keys store rand req now gs)"
proof (cases "evaluate_inner env keys store rand req now gs")
  case (Pair r gs1)
  have wf: "well_formed_step req now gs (r, gs1)"
    using wf_evaluate_inner [of req now gs env keys store rand] by (simp add: Pair)
  then show ?thesis
    using wf_trans [OF wf wf_blocked] by (cases r) (simp_all add: evaluate_def Pair)
qed

lemma handle_evaluate_text:
  assumes "conversions_ok env" "texts_ok env exc_text"
    and "handle_evaluate env exc_text rd raw sv = (Inr (code, payload), sv')"
  shows "json_text payload"
proof (cases "decode_payload raw")
  case (Inl e)
  with assms(3) show ?thesis by (auto simp: handle_evaluate_def valid_lit intro!: error_json_text)
next
  case (Inr data)
  show ?thesis
  proof (cases "parse_request env rd data")
    case (Inl e)
    then have "refusal e" using parse_request_raises [of env rd data] by simp
    from refusal_text [OF assms(2) this] show ?thesis
      using assms(3) Inl Inr by (auto simp: handle_evaluate_def valid_lit intro!: error_json_text)
  next
    case req: (Inr req)
    obtain r :: running and d gs where "evaluate env (sv_keys r) (sv_store r) (rd_ticket rd) req (rd_now rd) (sv_gateway r) = (Inr d, gs)"
      and p: "payload = JObj [(lit ''state'', JStr (state_value (d_state d))), (lit ''reason'', JStr (d_reason d)),
        (lit ''sequence'', JInt (d_sequence d)), (lit ''rule_version'', JStr (d_rule_version d))]"
      using assms(3) Inr req by (auto simp: handle_evaluate_def split: sum.splits prod.splits)
    note ev = this(1)
    have "valid_str (d_reason d)" by (rule evaluate_reason_valid [OF assms(1) ev])
    moreover have "valid_str (state_value (d_state d))" by (cases "d_state d") (simp_all add: valid_lit)
    moreover have "d_rule_version d = RULE_VERSION"
      using wf_evaluate [of req "rd_now rd" "sv_gateway r" env "sv_keys r" "sv_store r" "rd_ticket rd"] ev
      by (simp add: well_formed_step_def)
    ultimately show ?thesis by (simp add: p wf_dict_def valid_lit RULE_VERSION_def)
  qed
qed

lemma withdraw_raises: "withdraw st k ns x = Inl e \<Longrightarrow> e = AssetNotFound k"
  by (auto simp: withdraw_def Let_def split: option.splits)

text \<open>An unknown asset is named in the reply, whatever the request calls it.\<close>

lemma handle_revoke_text:
  assumes "texts_ok env exc_text" "float_repr (rd_elapsed rd)"
    and "handle_revoke env exc_text rd raw (Some r) = (Inr (code, payload), sv')"
  shows "json_text payload"
proof (cases "andthen (decode_payload raw) (\<lambda>j. json_item j (lit ''asset_id''))")
  case (Inl e)
  with assms(3) show ?thesis by (auto simp: handle_revoke_def valid_lit intro!: error_json_text)
next
  case (Inr v)
  then have "json_loadable v" by (auto simp: andthen_eq_Inr dest: json_item_loadable decode_payload_loadable)
  then have "loadable (json_str env v)" by (rule json_str_loadable [OF assms(1)])
  with assms(2,3) Inr show ?thesis
    by (auto simp: handle_revoke_def ensure_def Let_def valid_lit wf_dict_def intro!: error_json_text
        dest!: withdraw_raises split: sum.splits prod.splits)
qed

lemma do_post_text:
  assumes "conversions_ok env" "texts_ok env exc_text" "float_repr (rd_elapsed rd)"
    and "do_post env exc_text rd path raw (Some r) = (Inr (code, payload), sv')"
  shows "json_text payload"
  using assms(4) handle_evaluate_text [OF assms(1,2), of rd raw "Some r" code payload sv']
    handle_revoke_text [OF assms(2,3), of raw r code payload sv']
  by (auto simp: do_post_def valid_lit intro!: error_json_text split: if_splits)

theorem serve_post_reply:
  assumes "conversions_ok env" "texts_ok env exc_text" "float_repr (rd_elapsed rd)"
    and "read_body env h stream = Inr raw" "do_post env exc_text rd path raw (Some r) = (Inr (code, payload), sv')"
  shows "\<exists>rp. serve_post env exc_text rd path h stream (Some r) = (Inr rp, sv') \<and> reply_carries rp code payload"
  using send_json_carries [OF do_post_text [OF assms(1-3,5)], of code] assms(4,5) by (auto simp: serve_post_def)

theorem serve_get_reply: "\<exists>rp. serve_get path = Inr rp \<and> (case do_get path of (code, payload) \<Rightarrow> reply_carries rp code payload)"
proof -
  obtain code payload where g: "do_get path = (code, payload)" by force
  then have "json_text payload" by (auto simp: do_get_def wf_dict_def valid_lit intro!: error_json_text split: if_splits)
  from send_json_carries [OF this, of code] show ?thesis by (simp add: serve_get_def g)
qed

subsection \<open>Every request is answered\<close>

lemma do_post_total:
  assumes r: "running_ok r" and ns: "length (str_int (rd_ns rd)) \<le> 100"
  shows "\<exists>code payload r'. do_post env exc_text rd path raw (Some r) = (Inr (code, payload), Some r')
    \<and> running_ok r' \<and> code \<in> {200, 400, 404}"
proof -
  have c: "0 \<le> counter (sv_gateway r)" using r by (simp add: running_ok_def)
  have kept: "running_ok (r\<lparr>sv_gateway := gs\<rparr>)" if "0 \<le> counter gs" for gs
    using r that by (simp add: running_ok_def)
  have ev: "\<exists>code payload r'. handle_evaluate env exc_text rd raw (Some r) = (Inr (code, payload), Some r')
      \<and> running_ok r' \<and> code \<in> {200, 400, 404}"
  proof (cases "andthen (decode_payload raw) (parse_request env rd)")
    case (Inl e)
    then have "handle_evaluate env exc_text rd raw (Some r) = (Inr (400, error_json (lit ''invalid json'')), Some r)
      \<or> handle_evaluate env exc_text rd raw (Some r) = (Inr (400, error_json (lit ''invalid request: '' @ exc_str exc_text e)), Some r)"
      by (auto simp: andthen_eq_Inl handle_evaluate_def)
    with r show ?thesis by (elim disjE) (intro exI conjI, assumption, assumption, simp)+
  next
    case (Inr req)
    obtain d gs where "evaluate env (sv_keys r) (sv_store r) (rd_ticket rd) req (rd_now rd) (sv_gateway r) = (Inr d, gs)"
      "counter (sv_gateway r) \<le> d_sequence d" "d_sequence d < counter gs"
      using evaluate_total [OF c, of env "sv_keys r" "sv_store r" "rd_ticket rd" req "rd_now rd"]
      by (auto simp: well_formed_step_def)
    with Inr c kept [of gs] show ?thesis by (auto simp: andthen_eq_Inr handle_evaluate_def ensure_def)
  qed
  have rev: "\<exists>code payload r'. handle_revoke env exc_text rd raw (Some r) = (Inr (code, payload), Some r')
      \<and> running_ok r' \<and> code \<in> {200, 400, 404}"
  proof (cases "andthen (decode_payload raw) (\<lambda>j. json_item j (lit ''asset_id''))")
    case (Inl e)
    with r show ?thesis by (simp add: handle_revoke_def)
  next
    case (Inr v)
    then obtain j where j: "decode_payload raw = Inr j" "json_item j (lit ''asset_id'') = Inr v"
      by (auto simp: andthen_eq_Inr)
    show ?thesis
    proof (cases "contains_asset (sv_store r) (json_str env v)")
      case True
      from handle_revoke_known [OF r True j refl ns] show ?thesis by blast
    next
      case False
      then obtain e where "withdraw (sv_store r) (json_str env v) (rd_withdraw_ns rd) () = Inl e"
        using withdraw_defined [of "sv_store r" "json_str env v" "rd_withdraw_ns rd" "()"]
        by (cases "withdraw (sv_store r) (json_str env v) (rd_withdraw_ns rd) ()") auto
      with r j show ?thesis by (simp add: handle_revoke_def ensure_def)
    qed
  qed
  show ?thesis using ev rev r by (simp add: do_post_def)
qed

definition reading_text :: "reading \<Rightarrow> bool" where
  "reading_text rd \<longleftrightarrow> length (str_int (rd_ns rd)) \<le> 100 \<and> float_repr (rd_elapsed rd)"

lemma serve_keeps:
  assumes "running_ok r" "reading_text rd"
  shows "\<exists>r'. snd (serve env exc_text rd rq (Some r)) = Some r' \<and> running_ok r'"
proof (cases rq)
  case (Post path h stream)
  show ?thesis
  proof (cases "read_body env h stream")
    case (Inr raw)
    obtain code payload r' where "do_post env exc_text rd path raw (Some r) = (Inr (code, payload), Some r')" "running_ok r'"
      using do_post_total [OF assms(1)] assms(2) unfolding reading_text_def by blast
    with Post Inr show ?thesis by (simp add: serve_post_def)
  qed (use Post assms(1) in \<open>simp add: serve_post_def\<close>)
qed (use assms(1) in simp)

lemma serve_all_keeps:
  "running_ok r \<Longrightarrow> \<forall>(rd, rq)\<in>set reqs. reading_text rd \<Longrightarrow>
     \<exists>r'. snd (serve_all env exc_text (Some r) reqs) = Some r' \<and> running_ok r'"
proof (induction reqs arbitrary: r)
  case (Cons req reqs)
  obtain rd rq where req: "req = (rd, rq)" by (cases req)
  obtain reply sv where s: "serve env exc_text rd rq (Some r) = (reply, sv)" by force
  with serve_keeps [OF Cons.prems(1), of rd env exc_text rq] Cons.prems(2) req
  obtain r' where "sv = Some r'" "running_ok r'" by auto
  with Cons.IH [of r'] Cons.prems(2) s req show ?case by (auto split: prod.split)
qed simp

lemma service_main_Inr:
  assumes "service_main env since until host port = Inr srv" "dt_lt since until = Inr True"
  shows "se_state srv = Some (seeded since until)"
  using assms build_gateway_eq [OF assms(2), of env] by (auto simp: service_main_def ensure_def)

text \<open>What a request that arrives after any others is answered.\<close>

theorem service_answers:
  assumes "conversions_ok env" "texts_ok env exc_text"
    and "dt_lt since until = Inr True" "service_main env since until host port = Inr srv"
    and "\<forall>(rd, rq)\<in>set reqs. reading_text rd" "reading_text rd"
    and "snd (serve_all env exc_text (se_state srv) reqs) = sv" "read_body env h stream = Inr raw"
  shows "\<exists>code payload sv' rp. do_post env exc_text rd path raw sv = (Inr (code, payload), sv')
    \<and> code \<in> {200, 400, 404} \<and> serve env exc_text rd (Post path h stream) sv = (Inr rp, sv')
    \<and> reply_carries rp code payload"
proof -
  obtain r where r: "sv = Some r" "running_ok r"
    using serve_all_keeps [OF seeded_ok assms(5)] service_main_Inr [OF assms(4,3)] assms(7) by metis
  obtain code payload r' where post: "do_post env exc_text rd path raw sv = (Inr (code, payload), Some r')" "code \<in> {200, 400, 404}"
    using do_post_total [OF r(2)] assms(6) r(1) unfolding reading_text_def by blast
  have "float_repr (rd_elapsed rd)" using assms(6) by (simp add: reading_text_def)
  from serve_post_reply [OF assms(1,2) this assms(8), of path r] post r(1) show ?thesis by auto
qed

end
