(* ===== verification/ServiceThreadsProofs.thy ===== *)
theory ServiceThreadsProofs
  imports ServiceThreads ThreadsProofs Http
begin

text \<open>
  The properties of \<open>ServiceThreads\<close>. A step of the pool is a step of one job together with a few
  steps of the threads of \<open>Threads\<close>, so what holds of these under every interleaving holds of the
  service; the jobs add that every request is answered, and what a revocation guarantees to the
  requests after it.
\<close>

subsection \<open>The queue and the stages\<close>

lemma set_stage_sel [simp]:
  "p_race (set_stage s j st) = p_race s" "length (p_jobs (set_stage s j st)) = length (p_jobs s)"
  "i \<noteq> j \<Longrightarrow> p_jobs (set_stage s j st) ! i = p_jobs s ! i"
  "j < length (p_jobs s) \<Longrightarrow> p_jobs (set_stage s j st) ! j = (p_jobs s ! j)\<lparr>j_stage := st\<rparr>"
  by (simp_all add: set_stage_def)

lemma is_waiting_iff: "is_waiting st \<longleftrightarrow> st = Waiting"
  by (cases st) simp_all

lemma is_replied_iff: "is_replied st \<longleftrightarrow> (\<exists>r. st = Replied r)"
  by (cases st) simp_all

lemma first_waiting_Some: "first_waiting jbs = Some j \<Longrightarrow> j < length jbs \<and> j_stage (jbs ! j) = Waiting"
  by (induction jbs arbitrary: j) (auto simp: is_waiting_iff split: if_splits)

lemma first_waiting_None: "first_waiting jbs = None \<longleftrightarrow> (\<forall>jb\<in>set jbs. j_stage jb \<noteq> Waiting)"
  by (induction jbs) (auto simp: is_waiting_iff)

fun stage_thread :: "stage \<Rightarrow> nat option" where
  "stage_thread (Judging i) = Some i"
| "stage_thread (Rechecking aid i) = Some i"
| "stage_thread _ = None"

definition post_task :: "pyenv \<Rightarrow> (exn \<Rightarrow> str) \<Rightarrow> post \<Rightarrow> task" where
  "post_task env exc_text jb = first_task env exc_text (j_reading jb) (j_path jb) (j_raw jb)"

lemma post_task_stage [simp]: "post_task env exc_text (jb\<lparr>j_stage := st\<rparr>) = post_task env exc_text jb"
  by (simp add: post_task_def)

lemma answer_now:
  "first_task env exc_text rd path raw = Answer_now r \<Longrightarrow> \<exists>code payload. r = Inr (code, payload) \<and> code \<in> {400, 404}"
  by (auto simp: first_task_def split: if_splits sum.splits)

subsection \<open>A step of the pool in steps of the gateway's threads\<close>

text \<open>\<open>moves s j opns st\<close>: the step of job \<open>j\<close> is \<open>opns\<close> among the threads, and takes it to \<open>st\<close>.\<close>

inductive moves ::
    "pyenv \<Rightarrow> (exn \<Rightarrow> str) \<Rightarrow> keyring \<Rightarrow> pool \<Rightarrow> nat \<Rightarrow> unit race_op list \<Rightarrow> stage \<Rightarrow> bool"
  for env exc_text keys s j where
  answered: "j_stage (p_jobs s ! j) = Waiting \<Longrightarrow> post_task env exc_text (p_jobs s ! j) = Answer_now r \<Longrightarrow>
     moves env exc_text keys s j [] (Replied r)"
| judging: "j_stage (p_jobs s ! j) = Waiting \<Longrightarrow> post_task env exc_text (p_jobs s ! j) = To_evaluate req \<Longrightarrow>
     rd = j_reading (p_jobs s ! j) \<Longrightarrow>
     moves env exc_text keys s j [Arrive req (rd_now rd) (rd_ticket rd)] (Judging (length (r_threads (p_race s))))"
| withdrawing: "j_stage (p_jobs s ! j) = Waiting \<Longrightarrow> post_task env exc_text (p_jobs s ! j) = To_withdraw aid \<Longrightarrow>
     moves env exc_text keys s j [] (Withdrawing aid)"
| unknown: "j_stage (p_jobs s ! j) = Withdrawing aid \<Longrightarrow> \<not> contains_asset (r_store (p_race s)) aid \<Longrightarrow>
     moves env exc_text keys s j [] (Replied (Inr (404, error_json (exc_str exc_text e))))"
| rejected: "j_stage (p_jobs s ! j) = Withdrawing aid \<Longrightarrow> contains_asset (r_store (p_race s)) aid \<Longrightarrow>
     rd = j_reading (p_jobs s ! j) \<Longrightarrow> checked_request (probe_request rd aid) = Inl e \<Longrightarrow>
     moves env exc_text keys s j [StoreOp (OpWithdraw aid (rd_withdraw_ns rd))] (Replied (Inl e))"
| rechecking: "j_stage (p_jobs s ! j) = Withdrawing aid \<Longrightarrow> contains_asset (r_store (p_race s)) aid \<Longrightarrow>
     rd = j_reading (p_jobs s ! j) \<Longrightarrow> checked_request (probe_request rd aid) = Inr req \<Longrightarrow>
     moves env exc_text keys s j
       [StoreOp (OpWithdraw aid (rd_withdraw_ns rd)), Arrive req (rd_now rd) (rd_ticket rd)]
       (Rechecking aid (length (r_threads (p_race s))))"
| runs: "stage_thread (j_stage (p_jobs s ! j)) = Some i \<Longrightarrow>
     \<forall>r. t_phase (r_threads (race_step env keys (p_race s) (Run i)) ! i) \<noteq> Finished r \<Longrightarrow>
     moves env exc_text keys s j [Run i] (j_stage (p_jobs s ! j))"
| judged: "j_stage (p_jobs s ! j) = Judging i \<Longrightarrow>
     t_phase (r_threads (race_step env keys (p_race s) (Run i)) ! i) = Finished r \<Longrightarrow>
     moves env exc_text keys s j [Run i] (Replied (evaluate_reply r))"
| rechecked: "j_stage (p_jobs s ! j) = Rechecking aid i \<Longrightarrow>
     t_phase (r_threads (race_step env keys (p_race s) (Run i)) ! i) = Finished r \<Longrightarrow>
     moves env exc_text keys s j [Run i] (Replied (revoke_reply (j_reading (p_jobs s ! j)) r))"

definition move_to :: "pyenv \<Rightarrow> keyring \<Rightarrow> pool \<Rightarrow> nat \<Rightarrow> unit race_op list \<Rightarrow> stage \<Rightarrow> pool" where
  "move_to env keys s j opns st = set_stage (s\<lparr>p_race := foldl (race_step env keys) (p_race s) opns\<rparr>) j st"

lemma move_to_sel [simp]:
  "p_race (move_to env keys s j opns st) = foldl (race_step env keys) (p_race s) opns"
  "length (p_jobs (move_to env keys s j opns st)) = length (p_jobs s)"
  "p_jobs (move_to env keys s j opns st) = (p_jobs s)[j := (p_jobs s ! j)\<lparr>j_stage := st\<rparr>]"
  by (simp_all add: move_to_def set_stage_def)

text \<open>The steps that do something.\<close>

fun pool_useful :: "pool \<Rightarrow> pool_op \<Rightarrow> bool" where
  "pool_useful s (Posted rd path raw) = False"
| "pool_useful s Take = can_take s"
| "pool_useful s (Go j) = (j < length (p_jobs s) \<and> at_work (p_jobs s ! j))"

lemma moves_toI:
  "moves env exc_text keys s j opns st \<Longrightarrow> s' = move_to env keys s j opns st \<Longrightarrow>
     \<exists>opns st. moves env exc_text keys s j opns st \<and> s' = move_to env keys s j opns st"
  by blast

lemma take_moves:
  assumes "j_stage (p_jobs s ! j) = Waiting"
  shows "\<exists>opns st. moves env exc_text keys s j opns st \<and> take_job env exc_text keys s j = move_to env keys s j opns st"
proof (cases "post_task env exc_text (p_jobs s ! j)")
  case (Answer_now r)
  show ?thesis
    by (rule moves_toI [OF moves.answered [OF assms Answer_now]]) (use Answer_now in \<open>simp add: take_job_def Let_def post_task_def move_to_def\<close>)
next
  case (To_evaluate req)
  show ?thesis
    by (rule moves_toI [OF moves.judging [OF assms To_evaluate refl]])
      (use To_evaluate in \<open>simp add: take_job_def Let_def post_task_def move_to_def start_evaluation_def del: race_step.simps\<close>)
next
  case (To_withdraw aid)
  show ?thesis
    by (rule moves_toI [OF moves.withdrawing [OF assms To_withdraw]])
      (use To_withdraw in \<open>simp add: take_job_def Let_def post_task_def move_to_def\<close>)
qed

lemma withdraw_race:
  "withdraw (r_store s) aid ns (r_aux s) = Inr (a, store, x) \<Longrightarrow>
     s\<lparr>r_store := store, r_aux := x\<rparr> = race_step env keys s (StoreOp (OpWithdraw aid ns))"
  by simp

lemma withdraw_moves:
  assumes st: "j_stage (p_jobs s ! j) = Withdrawing aid"
  shows "\<exists>opns st. moves env exc_text keys s j opns st \<and> withdraw_step env exc_text keys s j aid = move_to env keys s j opns st"
proof -
  define rd where "rd = j_reading (p_jobs s ! j)"
  show ?thesis
  proof (cases "withdraw (r_store (p_race s)) aid (rd_withdraw_ns rd) (r_aux (p_race s))")
    case (Inl e)
    then have "\<not> contains_asset (r_store (p_race s)) aid" by (simp flip: withdraw_defined [of _ _ "rd_withdraw_ns rd" "r_aux (p_race s)"])
    from moves_toI [OF moves.unknown [OF st this, of env exc_text keys e]] Inl show ?thesis
      by (simp add: withdraw_step_def Let_def move_to_def flip: rd_def)
  next
    case (Inr r)
    then obtain a store where w: "withdraw (r_store (p_race s)) aid (rd_withdraw_ns rd) (r_aux (p_race s)) = Inr (a, store, ())"
      by (cases r) auto
    then have c: "contains_asset (r_store (p_race s)) aid" using withdraw_defined by metis
    note race = withdraw_race [OF w, of env keys]
    have len: "length (r_threads (race_step env keys (p_race s) (StoreOp (OpWithdraw aid (rd_withdraw_ns rd))))) =
        length (r_threads (p_race s))" using w by simp
    show ?thesis
    proof (cases "checked_request (probe_request rd aid)")
      case (Inl e)
      show ?thesis
        by (rule moves_toI [OF moves.rejected [OF st c rd_def Inl]])
          (use Inl w in \<open>simp add: withdraw_step_def Let_def move_to_def race del: race_step.simps flip: rd_def\<close>)
    next
      case (Inr req)
      show ?thesis
        by (rule moves_toI [OF moves.rechecking [OF st c rd_def Inr]])
          (use Inr w in \<open>simp add: withdraw_step_def Let_def move_to_def start_evaluation_def race len
            del: race_step.simps flip: rd_def\<close>)
    qed
  qed
qed

lemma gateway_moves:
  assumes "stage_thread (j_stage (p_jobs s ! j)) = Some i"
    and "\<And>r. t_phase (r_threads (race_step env keys (p_race s) (Run i)) ! i) = Finished r \<Longrightarrow>
      moves env exc_text keys s j [Run i] (Replied (reply r))"
  shows "\<exists>opns st. moves env exc_text keys s j opns st \<and> gateway_step env keys s j i reply = move_to env keys s j opns st"
proof (cases "\<exists>r. t_phase (r_threads (race_step env keys (p_race s) (Run i)) ! i) = Finished r")
  case True
  then obtain r where r: "t_phase (r_threads (race_step env keys (p_race s) (Run i)) ! i) = Finished r" by blast
  show ?thesis
    by (rule moves_toI [OF assms(2) [OF r]]) (use r in \<open>simp add: gateway_step_def Let_def move_to_def del: race_step.simps\<close>)
next
  case False
  then have m: "moves env exc_text keys s j [Run i] (j_stage (p_jobs s ! j))"
    by (intro moves.runs [OF assms(1)]) simp
  have "(p_jobs s)[j := p_jobs s ! j] = p_jobs s" by simp
  with False show ?thesis
    by (intro moves_toI [OF m])
      (simp add: gateway_step_def Let_def move_to_def set_stage_def del: race_step.simps split: phase.split)
qed

lemma useful_moves:
  assumes "pool_useful s opn"
  shows "\<exists>j opns st. j < length (p_jobs s) \<and> moves env exc_text keys s j opns st
    \<and> pool_step env exc_text keys s opn = move_to env keys s j opns st
    \<and> (at_work (p_jobs s ! j) \<or> can_take s)"
proof (cases opn)
  case Take
  with assms obtain j where j: "first_waiting (p_jobs s) = Some j" "can_take s" by (auto simp: can_take_def)
  with take_moves [of s j env exc_text keys] first_waiting_Some [OF j(1)] show ?thesis by (auto simp: Take)
next
  case (Go j)
  with assms have j: "j < length (p_jobs s)" "at_work (p_jobs s ! j)" by simp_all
  have "\<exists>opns st. moves env exc_text keys s j opns st \<and> post_step env exc_text keys s j = move_to env keys s j opns st"
  proof (cases "j_stage (p_jobs s ! j)")
    case (Withdrawing aid)
    with withdraw_moves [OF this] show ?thesis by (simp add: post_step_def)
  next
    case (Judging i)
    with gateway_moves [of s j i env keys exc_text evaluate_reply] moves.judged [OF Judging] show ?thesis
      by (simp add: post_step_def)
  next
    case (Rechecking aid i)
    with gateway_moves [of s j i env keys exc_text "revoke_reply (j_reading (p_jobs s ! j))"] moves.rechecked [OF Rechecking]
    show ?thesis by (simp add: post_step_def)
  qed (use j(2) in \<open>simp_all add: at_work_def\<close>)
  with j Go show ?thesis unfolding Go by (intro exI [of _ j]) auto
qed (use assms in simp)

lemma useless_step:
  "\<not> pool_useful s opn \<Longrightarrow> \<forall>rd path raw. opn \<noteq> Posted rd path raw \<Longrightarrow> pool_step env exc_text keys s opn = s"
  by (cases opn) (auto simp: can_take_def post_step_def at_work_def split: option.split stage.split)

subsection \<open>What is known of a job\<close>

definition works_on :: "unit race \<Rightarrow> nat \<Rightarrow> policy_request \<Rightarrow> bool" where
  "works_on race i req \<longleftrightarrow> i < length (r_threads race) \<and> t_req (r_threads race ! i) = req \<and> 0 < left (r_threads race ! i)"

definition revoked_reply :: "reading \<Rightarrow> exn + response" where
  "revoked_reply rd =
     Inr (200, JObj [(lit ''revoked'', JBool True), (lit ''blocked'', JBool True),
                     (lit ''revoke_to_block_ms'', JFloat (rd_elapsed rd))])"

definition right_reply :: "pyenv \<Rightarrow> (exn \<Rightarrow> str) \<Rightarrow> unit race \<Rightarrow> post \<Rightarrow> exn + response \<Rightarrow> bool" where
  "right_reply env exc_text race jb r \<longleftrightarrow>
     (case post_task env exc_text jb of
        Answer_now r' \<Rightarrow> r = r'
      | To_evaluate req \<Rightarrow> (\<exists>d. r = evaluate_reply (Inr d) \<and> decision_ok d \<and> d_request_id d = req_id req)
      | To_withdraw aid \<Rightarrow>
          store_withdrawn race aid \<and> r = revoked_reply (j_reading jb)
          \<or> (\<exists>e. r = Inr (404, error_json (exc_str exc_text e))))"

definition post_ok :: "pyenv \<Rightarrow> (exn \<Rightarrow> str) \<Rightarrow> unit race \<Rightarrow> post \<Rightarrow> bool" where
  "post_ok env exc_text race jb \<longleftrightarrow>
     (case j_stage jb of
        Waiting \<Rightarrow> True
      | Withdrawing aid \<Rightarrow> post_task env exc_text jb = To_withdraw aid
      | Judging i \<Rightarrow> (\<exists>req. post_task env exc_text jb = To_evaluate req \<and> works_on race i req)
      | Rechecking aid i \<Rightarrow>
          post_task env exc_text jb = To_withdraw aid \<and> works_on race i (probe_request (j_reading jb) aid)
          \<and> store_withdrawn race aid \<and> reads_withdrawn aid (r_threads race ! i)
      | Replied r \<Rightarrow> right_reply env exc_text race jb r)"

lemma works_on_step:
  "works_on race i req \<Longrightarrow> opn \<noteq> Run i \<Longrightarrow> works_on (race_step env keys race opn) i req"
  by (simp add: works_on_def race_step_thread)

lemma right_reply_step:
  "right_reply env exc_text race jb r \<Longrightarrow> right_reply env exc_text (race_step env keys race opn) jb r"
  by (auto simp: right_reply_def store_withdrawn_step split: task.splits)

lemma post_ok_step:
  assumes "post_ok env exc_text race jb" "\<forall>i. stage_thread (j_stage jb) = Some i \<longrightarrow> opn \<noteq> Run i"
  shows "post_ok env exc_text (race_step env keys race opn) jb"
proof (cases "j_stage jb")
  case (Rechecking aid i)
  with assms have o: "store_withdrawn race aid" "works_on race i (probe_request (j_reading jb) aid)"
    "reads_withdrawn aid (r_threads race ! i)" "opn \<noteq> Run i" by (simp_all add: post_ok_def)
  then have "r_threads (race_step env keys race opn) ! i = r_threads race ! i"
    by (simp add: works_on_def race_step_thread(4))
  with o assms(1) Rechecking show ?thesis by (simp add: post_ok_def works_on_step store_withdrawn_step)
qed (use assms in \<open>auto simp: post_ok_def works_on_step right_reply_step\<close>)

lemma post_ok_run:
  "post_ok env exc_text race jb \<Longrightarrow> \<forall>i. stage_thread (j_stage jb) = Some i \<longrightarrow> Run i \<notin> set opns \<Longrightarrow>
     post_ok env exc_text (foldl (race_step env keys) race opns) jb"
proof (induction opns arbitrary: race)
  case (Cons opn opns)
  from Cons.prems have "post_ok env exc_text (race_step env keys race opn) jb"
    by (intro post_ok_step) auto
  with Cons.IH [OF this] Cons.prems(2) show ?case by simp
qed simp

lemma stage_thread_present:
  "post_ok env exc_text race jb \<Longrightarrow> stage_thread (j_stage jb) = Some i \<Longrightarrow>
     i < length (r_threads race) \<and> 0 < left (r_threads race ! i)"
  by (cases "j_stage jb") (auto simp: post_ok_def works_on_def)

subsection \<open>The invariant of the pool\<close>

definition pool_inv :: "pyenv \<Rightarrow> (exn \<Rightarrow> str) \<Rightarrow> keyring \<Rightarrow> pool \<Rightarrow> bool" where
  "pool_inv env exc_text keys s \<longleftrightarrow>
     race_reach env keys (p_race s) \<and> running_ok (pool_running keys s)
     \<and> (\<forall>jb\<in>set (p_jobs s). post_ok env exc_text (p_race s) jb \<and> reading_text (j_reading jb))
     \<and> apart (stage_thread \<circ> j_stage) (p_jobs s)"

lemma pool_start_inv: "running_ok r \<Longrightarrow> pool_inv env exc_text (sv_keys r) (pool_start r)"
  using race_reach.start [of "sv_gateway r" env "sv_keys r" "sv_store r" "()"]
  by (simp add: pool_inv_def pool_start_def race_start_def pool_running_def apart_def running_ok_def)

text \<open>The pool withdraws assets, and registers none.\<close>

fun service_op :: "unit race_op \<Rightarrow> bool" where
  "service_op (StoreOp (OpWithdraw k ns)) = True"
| "service_op (StoreOp _) = False"
| "service_op _ = True"

lemma moves_service: "moves env exc_text keys s j opns st \<Longrightarrow> \<forall>opn\<in>set opns. service_op opn"
  by (cases rule: moves.cases) auto

definition race_running :: "keyring \<Rightarrow> unit race \<Rightarrow> running" where
  "race_running keys race = \<lparr>sv_gateway = r_gate race, sv_keys = keys, sv_store = r_store race\<rparr>"

lemma running_step:
  assumes "race_inv env keys race" "running_ok (race_running keys race)" "service_op opn"
  shows "running_ok (race_running keys (race_step env keys race opn))"
proof (cases opn)
  case (Run i)
  with assms race_step_inv [OF assms(1), of opn] show ?thesis
    by (auto simp: running_ok_def race_running_def race_inv_def split: prod.splits)
next
  case (StoreOp so)
  with assms(3) obtain k ns where so: "so = OpWithdraw k ns" by (cases so) auto
  show ?thesis
  proof (cases "withdraw (r_store race) k ns ()")
    case (Inr w)
    then obtain a store where w: "withdraw (r_store race) k ns () = Inr (a, store, ())" by (cases w) auto
    with withdraw_unit [OF w] assms(2) show ?thesis by (auto simp: StoreOp so running_ok_def race_running_def)
  qed (use assms(2) in \<open>simp add: StoreOp so running_ok_def race_running_def\<close>)
qed (use assms(2) in \<open>simp add: race_running_def\<close>)

lemma running_run:
  "race_inv env keys race \<Longrightarrow> running_ok (race_running keys race) \<Longrightarrow> \<forall>opn\<in>set opns. service_op opn \<Longrightarrow>
     running_ok (race_running keys (foldl (race_step env keys) race opns))"
  by (induction opns arbitrary: race) (simp_all add: running_step race_step_inv del: race_step.simps)

text \<open>The job that moves.\<close>

lemma finished_job:
  assumes "race_reach env keys race" "works_on race i req"
    and "t_phase (r_threads (race_step env keys race (Run i)) ! i) = Finished r"
  shows "\<exists>d. r = Inr d \<and> decision_ok d \<and> d_request_id d = req_id req"
proof -
  have i: "i < length (r_threads race)" "t_req (r_threads race ! i) = req" using assms(2) by (simp_all add: works_on_def)
  have "thread_ok env keys (r_gate (race_step env keys race (Run i))) (r_threads (race_step env keys race (Run i)) ! i)"
    using race_reach_inv [OF race_reach.step [OF assms(1)]] race_step_thread(1) [OF i(1)]
    by (simp add: race_inv_def del: race_step.simps)
  with assms(3) race_step_thread(2) [OF i(1), of env keys "Run i"] i(2) show ?thesis
    by (auto simp: thread_ok_def simp del: race_step.simps)
qed

lemma works_on_new: "works_on (race_step env keys race (Arrive req now rand)) (length (r_threads race)) req"
  by (simp add: works_on_def new_thread_left)

lemma works_on_runs:
  assumes "works_on race i req" "\<forall>r. t_phase (r_threads (race_step env keys race (Run i)) ! i) \<noteq> Finished r"
  shows "works_on (race_step env keys race (Run i)) i req"
  using assms left_0 [of "r_threads (race_step env keys race (Run i)) ! i"]
  by (simp add: works_on_def race_step_thread del: race_step.simps)

lemma probe_passes:
  assumes "running_ok (race_running keys race)" "contains_asset (r_store race) aid" "reading_text rd"
  shows "checked_request (probe_request rd aid) = Inr (probe_request rd aid)"
  using assms by (intro probe_checked) (auto simp: running_ok_def race_running_def contains_asset_def reading_text_def)

lemma probe_blocked:
  assumes "race_reach env keys race" "works_on race i req" "req_asset_id req = aid"
    and "store_withdrawn race aid" "reads_withdrawn aid (r_threads race ! i)"
    and "t_phase (r_threads (race_step env keys race (Run i)) ! i) = Finished (Inr d)"
  shows "d_state d = BLOCKED"
proof -
  define race' where "race' = race_step env keys race (Run i)"
  have i: "i < length (r_threads race)" "t_req (r_threads race ! i) = req" using assms(2) by (simp_all add: works_on_def)
  have i': "i < length (r_threads race')" "t_req (r_threads race' ! i) = req"
    unfolding race'_def by (simp_all only: race_step_thread(1,2) [OF i(1)] i(2))
  have "thread_ok env keys (r_gate race') (r_threads race' ! i)"
    using race_reach_inv [OF race_reach.step [OF assms(1)]] i' by (simp add: race_inv_def race'_def del: race_step.simps)
  moreover have "reads_withdrawn aid (r_threads race' ! i)"
    using reads_withdrawn_step [OF assms(4)] assms(5) i'(1) unfolding race'_def by blast
  ultimately show ?thesis
    by (rule reads_withdrawn_blocked) (use assms(3) assms(6) [folded race'_def] i' in simp_all)
qed

lemma moved_post_ok:
  assumes "pool_inv env exc_text keys s" "j < length (p_jobs s)" "moves env exc_text keys s j opns st"
  shows "post_ok env exc_text (foldl (race_step env keys) (p_race s) opns) ((p_jobs s ! j)\<lparr>j_stage := st\<rparr>)"
proof -
  let ?jb = "p_jobs s ! j" and ?race = "p_race s"
  have reach: "race_reach env keys ?race" and ok: "post_ok env exc_text ?race ?jb" and rt: "reading_text (j_reading ?jb)"
    and run: "running_ok (race_running keys ?race)"
    using assms(1,2) by (simp_all add: pool_inv_def pool_running_def race_running_def)
  note job = post_ok_def right_reply_def
  from assms(3) show ?thesis
  proof cases
    case (answered r)
    then show ?thesis by (simp add: job)
  next
    case (judging req rd)
    then show ?thesis by (simp add: job works_on_new del: race_step.simps)
  next
    case (withdrawing aid)
    then show ?thesis by (simp add: job)
  next
    case (unknown aid e)
    with ok show ?thesis by (auto simp: job)
  next
    case (rejected aid rd e)
    with probe_passes [OF run rejected(4) rt] show ?thesis by simp
  next
    case (rechecking aid rd req)
    have req: "req = probe_request (j_reading ?jb) aid"
      using rechecking probe_passes [OF run rechecking(4) rt] by simp
    define race1 where "race1 = race_step env keys ?race (StoreOp (OpWithdraw aid (rd_withdraw_ns rd)))"
    define race2 where "race2 = race_step env keys race1 (Arrive req (rd_now rd) (rd_ticket rd))"
    have w: "store_withdrawn race1 aid" unfolding race1_def by (rule store_withdraw_race [OF rechecking(4)])
    have n: "length (r_threads ?race) = length (r_threads race1)"
      by (simp add: race1_def split: prod.split)
    have "r_threads race2 ! length (r_threads race1) = new_thread req (rd_now rd) (rd_ticket rd)"
      by (simp add: race2_def)
    then have "reads_withdrawn aid (r_threads race2 ! length (r_threads race1))"
      by (simp add: reads_withdrawn_def)
    moreover have "store_withdrawn race2 aid" unfolding race2_def by (rule store_withdrawn_step [OF w])
    moreover have "works_on race2 (length (r_threads race1)) req" unfolding race2_def by (rule works_on_new)
    ultimately have "post_ok env exc_text race2 (?jb\<lparr>j_stage := st\<rparr>)"
      using ok rechecking(2,3) req n by (simp add: job)
    then show ?thesis using rechecking(1) by (simp add: race2_def race1_def del: race_step.simps)
  next
    case (runs i)
    note step = works_on_runs [OF _ runs(4)]
    show ?thesis
    proof (cases "j_stage ?jb")
      case (Rechecking aid i')
      with ok runs(3) have o: "works_on ?race i (probe_request (j_reading ?jb) aid)" "store_withdrawn ?race aid"
        "reads_withdrawn aid (r_threads ?race ! i)" "i < length (r_threads ?race)" by (simp_all add: job works_on_def)
      have "reads_withdrawn aid (r_threads (race_step env keys ?race (Run i)) ! i)"
        by (rule reads_withdrawn_step [OF o(2,3) race_step_thread(1) [OF o(4)]])
      with o step ok Rechecking runs(1-3) show ?thesis
        by (simp add: job store_withdrawn_step del: race_step.simps)
    qed (use ok step runs(1-3) in \<open>auto simp: job simp del: race_step.simps\<close>)
  next
    case (judged i r)
    with ok obtain req where "post_task env exc_text ?jb = To_evaluate req" "works_on ?race i req" by (auto simp: job)
    with finished_job [OF reach _ judged(4)] judged(2) show ?thesis by (auto simp: job simp del: race_step.simps)
  next
    case (rechecked aid i r)
    with ok have o: "works_on ?race i (probe_request (j_reading ?jb) aid)" "store_withdrawn ?race aid"
      "reads_withdrawn aid (r_threads ?race ! i)" "post_task env exc_text ?jb = To_withdraw aid" by (simp_all add: job)
    from finished_job [OF reach o(1) rechecked(4)] obtain d where d: "r = Inr d" by blast
    have "req_asset_id (probe_request (j_reading ?jb) aid) = aid" by (simp add: probe_request_def)
    from probe_blocked [OF reach o(1) this o(2,3) rechecked(4) [unfolded d]] o(2,4) rechecked(1,2) d show ?thesis
      by (simp add: job revoke_reply_def revoked_reply_def store_withdrawn_step del: race_step.simps)
  qed
qed

lemma moves_thread:
  assumes "moves env exc_text keys s j opns st" "Run i \<in> set opns"
  shows "stage_thread (j_stage (p_jobs s ! j)) = Some i"
  using assms by (cases rule: moves.cases) auto

lemma moves_stage_thread:
  assumes "moves env exc_text keys s j opns st" "stage_thread st = Some i"
  shows "stage_thread (j_stage (p_jobs s ! j)) = Some i \<or> i = length (r_threads (p_race s))"
  using assms by (cases rule: moves.cases) auto

lemma move_to_inv:
  assumes inv: "pool_inv env exc_text keys s" and j: "j < length (p_jobs s)" and m: "moves env exc_text keys s j opns st"
  shows "pool_inv env exc_text keys (move_to env keys s j opns st)"
proof -
  let ?race = "foldl (race_step env keys) (p_race s) opns" and ?jb = "(p_jobs s ! j)\<lparr>j_stage := st\<rparr>"
  let ?f = "stage_thread \<circ> j_stage"
  have reach: "race_reach env keys (p_race s)" and run: "running_ok (race_running keys (p_race s))"
    and jobs: "\<forall>jb\<in>set (p_jobs s). post_ok env exc_text (p_race s) jb \<and> reading_text (j_reading jb)"
    and ap: "apart ?f (p_jobs s)"
    using inv by (simp_all add: pool_inv_def pool_running_def race_running_def)
  have others: "post_ok env exc_text ?race (p_jobs s ! k)" if k: "k < length (p_jobs s)" "k \<noteq> j" for k
  proof (rule post_ok_run)
    show "\<forall>i. stage_thread (j_stage (p_jobs s ! k)) = Some i \<longrightarrow> Run i \<notin> set opns"
      using moves_thread [OF m] ap j k unfolding apart_def by fastforce
  qed (use jobs k in simp)
  have "post_ok env exc_text ?race ((p_jobs s)[j := ?jb] ! k)" if "k < length (p_jobs s)" for k
    using others [OF that] moved_post_ok [OF inv j m] that by (cases "k = j") simp_all
  then have "\<forall>jb\<in>set ((p_jobs s)[j := ?jb]). post_ok env exc_text ?race jb" by (auto simp: set_conv_nth)
  moreover have "\<forall>jb\<in>set ((p_jobs s)[j := ?jb]). reading_text (j_reading jb)"
    using jobs j set_update_subset_insert [of "p_jobs s" j ?jb] by auto
  moreover have "apart ?f ((p_jobs s)[j := ?jb])"
  proof (cases "stage_thread st = None \<or> stage_thread st = ?f (p_jobs s ! j)")
    case True
    have "apart ?f ((p_jobs s)[j := ?jb])" if "stage_thread st = None"
      using ap that j by (auto simp: apart_def nth_list_update)
    with True show ?thesis using apart_update [OF ap j, of ?jb] by auto
  next
    case False
    then obtain i where "stage_thread st = Some i" "stage_thread (j_stage (p_jobs s ! j)) \<noteq> Some i" by auto
    with moves_stage_thread [OF m] have "stage_thread st = Some (length (r_threads (p_race s)))" by auto
    then have "?f jb \<noteq> ?f ?jb" if "jb \<in> set (p_jobs s)" for jb
      using jobs that stage_thread_present [of env exc_text "p_race s" jb] by auto
    then have "?f ?jb \<notin> ?f ` set (p_jobs s)" by (metis imageE)
    with apart_update [OF ap j, of ?jb] show ?thesis by blast
  qed
  ultimately show ?thesis
    using race_run_reach [OF reach, of opns] running_run [OF race_reach_inv [OF reach] run moves_service [OF m]]
    by (simp add: pool_inv_def pool_running_def race_running_def)
qed

definition posted_text :: "pool_op \<Rightarrow> bool" where
  "posted_text opn = (case opn of Posted rd path raw \<Rightarrow> reading_text rd | _ \<Rightarrow> True)"

lemma pool_step_inv:
  assumes "pool_inv env exc_text keys s" "posted_text opn"
  shows "pool_inv env exc_text keys (pool_step env exc_text keys s opn)"
proof (cases "pool_useful s opn")
  case True
  from useful_moves [OF True] obtain j opns st where "j < length (p_jobs s)" "moves env exc_text keys s j opns st"
    "pool_step env exc_text keys s opn = move_to env keys s j opns st" by blast
  with move_to_inv [OF assms(1)] show ?thesis by simp
next
  case False
  show ?thesis
  proof (cases "\<exists>rd path raw. opn = Posted rd path raw")
    case True
    then obtain rd path raw where opn: "opn = Posted rd path raw" by blast
    have "post_ok env exc_text (p_race s) (new_post rd path raw)" by (simp add: post_ok_def new_post_def)
    moreover have "apart (stage_thread \<circ> j_stage) (p_jobs s @ [new_post rd path raw])"
      using assms(1) by (intro apart_snoc) (simp_all add: pool_inv_def new_post_def)
    moreover have "reading_text (j_reading (new_post rd path raw))"
      using assms(2) by (simp add: opn posted_text_def new_post_def)
    ultimately show ?thesis using assms(1) by (simp add: opn pool_inv_def pool_running_def)
  next
    case False
    with useless_step [OF \<open>\<not> pool_useful s opn\<close>] assms(1) show ?thesis by simp
  qed
qed

lemma pool_run_inv:
  "pool_inv env exc_text keys s \<Longrightarrow> \<forall>opn\<in>set opns. posted_text opn \<Longrightarrow>
     pool_inv env exc_text keys (foldl (pool_step env exc_text keys) s opns)"
  by (induction opns arbitrary: s) (simp_all add: pool_step_inv del: pool_step.simps)

subsection \<open>Every request is answered\<close>

text \<open>How many steps a job has at most before it, and the pool altogether.\<close>

definition post_left :: "pyenv \<Rightarrow> (exn \<Rightarrow> str) \<Rightarrow> unit race \<Rightarrow> post \<Rightarrow> nat" where
  "post_left env exc_text race jb =
     (case j_stage jb of
        Waiting \<Rightarrow>
          (case post_task env exc_text jb of
             Answer_now r \<Rightarrow> 1
           | To_evaluate req \<Rightarrow> 2 * length (consent_tokens req) + 6
           | To_withdraw aid \<Rightarrow> 7)
      | Withdrawing aid \<Rightarrow> 6
      | Judging i \<Rightarrow> left (r_threads race ! i)
      | Rechecking aid i \<Rightarrow> left (r_threads race ! i)
      | Replied r \<Rightarrow> 0)"

definition pool_work :: "pyenv \<Rightarrow> (exn \<Rightarrow> str) \<Rightarrow> pool \<Rightarrow> nat" where
  "pool_work env exc_text s = sum_list (map (post_left env exc_text (p_race s)) (p_jobs s))"

lemma sum_list_update_less:
  fixes f g :: "'a \<Rightarrow> nat"
  assumes "j < length xs" "g x < f (xs ! j)" "\<And>k. k < length xs \<Longrightarrow> k \<noteq> j \<Longrightarrow> g (xs ! k) = f (xs ! k)"
  shows "sum_list (map g (xs[j := x])) < sum_list (map f xs)"
  using assms
proof (induction xs arbitrary: j)
  case (Cons y ys)
  show ?case
  proof (cases j)
    case 0
    have "g z = f z" if "z \<in> set ys" for z
      using that Cons.prems(3) [of "Suc k" for k] 0 by (fastforce simp: in_set_conv_nth)
    then have "sum_list (map g ys) = sum_list (map f ys)" by (metis map_cong)
    with 0 Cons.prems(2) show ?thesis by simp
  next
    case (Suc i)
    have "g (ys ! k) = f (ys ! k)" if "k < length ys" "k \<noteq> i" for k
      using Cons.prems(3) [of "Suc k"] that Suc by simp
    with Cons.IH [of i] Cons.prems Suc have "sum_list (map g (ys[i := x])) < sum_list (map f ys)" by simp
    moreover have "g y = f y" using Cons.prems(3) [of 0] Suc by simp
    ultimately show ?thesis using Suc by simp
  qed
qed simp

lemma post_left_run:
  assumes "post_ok env exc_text race jb" "\<forall>i. stage_thread (j_stage jb) = Some i \<longrightarrow> Run i \<notin> set opns"
  shows "post_left env exc_text (foldl (race_step env keys) race opns) jb = post_left env exc_text race jb"
  using assms
proof (induction opns arbitrary: race)
  case (Cons opn opns)
  have "post_left env exc_text (race_step env keys race opn) jb = post_left env exc_text race jb"
    using Cons.prems stage_thread_present [OF Cons.prems(1)]
    by (cases "j_stage jb") (auto simp: post_left_def race_step_thread(4) simp del: race_step.simps)
  moreover have "post_ok env exc_text (race_step env keys race opn) jb"
    using Cons.prems by (intro post_ok_step) auto
  ultimately show ?case using Cons.IH Cons.prems(2) by simp
qed simp

lemma run_less:
  assumes "i < length (r_threads race)" "0 < left (r_threads race ! i)"
  shows "left (r_threads (race_step env keys race (Run i)) ! i) < left (r_threads race ! i)"
  using race_left [OF assms(1), of env keys "[Run i]"] assms(2) by simp

lemma moved_post_left:
  assumes "pool_inv env exc_text keys s" "j < length (p_jobs s)" "moves env exc_text keys s j opns st"
  shows "post_left env exc_text (foldl (race_step env keys) (p_race s) opns) ((p_jobs s ! j)\<lparr>j_stage := st\<rparr>)
    < post_left env exc_text (p_race s) (p_jobs s ! j)"
proof -
  have ok: "post_ok env exc_text (p_race s) (p_jobs s ! j)" using assms(1,2) by (simp add: pool_inv_def)
  from assms(3) show ?thesis
  proof cases
    case (rechecking aid rd req)
    then have "consent_tokens req = []"
      by (auto simp: checked_request_def new_request_def probe_request_def split: if_splits)
    with rechecking show ?thesis by (simp add: post_left_def new_thread_left nth_append split: prod.split)
  next
    case (runs i)
    with stage_thread_present [OF ok runs(3)] run_less [of i "p_race s" env keys] show ?thesis
      by (cases "j_stage (p_jobs s ! j)") (simp_all add: post_left_def del: race_step.simps)
  next
    case (judged i r)
    with stage_thread_present [OF ok] show ?thesis by (simp add: post_left_def)
  next
    case (rechecked aid i r)
    with stage_thread_present [OF ok] show ?thesis by (simp add: post_left_def)
  qed (simp_all add: post_left_def new_thread_left)
qed

lemma moved_work:
  assumes inv: "pool_inv env exc_text keys s" and j: "j < length (p_jobs s)" and m: "moves env exc_text keys s j opns st"
  shows "pool_work env exc_text (move_to env keys s j opns st) < pool_work env exc_text s"
  unfolding pool_work_def move_to_sel
proof (rule sum_list_update_less [where f = "post_left env exc_text (p_race s)"
      and g = "post_left env exc_text (foldl (race_step env keys) (p_race s) opns)", OF j moved_post_left [OF assms]])
  fix k assume k: "k < length (p_jobs s)" "k \<noteq> j"
  have "\<forall>i. stage_thread (j_stage (p_jobs s ! k)) = Some i \<longrightarrow> Run i \<notin> set opns"
    using moves_thread [OF m] inv j k unfolding pool_inv_def apart_def by fastforce
  with inv k show "post_left env exc_text (foldl (race_step env keys) (p_race s) opns) (p_jobs s ! k) =
      post_left env exc_text (p_race s) (p_jobs s ! k)"
    by (intro post_left_run) (simp_all add: pool_inv_def)
qed

text \<open>As long as a request is not answered, some step is useful: no job waits for what never comes.\<close>

definition all_replied :: "pool \<Rightarrow> bool" where
  "all_replied s \<longleftrightarrow> (\<forall>jb\<in>set (p_jobs s). is_replied (j_stage jb))"

lemma some_useful:
  assumes "\<not> all_replied s" shows "\<exists>opn. pool_useful s opn"
proof (cases "\<exists>jb\<in>set (p_jobs s). at_work jb")
  case True
  then obtain j where "j < length (p_jobs s)" "at_work (p_jobs s ! j)" by (metis in_set_conv_nth)
  then show ?thesis by (intro exI [of _ "Go j"]) simp
next
  case False
  with assms have "first_waiting (p_jobs s) \<noteq> None"
    by (auto simp: all_replied_def first_waiting_None at_work_def is_waiting_iff)
  moreover have "filter at_work (p_jobs s) = []" using False by (simp add: filter_empty_conv)
  ultimately have "can_take s" by (simp add: can_take_def POOL_WORKERS_def)
  then show ?thesis by (intro exI [of _ Take]) simp
qed

interpretation pools: draining "pool_step env exc_text keys" pool_useful "pool_inv env exc_text keys" all_replied
  "pool_work env exc_text"
proof (unfold_locales, goal_cases)
  case (1 s opn)
  then obtain j opns st where "j < length (p_jobs s)" "moves env exc_text keys s j opns st"
    "pool_step env exc_text keys s opn = move_to env keys s j opns st" using useful_moves by blast
  with 1 move_to_inv show ?case by simp
next
  case (2 s opn)
  then obtain j opns st where "j < length (p_jobs s)" "moves env exc_text keys s j opns st"
    "pool_step env exc_text keys s opn = move_to env keys s j opns st" using useful_moves by blast
  with 2 moved_work show ?case by simp
next
  case (3 s)
  then show ?case by (intro some_useful)
qed

lemma right_reply_code:
  assumes "right_reply env exc_text race jb r"
  shows "\<exists>code payload. r = Inr (code, payload) \<and> code \<in> {200, 400, 404}"
proof (cases "post_task env exc_text jb")
  case (Answer_now r')
  with assms answer_now show ?thesis by (fastforce simp: right_reply_def post_task_def)
qed (use assms in \<open>auto simp: right_reply_def evaluate_reply_def revoked_reply_def\<close>)

theorem pool_answers:
  assumes "pool_inv env exc_text keys s" "eager (pool_step env exc_text keys) pool_useful s opns"
    and "s' = foldl (pool_step env exc_text keys) s opns"
  shows "length opns + pool_work env exc_text s' \<le> pool_work env exc_text s"
    and "\<forall>opn. \<not> pool_useful s' opn \<Longrightarrow>
      \<forall>jb\<in>set (p_jobs s'). \<exists>code payload. j_stage jb = Replied (Inr (code, payload)) \<and> code \<in> {200, 400, 404}"
    and "\<exists>rest. eager (pool_step env exc_text keys) pool_useful s' rest
      \<and> (\<forall>opn. \<not> pool_useful (foldl (pool_step env exc_text keys) s' rest) opn)"
proof -
  show "length opns + pool_work env exc_text s' \<le> pool_work env exc_text s"
    using pools.eager_bounded [OF assms(1,2)] assms(3) by simp
  have inv: "pool_inv env exc_text keys s'" using pools.eager_keeps [OF assms(1,2)] assms(3) by simp
  show "\<forall>jb\<in>set (p_jobs s'). \<exists>code payload. j_stage jb = Replied (Inr (code, payload)) \<and> code \<in> {200, 400, 404}"
    if stuck: "\<forall>opn. \<not> pool_useful s' opn"
  proof
    fix jb assume jb: "jb \<in> set (p_jobs s')"
    have "all_replied s'" using pools.drained [OF assms(1,2)] stuck assms(3) by simp
    with jb obtain r where r: "j_stage jb = Replied r" by (auto simp: all_replied_def is_replied_iff)
    with inv jb have "right_reply env exc_text (p_race s') jb r" by (auto simp: pool_inv_def post_ok_def)
    from right_reply_code [OF this] r show "\<exists>code payload. j_stage jb = Replied (Inr (code, payload)) \<and> code \<in> {200, 400, 404}"
      by simp
  qed
  from pools.can_drain [OF inv] obtain rest where rest: "eager (pool_step env exc_text keys) pool_useful s' rest"
    "all_replied (foldl (pool_step env exc_text keys) s' rest)" by blast
  have "\<not> pool_useful t opn" if "all_replied t" for t opn
    using that first_waiting_Some [of "p_jobs t"]
    by (cases opn) (fastforce simp: can_take_def all_replied_def at_work_def dest: nth_mem)+
  with rest show "\<exists>rest. eager (pool_step env exc_text keys) pool_useful s' rest
      \<and> (\<forall>opn. \<not> pool_useful (foldl (pool_step env exc_text keys) s' rest) opn)" by blast
qed

subsection \<open>At most 32 jobs are at work\<close>

lemma filter_update_le:
  "j < length xs \<Longrightarrow>
     length (filter P (xs[j := x])) \<le> length (filter P xs) + (if P (xs ! j) then 0 else 1)"
proof (induction xs arbitrary: j)
  case (Cons y ys)
  show ?case
  proof (cases j)
    case (Suc i)
    with Cons.IH [of i] Cons.prems show ?thesis by auto
  qed simp
qed simp

lemma busy_step:
  assumes "length (filter at_work (p_jobs s)) \<le> POOL_WORKERS"
  shows "length (filter at_work (p_jobs (pool_step env exc_text keys s opn))) \<le> POOL_WORKERS"
proof (cases "pool_useful s opn")
  case True
  from useful_moves [OF True] obtain j opns st where j: "j < length (p_jobs s)"
    and s': "pool_step env exc_text keys s opn = move_to env keys s j opns st"
    and room: "at_work (p_jobs s ! j) \<or> can_take s" by blast
  from filter_update_le [OF j, of at_work "(p_jobs s ! j)\<lparr>j_stage := st\<rparr>"] room assms s' show ?thesis
    by (auto simp: can_take_def split: if_splits)
next
  case False
  with assms useless_step [OF False] show ?thesis by (cases opn) (simp_all add: new_post_def at_work_def del: pool_step.simps(2,3))
qed

lemma busy_run:
  "length (filter at_work (p_jobs s)) \<le> POOL_WORKERS \<Longrightarrow>
     length (filter at_work (p_jobs (foldl (pool_step env exc_text keys) s opns))) \<le> POOL_WORKERS"
  by (induction opns arbitrary: s) (simp_all add: busy_step del: pool_step.simps)

subsection \<open>A reply is final\<close>

definition kept :: "post \<Rightarrow> post \<Rightarrow> bool" where
  "kept jb jb' \<longleftrightarrow> (\<exists>st. jb' = jb\<lparr>j_stage := st\<rparr>) \<and> (is_replied (j_stage jb) \<longrightarrow> jb' = jb)"

lemma kept_refl [simp]: "kept jb jb"
  unfolding kept_def by (intro conjI exI [of _ "j_stage jb"]) simp_all

lemma kept_trans: "kept a b \<Longrightarrow> kept b c \<Longrightarrow> kept a c"
  unfolding kept_def by auto

lemma moves_not_replied: "moves env exc_text keys s j opns st \<Longrightarrow> \<not> is_replied (j_stage (p_jobs s ! j))"
  by (cases rule: moves.cases) (auto simp: is_replied_iff)

lemma kept_step:
  assumes "m < length (p_jobs s)"
  shows "m < length (p_jobs (pool_step env exc_text keys s opn))
    \<and> kept (p_jobs s ! m) (p_jobs (pool_step env exc_text keys s opn) ! m)"
proof (cases "pool_useful s opn")
  case True
  from useful_moves [OF True] obtain j opns st where "pool_step env exc_text keys s opn = move_to env keys s j opns st"
    "moves env exc_text keys s j opns st" by blast
  with assms moves_not_replied [of env exc_text keys s j opns st] show ?thesis
    by (cases "m = j") (auto simp: kept_def [of _ "_\<lparr>j_stage := st\<rparr>"])
next
  case False
  with assms useless_step [OF False] show ?thesis
    by (cases opn) (simp_all add: nth_append del: pool_step.simps(2,3))
qed

lemma kept_run:
  "m < length (p_jobs s) \<Longrightarrow> m < length (p_jobs (foldl (pool_step env exc_text keys) s opns))
     \<and> kept (p_jobs s ! m) (p_jobs (foldl (pool_step env exc_text keys) s opns) ! m)"
proof (induction opns arbitrary: s)
  case (Cons opn opns)
  from kept_step [OF Cons.prems, of env exc_text keys opn] Cons.IH kept_trans show ?case
    by (simp del: pool_step.simps) blast
qed simp

fun is_posted :: "pool_op \<Rightarrow> bool" where
  "is_posted (Posted rd path raw) = True"
| "is_posted _ = False"

lemma length_step:
  "length (p_jobs (pool_step env exc_text keys s opn)) = length (p_jobs s) + (if is_posted opn then 1 else 0)"
proof (cases "pool_useful s opn")
  case True
  from useful_moves [OF True] obtain j opns st where "pool_step env exc_text keys s opn = move_to env keys s j opns st"
    by blast
  with True show ?thesis by (cases opn) (simp_all del: pool_step.simps)
next
  case False
  with useless_step [OF False] show ?thesis by (cases opn) (simp_all del: pool_step.simps(2,3))
qed

lemma length_run:
  "length (p_jobs (foldl (pool_step env exc_text keys) s opns)) = length (p_jobs s) + length (filter is_posted opns)"
  by (induction opns arbitrary: s) (simp_all add: length_step del: pool_step.simps)

lemma eager_length:
  "eager (pool_step env exc_text keys) pool_useful s opns \<Longrightarrow>
     length (p_jobs (foldl (pool_step env exc_text keys) s opns)) = length (p_jobs s)"
proof (induction opns arbitrary: s)
  case (Cons opn opns)
  then have "\<not> is_posted opn" by (cases opn) simp_all
  with Cons show ?case by (simp add: length_step del: pool_step.simps)
qed simp

subsection \<open>A revocation that has been answered\<close>

lemma pool_step_race: "\<exists>opns. p_race (pool_step env exc_text keys s opn) = foldl (race_step env keys) (p_race s) opns"
proof (cases "pool_useful s opn")
  case True
  from useful_moves [OF True] obtain j ops st where
    "pool_step env exc_text keys s opn = move_to env keys s j ops st" by blast
  then show ?thesis by auto
next
  case False
  with useless_step [OF False] have "p_race (pool_step env exc_text keys s opn) = p_race s"
    by (cases opn) (simp_all del: pool_step.simps(2,3))
  then show ?thesis by (intro exI [of _ "[]"]) simp
qed

lemma store_withdrawn_run: "store_withdrawn race k \<Longrightarrow> store_withdrawn (foldl (race_step env keys) race opns) k"
  by (induction opns arbitrary: race) (simp_all add: store_withdrawn_step del: race_step.simps)

text \<open>The job has not read the asset yet, has read it as withdrawn, or has replied \<open>Blocked\<close>.\<close>

definition refuses :: "pyenv \<Rightarrow> (exn \<Rightarrow> str) \<Rightarrow> unit race \<Rightarrow> str \<Rightarrow> post \<Rightarrow> bool" where
  "refuses env exc_text race k jb \<longleftrightarrow>
     (\<forall>req. post_task env exc_text jb = To_evaluate req \<and> req_asset_id req = k \<longrightarrow>
        (case j_stage jb of
           Judging i \<Rightarrow> reads_withdrawn k (r_threads race ! i)
         | Replied r \<Rightarrow> \<exists>d. r = evaluate_reply (Inr d) \<and> d_state d = BLOCKED
         | _ \<Rightarrow> True))"

lemma refuses_run:
  assumes "post_ok env exc_text race jb" "store_withdrawn race k" "refuses env exc_text race k jb"
  shows "refuses env exc_text (foldl (race_step env keys) race opns) k jb"
proof (cases "j_stage jb")
  case (Judging i)
  with assms(1) have "i < length (r_threads race)" by (auto simp: post_ok_def works_on_def)
  from reads_withdrawn_run [OF assms(2) _ race_length [OF this]] assms(3) Judging show ?thesis
    by (auto simp: refuses_def)
qed (use assms(3) in \<open>simp_all add: refuses_def\<close>)

lemma refuses_moved:
  assumes inv: "pool_inv env exc_text keys s" and j: "j < length (p_jobs s)" and m: "moves env exc_text keys s j opns st"
    and w: "store_withdrawn (p_race s) k" and r: "refuses env exc_text (p_race s) k (p_jobs s ! j)"
  shows "refuses env exc_text (foldl (race_step env keys) (p_race s) opns) k ((p_jobs s ! j)\<lparr>j_stage := st\<rparr>)"
proof -
  let ?jb = "p_jobs s ! j"
  have reach: "race_reach env keys (p_race s)" and ok: "post_ok env exc_text (p_race s) ?jb"
    using inv j by (simp_all add: pool_inv_def)
  from m show ?thesis
  proof cases
    case (judging req rd)
    then show ?thesis by (simp add: refuses_def reads_withdrawn_def)
  next
    case (runs i)
    then have "?jb\<lparr>j_stage := st\<rparr> = ?jb" by simp
    with refuses_run [OF ok w r] show ?thesis by metis
  next
    case (judged i res)
    show ?thesis
      unfolding refuses_def
    proof (intro allI impI)
      fix req assume req: "post_task env exc_text (?jb\<lparr>j_stage := st\<rparr>) = To_evaluate req \<and> req_asset_id req = k"
      with ok judged(3) have on: "works_on (p_race s) i req" by (auto simp: post_ok_def)
      have rw: "reads_withdrawn k (r_threads (p_race s) ! i)" using r req judged(3) by (simp add: refuses_def)
      from finished_job [OF reach on judged(4)] obtain d where d: "res = Inr d" by blast
      from probe_blocked [OF reach on _ w rw judged(4) [unfolded d]] req judged(2) d
      show "case j_stage (?jb\<lparr>j_stage := st\<rparr>) of
          Judging i \<Rightarrow> reads_withdrawn k (r_threads (foldl (race_step env keys) (p_race s) opns) ! i)
        | Replied r \<Rightarrow> \<exists>d. r = evaluate_reply (Inr d) \<and> d_state d = BLOCKED | _ \<Rightarrow> True" by auto
    qed
  qed (use ok in \<open>simp_all add: refuses_def post_ok_def del: race_step.simps\<close>)
qed

lemma refuses_step:
  assumes inv: "pool_inv env exc_text keys s" and w: "store_withdrawn (p_race s) k"
    and r: "m < length (p_jobs s) \<Longrightarrow> refuses env exc_text (p_race s) k (p_jobs s ! m)"
    and l: "m < length (p_jobs (pool_step env exc_text keys s opn))"
  shows "refuses env exc_text (p_race (pool_step env exc_text keys s opn)) k (p_jobs (pool_step env exc_text keys s opn) ! m)"
proof (cases "pool_useful s opn")
  case True
  from useful_moves [OF True] obtain j opns st where j: "j < length (p_jobs s)"
    and s': "pool_step env exc_text keys s opn = move_to env keys s j opns st"
    and mv: "moves env exc_text keys s j opns st" by blast
  have len: "m < length (p_jobs s)" using l s' by simp
  then have "post_ok env exc_text (p_race s) (p_jobs s ! m)" using inv by (simp add: pool_inv_def)
  with refuses_run [OF this w r [OF len]] refuses_moved [OF inv j mv w] r len show ?thesis
    by (cases "m = j") (simp_all add: s')
next
  case False
  show ?thesis
  proof (cases opn)
    case (Posted rd path raw)
    then have "p_jobs (pool_step env exc_text keys s opn) ! m = new_post rd path raw \<or> m < length (p_jobs s)"
      using l by (auto simp: nth_append less_Suc_eq)
    with r show ?thesis by (auto simp: Posted nth_append refuses_def new_post_def)
  qed (use useless_step [OF False] r l in \<open>simp_all del: pool_step.simps\<close>)
qed

lemma refuses_pool_run:
  "pool_inv env exc_text keys s \<Longrightarrow> store_withdrawn (p_race s) k \<Longrightarrow> \<forall>opn\<in>set opns. posted_text opn \<Longrightarrow>
   (m < length (p_jobs s) \<Longrightarrow> refuses env exc_text (p_race s) k (p_jobs s ! m)) \<Longrightarrow>
   s' = foldl (pool_step env exc_text keys) s opns \<Longrightarrow> m < length (p_jobs s') \<Longrightarrow>
     refuses env exc_text (p_race s') k (p_jobs s' ! m)"
proof (induction opns arbitrary: s)
  case (Cons opn opns)
  let ?t = "pool_step env exc_text keys s opn"
  obtain ops where "p_race ?t = foldl (race_step env keys) (p_race s) ops" using pool_step_race by blast
  then have "store_withdrawn (p_race ?t) k" using store_withdrawn_run [OF Cons.prems(2)] by simp
  moreover have "pool_inv env exc_text keys ?t" using Cons.prems(1,3) by (intro pool_step_inv) simp_all
  ultimately show ?case
    using Cons.IH [of ?t] refuses_step [OF Cons.prems(1,2,4)] Cons.prems(3,5,6) by simp
qed simp

definition not_yet_read :: "unit race \<Rightarrow> post \<Rightarrow> bool" where
  "not_yet_read race jb \<longleftrightarrow>
     j_stage jb = Waiting \<or> (\<exists>i. j_stage jb = Judging i \<and> t_phase (r_threads race ! i) = Fetch)"

theorem revoked_in_pool:
  assumes "pool_inv env exc_text keys s" "j < length (p_jobs s)"
    and "post_task env exc_text (p_jobs s ! j) = To_withdraw k" "j_stage (p_jobs s ! j) = Replied (Inr (200, payload))"
    and "\<forall>opn\<in>set opns. posted_text opn" "s' = foldl (pool_step env exc_text keys) s opns"
    and "m < length (p_jobs s')" "m < length (p_jobs s) \<Longrightarrow> not_yet_read (p_race s) (p_jobs s ! m)"
    and "post_task env exc_text (p_jobs s' ! m) = To_evaluate req" "req_asset_id req = k"
    and "j_stage (p_jobs s' ! m) = Replied reply"
  shows "Inr (200, payload) = revoked_reply (j_reading (p_jobs s ! j))
    \<and> (\<exists>d. reply = evaluate_reply (Inr d) \<and> d_state d = BLOCKED)"
proof -
  have "post_ok env exc_text (p_race s) (p_jobs s ! j)" using assms(1,2) by (simp add: pool_inv_def)
  then have w: "store_withdrawn (p_race s) k \<and> Inr (200, payload) = revoked_reply (j_reading (p_jobs s ! j))"
    using assms(3,4) by (simp add: post_ok_def right_reply_def)
  have "refuses env exc_text (p_race s) k (p_jobs s ! m)" if "m < length (p_jobs s)"
    using assms(8) [OF that] by (auto simp: not_yet_read_def refuses_def reads_withdrawn_def)
  from refuses_pool_run [OF assms(1) _ assms(5) this assms(6,7)] w assms(9-11) show ?thesis
    by (simp add: refuses_def)
qed

subsection \<open>A request alone\<close>

lemma do_post_task:
  "do_post env exc_text rd path raw (Some r) =
     (case first_task env exc_text rd path raw of
        Answer_now res \<Rightarrow> (res, Some r)
      | To_evaluate req \<Rightarrow>
          (case evaluate env (sv_keys r) (sv_store r) (rd_ticket rd) req (rd_now rd) (sv_gateway r) of
             (res, gs) \<Rightarrow> (evaluate_reply res, Some (r\<lparr>sv_gateway := gs\<rparr>)))
      | To_withdraw aid \<Rightarrow>
          (case withdraw (sv_store r) aid (rd_withdraw_ns rd) () of
             Inl e \<Rightarrow> (Inr (404, error_json (exc_str exc_text e)), Some r)
           | Inr (_, store, _) \<Rightarrow>
               (case checked_request (probe_request rd aid) of
                  Inl e \<Rightarrow> (Inl e, Some (r\<lparr>sv_store := store\<rparr>))
                | Inr req \<Rightarrow>
                    (case evaluate env (sv_keys r) store (rd_ticket rd) req (rd_now rd) (sv_gateway r) of
                       (res, gs) \<Rightarrow> (revoke_reply rd res, Some (r\<lparr>sv_store := store, sv_gateway := gs\<rparr>))))))"
  by (auto simp: do_post_def handle_evaluate_def handle_revoke_def first_task_def ensure_def evaluate_reply_def
      revoke_reply_def Let_def split: sum.split prod.split)

lemma go_replied:
  "j_stage (p_jobs s ! j) = Replied r \<Longrightarrow>
     foldl (pool_step env exc_text keys) s (replicate n (Go j)) = s"
  by (induction n) (simp_all add: post_step_def)

lemma judged_alone:
  assumes "j < length (p_jobs s)" "i < length (r_threads (p_race s))"
    and "0 < left (r_threads (p_race s) ! i)" "left (r_threads (p_race s) ! i) \<le> n"
    and "j_stage (p_jobs s ! j) = Judging i \<and> reply = evaluate_reply
      \<or> j_stage (p_jobs s ! j) = Rechecking aid i \<and> reply = revoke_reply (j_reading (p_jobs s ! j))"
    and "meaning env keys (r_store (p_race s)) (r_threads (p_race s) ! i) (r_gate (p_race s)) = (res, gs)"
    and "s' = foldl (pool_step env exc_text keys) s (replicate n (Go j))"
  shows "j_stage (p_jobs s' ! j) = Replied (reply res)
    \<and> pool_running keys s' = (pool_running keys s)\<lparr>sv_gateway := gs\<rparr>"
  using assms
proof (induction n arbitrary: s)
  case (Suc n)
  define race where "race = race_step env keys (p_race s) (Run i)"
  obtain th gs1 where adv: "advance env keys (r_store (p_race s)) (r_threads (p_race s) ! i) (r_gate (p_race s)) = (th, gs1)"
    by force
  have race: "race = (p_race s)\<lparr>r_threads := (r_threads (p_race s))[i := th], r_gate := gs1\<rparr>"
    using Suc.prems(2) adv by (simp add: race_def)
  have step: "pool_step env exc_text keys s (Go j) = gateway_step env keys s j i reply"
    using Suc.prems(1,5) by (auto simp: post_step_def)
  have mean: "meaning env keys (r_store race) (r_threads race ! i) (r_gate race) = (res, gs)"
    using advance_meaning [OF adv] Suc.prems(2,6) by (simp add: race)
  show ?case
  proof (cases "\<exists>r. t_phase th = Finished r")
    case True
    then obtain r where r: "t_phase th = Finished r" by blast
    then have s1: "pool_step env exc_text keys s (Go j) = set_stage (s\<lparr>p_race := race\<rparr>) j (Replied (reply r))"
      using Suc.prems(2) adv unfolding step by (simp add: gateway_step_def race)
    then have "s' = set_stage (s\<lparr>p_race := race\<rparr>) j (Replied (reply r))"
      using Suc.prems(1,7) go_replied [of "set_stage (s\<lparr>p_race := race\<rparr>) j (Replied (reply r))" j "reply r" env exc_text keys n]
      by (simp del: pool_step.simps)
    moreover have "(r, gs1) = (res, gs)" using mean r Suc.prems(2) by (simp add: race meaning_def)
    ultimately show ?thesis using Suc.prems(1) by (simp add: pool_running_def race)
  next
    case False
    then have s1: "pool_step env exc_text keys s (Go j) = s\<lparr>p_race := race\<rparr>"
      using Suc.prems(2) adv unfolding step by (auto simp: gateway_step_def race Let_def split: phase.split)
    have "left th \<noteq> 0" "left th \<le> n"
      using False left_0 advance_left [OF adv] Suc.prems(4) by auto
    with Suc.IH [of "s\<lparr>p_race := race\<rparr>"] Suc.prems(1,2,5,7) mean s1 show ?thesis
      by (simp add: race pool_running_def del: pool_step.simps)
  qed
qed simp

lemma evaluation_alone:
  assumes "j < length (p_jobs s)" "rd = j_reading (p_jobs s ! j)" "2 * length (consent_tokens req) + 5 \<le> n"
    and "st = Judging \<and> reply = evaluate_reply \<or> st = Rechecking aid \<and> reply = revoke_reply rd"
    and "evaluate env keys (r_store (p_race s)) (rd_ticket rd) req (rd_now rd) (r_gate (p_race s)) = (res, gs)"
    and "s' = foldl (pool_step env exc_text keys) (start_evaluation env keys s j req st) (replicate n (Go j))"
  shows "j_stage (p_jobs s' ! j) = Replied (reply res)
    \<and> pool_running keys s' = (pool_running keys s)\<lparr>sv_gateway := gs\<rparr>"
proof -
  let ?t = "start_evaluation env keys s j req st" and ?i = "length (r_threads (p_race s))"
  have th: "r_threads (p_race ?t) = r_threads (p_race s) @ [new_thread req (rd_now rd) (rd_ticket rd)]"
    and st: "j_stage (p_jobs ?t ! j) = st ?i" and len: "j < length (p_jobs ?t)"
    and same: "r_store (p_race ?t) = r_store (p_race s)" "r_gate (p_race ?t) = r_gate (p_race s)"
      "j_reading (p_jobs ?t ! j) = rd"
    using assms(1,2) by (simp_all add: start_evaluation_def)
  have "meaning env keys (r_store (p_race ?t)) (r_threads (p_race ?t) ! ?i) (r_gate (p_race ?t)) = (res, gs)"
    using assms(5) by (simp add: meaning_def th same)
  from judged_alone [OF len _ _ _ _ this assms(6), where reply = reply and aid = aid] assms(3,4) st same
  show ?thesis by (auto simp: th new_thread_left pool_running_def)
qed

lemma withdrawal_alone:
  assumes j: "j < length (p_jobs s)" "j_stage (p_jobs s ! j) = Withdrawing aid" "rd = j_reading (p_jobs s ! j)"
    and task: "first_task env exc_text rd path raw = To_withdraw aid"
    and run: "s' = foldl (pool_step env exc_text keys) s (replicate (Suc n) (Go j))" "5 \<le> n"
    and post: "do_post env exc_text rd path raw (Some (pool_running keys s)) = (res, sv)"
  shows "j_stage (p_jobs s' ! j) = Replied res \<and> sv = Some (pool_running keys s')"
proof -
  let ?w = "withdraw (r_store (p_race s)) aid (rd_withdraw_ns rd) ()"
  define t where "t = withdraw_step env exc_text keys s j aid"
  have run: "s' = foldl (pool_step env exc_text keys) t (replicate n (Go j))"
    using run(1) j by (simp add: t_def post_step_def)
  note task = do_post_task [of env exc_text rd path raw "pool_running keys s", unfolded task task.case post]
  show ?thesis
  proof (cases ?w)
    case (Inl e)
    then have t: "t = set_stage s j (Replied (Inr (404, error_json (exc_str exc_text e))))"
      using j by (simp add: t_def withdraw_step_def)
    then have "s' = t" unfolding run using j(1) by (intro go_replied) simp
    then show ?thesis using task Inl t j(1) by (simp add: pool_running_def)
  next
    case (Inr w)
    then obtain a store where w: "?w = Inr (a, store, ())" by (cases w) auto
    define s1 where "s1 = s\<lparr>p_race := (p_race s)\<lparr>r_store := store, r_aux := ()\<rparr>\<rparr>"
    show ?thesis
    proof (cases "checked_request (probe_request rd aid)")
      case (Inl e)
      then have t: "t = set_stage s1 j (Replied (Inl e))" using w j(3) by (simp add: t_def withdraw_step_def s1_def)
      then have "s' = t" unfolding run using j(1) by (intro go_replied) (simp add: s1_def)
      then show ?thesis using task w Inl t j(1) by (simp add: pool_running_def s1_def)
    next
      case (Inr req)
      then have t: "t = start_evaluation env keys s1 j req (Rechecking aid)"
        using w j(3) by (simp add: t_def withdraw_step_def s1_def)
      obtain r gs where ev: "evaluate env keys store (rd_ticket rd) req (rd_now rd) (r_gate (p_race s)) = (r, gs)" by force
      have "consent_tokens req = []"
        using Inr by (auto simp: checked_request_def new_request_def probe_request_def split: if_splits)
      with evaluation_alone [of j s1 rd req n "Rechecking aid" "revoke_reply rd" aid env keys r gs s' exc_text] ev j(1,3) \<open>5 \<le> n\<close>
      have "j_stage (p_jobs s' ! j) = Replied (revoke_reply rd r) \<and>
          pool_running keys s' = (pool_running keys s1)\<lparr>sv_gateway := gs\<rparr>"
        unfolding run t by (simp add: s1_def)
      then show ?thesis using task w Inr ev by (simp add: pool_running_def s1_def)
    qed
  qed
qed

lemma first_waiting_snoc:
  "\<forall>jb\<in>set jbs. j_stage jb \<noteq> Waiting \<Longrightarrow> first_waiting (jbs @ [new_post rd path raw]) = Some (length jbs)"
  by (induction jbs) (auto simp: is_waiting_iff new_post_def)

theorem post_alone:
  assumes idle: "\<forall>jb\<in>set (p_jobs s). j_stage jb \<noteq> Waiting" "length (filter at_work (p_jobs s)) < POOL_WORKERS"
    and n: "post_left env exc_text (p_race s) (new_post rd path raw) \<le> Suc n"
    and s': "s' = foldl (pool_step env exc_text keys) s (Posted rd path raw # Take # replicate n (Go (length (p_jobs s))))"
    and post: "do_post env exc_text rd path raw (Some (pool_running keys s)) = (res, sv)"
  shows "j_stage (p_jobs s' ! length (p_jobs s)) = Replied res \<and> sv = Some (pool_running keys s')"
proof -
  let ?j = "length (p_jobs s)"
  define s1 where "s1 = s\<lparr>p_jobs := p_jobs s @ [new_post rd path raw]\<rparr>"
  define s2 where "s2 = take_job env exc_text keys s1 ?j"
  have jb: "p_jobs s1 ! ?j = new_post rd path raw" "?j < length (p_jobs s1)" by (simp_all add: s1_def)
  have sel: "j_reading (new_post rd path raw) = rd" "j_path (new_post rd path raw) = path" "j_raw (new_post rd path raw) = raw"
    "j_stage (new_post rd path raw) = Waiting"
    by (simp_all add: new_post_def)
  have "can_take s1"
    using idle(2) by (simp add: can_take_def s1_def first_waiting_snoc [OF idle(1)] at_work_def sel)
  then have "pool_step env exc_text keys s1 Take = s2"
    by (simp add: s2_def s1_def first_waiting_snoc [OF idle(1)])
  then have run: "s' = foldl (pool_step env exc_text keys) s2 (replicate n (Go ?j))"
    by (simp add: s' s1_def)
  note task = do_post_task [of env exc_text rd path raw "pool_running keys s"]
  show ?thesis
  proof (cases "first_task env exc_text rd path raw")
    case (Answer_now r)
    then have s2: "s2 = set_stage s1 ?j (Replied r)" by (simp add: s2_def take_job_def jb sel)
    then have "s' = s2" unfolding run using jb(2) by (intro go_replied [of _ _ r]) simp
    then show ?thesis using post task Answer_now s2 jb(2) by (simp add: pool_running_def s1_def)
  next
    case (To_evaluate req)
    then have s2: "s2 = start_evaluation env keys s1 ?j req Judging" by (simp add: s2_def take_job_def jb sel)
    obtain r gs where ev: "evaluate env keys (r_store (p_race s)) (rd_ticket rd) req (rd_now rd) (r_gate (p_race s)) = (r, gs)"
      by force
    have "2 * length (consent_tokens req) + 5 \<le> n"
      using n To_evaluate by (simp add: post_left_def post_task_def sel)
    moreover have "p_race s1 = p_race s" "j_reading (p_jobs s1 ! ?j) = rd" using jb(1) sel(1) by (simp_all add: s1_def)
    ultimately have "j_stage (p_jobs s' ! ?j) = Replied (evaluate_reply r) \<and>
        pool_running keys s' = (pool_running keys s1)\<lparr>sv_gateway := gs\<rparr>"
      using evaluation_alone [of ?j s1 rd req n Judging evaluate_reply "[]" env keys r gs s' exc_text] run [unfolded s2] ev jb(2)
      by (simp del: pool_step.simps)
    then show ?thesis using post task To_evaluate ev by (simp add: pool_running_def s1_def)
  next
    case (To_withdraw aid)
    then have s2: "s2 = set_stage s1 ?j (Withdrawing aid)" by (simp add: s2_def take_job_def jb sel)
    obtain n' where n': "n = Suc n'" "5 \<le> n'" using n To_withdraw by (cases n) (simp_all add: post_left_def post_task_def sel)
    have s2': "?j < length (p_jobs s2)" "j_stage (p_jobs s2 ! ?j) = Withdrawing aid" "rd = j_reading (p_jobs s2 ! ?j)"
      "pool_running keys s2 = pool_running keys s"
      using jb by (simp_all add: s2 sel) (simp add: pool_running_def s1_def)
    show ?thesis
      by (rule withdrawal_alone [OF s2'(1-3) To_withdraw run [unfolded n'(1)] n'(2)]) (simp only: s2'(4) post)
  qed
qed

corollary post_alone_kept:
  assumes "\<forall>jb\<in>set (p_jobs s). j_stage jb \<noteq> Waiting" "length (filter at_work (p_jobs s)) < POOL_WORKERS"
    and "post_left env exc_text (p_race s) (new_post rd path raw) \<le> Suc n"
    and "s' = foldl (pool_step env exc_text keys) s (Posted rd path raw # Take # replicate n (Go (length (p_jobs s))))"
    and "do_post env exc_text rd path raw (Some (pool_running keys s)) = (res, sv)"
  shows "p_jobs s' ! length (p_jobs s) = (new_post rd path raw)\<lparr>j_stage := Replied res\<rparr>
    \<and> sv = Some (pool_running keys s')"
proof -
  let ?s1 = "pool_step env exc_text keys s (Posted rd path raw)"
  from kept_run [of "length (p_jobs s)" ?s1 env exc_text keys "Take # replicate n (Go (length (p_jobs s)))"] assms(4)
  have "kept (new_post rd path raw) (p_jobs s' ! length (p_jobs s))" by simp
  with post_alone [OF assms] show ?thesis by (auto simp: kept_def new_post_def)
qed

end
