(* ===== verification/StoreThreads.thy ===== *)
theory StoreThreads
  imports Connectors Discovery
begin

text \<open>
  The store, the connectors that it notifies and the search of its catalog as their callers' threads
  run them (\<open>src/records/store.py\<close>, \<open>src/connectors/registry.py\<close>, \<open>src/discovery/catalog.py\<close>):
  \<open>withdraw\<close> marks the asset under the store's lock and calls the listeners after it has released the
  lock, and \<open>search\<close> takes the lock for the list of ids and again for each asset. Everything else is
  one critical section. Each is a sequence of atomic steps, and the steps of other calls come
  between them.
\<close>

subsection \<open>Where a call stands\<close>

datatype call_result = Withdrew asset | Found "asset list"

text \<open>
  \<open>Notifying\<close> holds the asset that \<open>withdraw\<close> returns and the listeners that are still to be called;
  \<open>Searching\<close> the query, the ids that are still to be read and the assets found.
\<close>

datatype store_call =
    Notifying asset str int "registry listener list"
  | Searching str "str option" bool "str list" "asset list"
  | Ended "exn + call_result"

record hub =
  h_store :: "registry asset_store"
  h_registry :: registry
  h_calls :: "store_call list"

subsection \<open>The steps\<close>

text \<open>The critical section of \<open>withdraw\<close>: the list of the listeners is copied in it.\<close>

definition mark_withdrawn ::
    "'s asset_store \<Rightarrow> str \<Rightarrow> int \<Rightarrow> exn + (asset \<times> 's asset_store \<times> 's listener list)" where
  "mark_withdrawn s k ns =
     (case dget (assets s) k of
        None \<Rightarrow> Inl (AssetNotFound k)
      | Some current \<Rightarrow>
          (let updated = current\<lparr>withdrawn := True\<rparr>
           in Inr (updated,
                   s\<lparr>assets := dput (assets s) k updated, revoked_at := dput (revoked_at s) k ns\<rparr>,
                   listeners s)))"

definition begin_withdraw :: "hub \<Rightarrow> str \<Rightarrow> int \<Rightarrow> hub" where
  "begin_withdraw s k ns =
     (case mark_withdrawn (h_store s) k ns of
        Inl e \<Rightarrow> s\<lparr>h_calls := h_calls s @ [Ended (Inl e)]\<rparr>
      | Inr (updated, store, ls) \<Rightarrow> s\<lparr>h_store := store, h_calls := h_calls s @ [Notifying updated k ns ls]\<rparr>)"

definition begin_search :: "hub \<Rightarrow> str \<Rightarrow> str option \<Rightarrow> bool \<Rightarrow> hub" where
  "begin_search s tenant action iw =
     s\<lparr>h_calls := h_calls s @ [Searching tenant action iw (asset_ids (h_store s)) []]\<rparr>"

text \<open>A call at work: the next listener, the next asset, or the return.\<close>

definition notify_next ::
    "asset \<Rightarrow> str \<Rightarrow> int \<Rightarrow> registry listener list \<Rightarrow> registry \<Rightarrow> store_call \<times> registry" where
  "notify_next updated k ns ls r =
     (case ls of
        [] \<Rightarrow> (Ended (Inr (Withdrew updated)), r)
      | l # ls \<Rightarrow> (Notifying updated k ns ls, l k ns r))"

definition search_next ::
    "registry asset_store \<Rightarrow> str \<Rightarrow> str option \<Rightarrow> bool \<Rightarrow> str list \<Rightarrow> asset list \<Rightarrow> store_call" where
  "search_next s tenant action iw ks results =
     (case ks of
        [] \<Rightarrow> Ended (Inr (Found (sort_key asset_id results)))
      | k # ks \<Rightarrow>
          (case get_asset s k of
             Inl e \<Rightarrow> Ended (Inl e)
           | Inr a \<Rightarrow>
               Searching tenant action iw ks (if search_keeps tenant action iw a then results @ [a] else results)))"

definition call_step :: "hub \<Rightarrow> store_call \<Rightarrow> store_call \<times> registry" where
  "call_step s c =
     (case c of
        Notifying updated k ns ls \<Rightarrow> notify_next updated k ns ls (h_registry s)
      | Searching tenant action iw ks results \<Rightarrow>
          (search_next (h_store s) tenant action iw ks results, h_registry s)
      | Ended r \<Rightarrow> (Ended r, h_registry s))"

lemmas call_step_defs = call_step_def notify_next_def search_next_def

text \<open>
  The calls that there are, and the ones that are one step: the store's registration of an asset and
  of the connectors' listener, and the operations of the connectors.
\<close>

datatype hub_op =
    Begin_withdraw str int
  | Begin_search str "str option" bool
  | Continue nat
  | Register_asset asset
  | Listen
  | Connector_op registry_op

fun hub_step :: "pyenv \<Rightarrow> hub \<Rightarrow> hub_op \<Rightarrow> hub" where
  "hub_step env s (Begin_withdraw k ns) = begin_withdraw s k ns"
| "hub_step env s (Begin_search tenant action iw) = begin_search s tenant action iw"
| "hub_step env s (Continue j) =
     (if j < length (h_calls s)
      then (case call_step s (h_calls s ! j) of (c, r) \<Rightarrow> s\<lparr>h_calls := (h_calls s)[j := c], h_registry := r\<rparr>)
      else s)"
| "hub_step env s (Register_asset a) =
     (case register env (h_store s) a of Inl _ \<Rightarrow> s | Inr store \<Rightarrow> s\<lparr>h_store := store\<rparr>)"
| "hub_step env s Listen = s\<lparr>h_store := add_revocation_listener (h_store s) quarantine\<rparr>"
| "hub_step env s (Connector_op opn) = s\<lparr>h_registry := registry_step env (h_registry s) opn\<rparr>"

definition hub_start :: hub where
  "hub_start = \<lparr>h_store = new_store, h_registry = new_registry, h_calls = []\<rparr>"

end
