(* ===== verification/StoreThreadsProofs.thy ===== *)
theory StoreThreadsProofs
  imports StoreThreads Schedule
begin

text \<open>
  The properties of \<open>StoreThreads\<close>: a call alone is the operation of \<open>AssetStore\<close> and \<open>Discovery\<close>,
  every call ends, and what a withdrawal and a search guarantee among other calls.
\<close>

subsection \<open>The store never re-admits\<close>

lemma mark_withdraw:
  "withdraw s k ns x =
     (case mark_withdrawn s k ns of Inl e \<Rightarrow> Inl e | Inr (a, store, ls) \<Rightarrow> Inr (a, store, notify ls k ns x))"
  by (simp add: withdraw_def mark_withdrawn_def Let_def split: option.split)

lemma mark_Inr:
  assumes "mark_withdrawn s k ns = Inr (a, store, ls)"
  shows "withdraw s k ns x = Inr (a, store, notify ls k ns x)" "ls = listeners s" "listeners store = listeners s"
  using assms by (auto simp: mark_withdraw mark_withdrawn_def Let_def split: option.splits)

lemma call_store [simp]:
  "h_store (hub_step env s (Continue j)) = h_store s"
  "length (h_calls (hub_step env s (Continue j))) = length (h_calls s)"
  by (simp_all split: prod.split)

lemma begin_withdraw_keeps: "keeps_asset (dget (assets (h_store s)) q) (dget (assets (h_store (begin_withdraw s k ns))) q)"
proof (cases "mark_withdrawn (h_store s) k ns")
  case (Inr m)
  then obtain a store ls where m: "mark_withdrawn (h_store s) k ns = Inr (a, store, ls)" by (cases m) auto
  from withdraw_keeps [OF mark_Inr(1) [OF m]] m show ?thesis by (simp add: begin_withdraw_def)
qed (simp add: begin_withdraw_def)

interpretation hubs: monotone_registry "hub_step env" "\<lambda>s. dget (assets (h_store s))"
proof unfold_locales
  fix s :: hub and opn k
  show "keeps_asset (dget (assets (h_store s)) k) (dget (assets (h_store (hub_step env s opn))) k)"
  proof (cases opn)
    case (Register_asset a)
    then show ?thesis by (auto split: sum.split intro: register_keeps)
  qed (simp_all add: begin_withdraw_keeps begin_search_def add_revocation_listener_def del: hub_step.simps(3))
qed

subsection \<open>The invariant of the hub\<close>

fun call_ok :: "registry asset_store \<Rightarrow> store_call \<Rightarrow> bool" where
  "call_ok store (Notifying a k ns ls) \<longleftrightarrow> set ls \<subseteq> {quarantine} \<and> withdrawn a"
| "call_ok store (Searching tenant action iw ks results) \<longleftrightarrow> (\<forall>k\<in>set ks. dget (assets store) k \<noteq> None)"
| "call_ok store (Ended r) \<longleftrightarrow> True"

definition hub_inv :: "hub \<Rightarrow> bool" where
  "hub_inv s \<longleftrightarrow>
     store_inv (h_store s) \<and> registry_inv (h_registry s) \<and> set (listeners (h_store s)) \<subseteq> {quarantine}
     \<and> (\<forall>c\<in>set (h_calls s). call_ok (h_store s) c)"

lemma hub_start_inv: "hub_inv hub_start"
  by (simp add: hub_inv_def hub_start_def new_registry_def store_inv_new registry_inv_Nil new_store_def)
     (simp add: store_inv_def)

lemma keeps_present: "keeps_asset x y \<Longrightarrow> x \<noteq> None \<Longrightarrow> y \<noteq> None"
  by (auto simp: keeps_asset_def)

lemma call_ok_mono:
  "call_ok store c \<Longrightarrow> \<forall>k. keeps_asset (dget (assets store) k) (dget (assets store') k) \<Longrightarrow> call_ok store' c"
  using keeps_present by (cases c) (simp, metis call_ok.simps(2), simp)

lemma call_step_ok:
  assumes "call_ok (h_store s) c" "registry_inv (h_registry s)" "call_step s c = (c', r)"
  shows "call_ok (h_store s) c' \<and> registry_inv r"
proof (cases c)
  case (Notifying a k ns ls)
  with assms show ?thesis by (cases ls) (auto simp: call_step_defs registry_inv_quarantine)
next
  case (Searching tenant action iw ks results)
  with assms show ?thesis by (cases ks) (auto simp: call_step_defs split: sum.splits)
qed (use assms in \<open>auto simp: call_step_defs\<close>)

lemma hub_step_inv:
  assumes inv: "hub_inv s" shows "hub_inv (hub_step env s opn)"
proof -
  have calls: "\<forall>c\<in>set (h_calls s). call_ok (h_store (hub_step env s opn)) c"
    using inv call_ok_mono hubs.step_keeps unfolding hub_inv_def by blast
  show ?thesis
  proof (cases opn)
    case (Begin_withdraw k ns)
    show ?thesis
    proof (cases "mark_withdrawn (h_store s) k ns")
      case (Inr m)
      then obtain a store ls where m: "mark_withdrawn (h_store s) k ns = Inr (a, store, ls)" by (cases m) auto
      from store_inv_withdraw [OF _ mark_Inr(1) [OF m]] withdraw_get [OF mark_Inr(1) [OF m]] mark_Inr(2,3) [OF m] inv calls m
      show ?thesis by (auto simp: Begin_withdraw hub_inv_def begin_withdraw_def)
    qed (use inv in \<open>simp add: Begin_withdraw hub_inv_def begin_withdraw_def\<close>)
  next
    case (Begin_search tenant action iw)
    with inv show ?thesis by (auto simp: hub_inv_def begin_search_def set_asset_ids dget_eq_None)
  next
    case (Continue j)
    show ?thesis
    proof (cases "j < length (h_calls s)")
      case True
      obtain c r where c: "call_step s (h_calls s ! j) = (c, r)" by force
      with call_step_ok [OF _ _ c] inv True set_update_subset_insert [of "h_calls s" j c] show ?thesis
        by (auto simp: Continue hub_inv_def)
    qed (use inv Continue in simp)
  next
    case (Register_asset a)
    with inv calls store_inv_register [of "h_store s" env a] show ?thesis
      by (auto simp: hub_inv_def register_def split: sum.splits option.splits)
  next
    case Listen
    with inv calls store_inv_listener [of "h_store s" quarantine] show ?thesis
      by (simp add: hub_inv_def) (simp add: add_revocation_listener_def)
  next
    case (Connector_op ro)
    with inv calls registry_inv_step show ?thesis by (simp add: hub_inv_def)
  qed
qed

lemma hub_run_inv: "hub_inv s \<Longrightarrow> hub_inv (foldl (hub_step env) s opns)"
  by (induction opns arbitrary: s) (simp_all add: hub_step_inv del: hub_step.simps)

text \<open>What a call has returned stays, and its place with it.\<close>

lemma calls_step:
  assumes "j < length (h_calls s)"
  shows "j < length (h_calls (hub_step env s opn))"
    and "opn \<noteq> Continue j \<Longrightarrow> h_calls (hub_step env s opn) ! j = h_calls s ! j"
    and "opn = Continue j \<Longrightarrow> h_calls (hub_step env s opn) ! j = fst (call_step s (h_calls s ! j))"
  using assms
  by (cases opn; auto simp: begin_withdraw_def begin_search_def nth_append split: sum.split prod.split)+

lemma ended_run:
  "j < length (h_calls s) \<Longrightarrow> h_calls s ! j = Ended r \<Longrightarrow>
     j < length (h_calls (foldl (hub_step env) s opns)) \<and> h_calls (foldl (hub_step env) s opns) ! j = Ended r"
proof (induction opns arbitrary: s)
  case (Cons opn opns)
  have "h_calls (hub_step env s opn) ! j = Ended r"
    using calls_step(2,3) [OF Cons.prems(1), of opn env] Cons.prems(2) by (cases "opn = Continue j") (auto simp: call_step_defs)
  with Cons.IH [OF calls_step(1) [OF Cons.prems(1)]] show ?case by simp
qed simp

subsection \<open>A withdrawal reaches the connectors\<close>

text \<open>The call has still to tell the connectors, or has told this one.\<close>

definition informs :: "str \<Rightarrow> str \<Rightarrow> store_call \<Rightarrow> registry \<Rightarrow> bool" where
  "informs i k c r \<longleftrightarrow>
     (\<exists>a ns ls. c = Notifying a k ns ls \<and> quarantine \<in> set ls) \<or> holds_quarantine r i k"

lemma registered_step: "dget r i \<noteq> None \<Longrightarrow> dget (registry_step env r opn) i \<noteq> None"
  by (cases opn)
     (auto simp: register_connector_def acknowledge_def reactivate_def dget_dput dget_quarantine Let_def
        split: option.splits if_splits)

lemma quarantine_keeps: "holds_quarantine r i k \<Longrightarrow> holds_quarantine (quarantine k' ns r) i k"
  by (auto simp: holds_quarantine_def dget_quarantine quarantine_one_def)

text \<open>What a step of a call does to the connectors is nothing, or a quarantine.\<close>

lemma call_step_registry:
  assumes "call_ok (h_store s) c" "call_step s c = (c', r)"
  shows "r = h_registry s \<or> (\<exists>k ns. r = quarantine k ns (h_registry s))"
proof (cases c)
  case (Notifying a k ns ls)
  with assms show ?thesis by (cases ls) (auto simp: call_step_defs)
next
  case (Searching tenant action iw ks results)
  with assms show ?thesis by (cases ks) (auto simp: call_step_defs split: sum.splits)
qed (use assms in \<open>simp add: call_step_defs\<close>)

lemma informs_call:
  assumes "call_ok (h_store s) c" "call_step s c = (c', r)" "informs i k c (h_registry s)" "dget (h_registry s) i \<noteq> None"
  shows "informs i k c' r"
proof (cases "holds_quarantine (h_registry s) i k")
  case True
  with call_step_registry [OF assms(1,2)] quarantine_keeps [OF True] show ?thesis by (auto simp: informs_def)
next
  case False
  then obtain a ns ls where c: "c = Notifying a k ns ls" "quarantine \<in> set ls" using assms(3) by (auto simp: informs_def)
  then obtain ls' where "ls = quarantine # ls'" using assms(1) by (cases ls) auto
  with c assms(2,4) show ?thesis
    by (auto simp: call_step_defs informs_def holds_quarantine_def dget_quarantine quarantine_one_def)
qed

lemma informs_step:
  assumes inv: "hub_inv s" and j: "j < length (h_calls s)"
    and inf: "informs i k (h_calls s ! j) (h_registry s)" "dget (h_registry s) i \<noteq> None"
    and opn: "opn \<noteq> Connector_op (OpAcknowledge i)" and t_def: "t = hub_step env s opn"
  shows "j < length (h_calls t) \<and> informs i k (h_calls t ! j) (h_registry t) \<and> dget (h_registry t) i \<noteq> None"
proof (cases opn)
  case (Begin_withdraw k' ns)
  with j inf show ?thesis
    by (auto simp: t_def begin_withdraw_def nth_append split: sum.split prod.split)
next
  case (Begin_search tenant action iw)
  with j inf show ?thesis by (simp add: t_def begin_search_def nth_append)
next
  case (Continue m)
  show ?thesis
  proof (cases "m < length (h_calls s)")
    case True
    obtain c r where c: "call_step s (h_calls s ! m) = (c, r)" by force
    have ok: "call_ok (h_store s) (h_calls s ! m)" using inv True by (simp add: hub_inv_def)
    note reg = call_step_registry [OF ok c]
    have "dget r i \<noteq> None" using reg inf(2) by (auto simp: dget_quarantine)
    moreover have "informs i k (h_calls t ! j) r"
    proof (cases "m = j")
      case True
      with informs_call [OF ok c] inf c j show ?thesis by (simp add: t_def Continue)
    next
      case False
      with reg inf(1) c j show ?thesis using quarantine_keeps [of "h_registry s" i k] True
        by (auto simp: t_def Continue informs_def)
    qed
    ultimately show ?thesis using True c j by (simp add: t_def Continue)
  qed (use j inf in \<open>simp add: t_def Continue\<close>)
next
  case (Connector_op ro)
  with j inf opn holds_quarantine_step [of "h_registry s" i k ro env] registered_step [OF inf(2)] show ?thesis
    by (auto simp: t_def informs_def)
qed (use j inf in \<open>auto simp: t_def split: sum.split\<close>)

lemma informs_run:
  "hub_inv s \<Longrightarrow> j < length (h_calls s) \<Longrightarrow> informs i k (h_calls s ! j) (h_registry s) \<Longrightarrow>
   dget (h_registry s) i \<noteq> None \<Longrightarrow> Connector_op (OpAcknowledge i) \<notin> set opns \<Longrightarrow> s' = foldl (hub_step env) s opns \<Longrightarrow>
     j < length (h_calls s') \<and> informs i k (h_calls s' ! j) (h_registry s') \<and> dget (h_registry s') i \<noteq> None"
proof (induction opns arbitrary: s)
  case (Cons opn opns)
  let ?t = "hub_step env s opn"
  from informs_step [OF Cons.prems(1-4) _ refl, of opn env] Cons.prems(5)
  have "j < length (h_calls ?t)" "informs i k (h_calls ?t ! j) (h_registry ?t)" "dget (h_registry ?t) i \<noteq> None" by auto
  from Cons.IH [OF hub_step_inv [OF Cons.prems(1)] this] Cons.prems(5,6) show ?case by simp
qed simp

theorem withdrawal_informs:
  assumes inv: "hub_inv s" and heard: "quarantine \<in> set (listeners (h_store s))" and reg: "dget (h_registry s) i \<noteq> None"
    and opns: "Connector_op (OpAcknowledge i) \<notin> set opns"
    and s': "s' = foldl (hub_step env) s (Begin_withdraw k ns # opns)"
    and ended: "h_calls s' ! length (h_calls s) = Ended (Inr res)"
  shows "holds_quarantine (h_registry s') i k \<and> (\<exists>b. get_asset (h_store s') k = Inr b \<and> withdrawn b)"
proof (cases "mark_withdrawn (h_store s) k ns")
  case (Inl e)
  define s1 where "s1 = hub_step env s (Begin_withdraw k ns)"
  have "h_calls s1 ! length (h_calls s) = Ended (Inl e)" "length (h_calls s) < length (h_calls s1)"
    using Inl by (simp_all add: s1_def begin_withdraw_def)
  then have "h_calls (foldl (hub_step env) s1 opns) ! length (h_calls s) = Ended (Inl e)"
    using ended_run by blast
  with ended s' show ?thesis by (simp add: s1_def)
next
  case (Inr m)
  then obtain a store ls where m: "mark_withdrawn (h_store s) k ns = Inr (a, store, ls)" by (cases m) auto
  define s1 where "s1 = hub_step env s (Begin_withdraw k ns)"
  have s1: "h_calls s1 ! length (h_calls s) = Notifying a k ns (listeners (h_store s))"
    "length (h_calls s) < length (h_calls s1)" "h_registry s1 = h_registry s" "h_store s1 = store"
    using m mark_Inr(2) [OF m] by (simp_all add: s1_def begin_withdraw_def)
  have run: "s' = foldl (hub_step env) s1 opns" by (simp add: s' s1_def del: hub_step.simps)
  have "informs i k (h_calls s1 ! length (h_calls s)) (h_registry s1)" using heard by (simp add: informs_def s1(1))
  from informs_run [OF hub_step_inv [OF inv, of env "Begin_withdraw k ns", folded s1_def] s1(2) this _ opns run] ended reg
  have "holds_quarantine (h_registry s') i k" by (auto simp: s1(3) informs_def)
  moreover have "dget (assets (h_store s1)) k = Some a" "withdrawn a"
    using withdraw_get [OF mark_Inr(1) [OF m], of k] by (simp_all add: s1(4) get_asset_iff)
  from hubs.withdrawn_forever [OF this, of env opns] have "\<exists>b. get_asset (h_store s') k = Inr b \<and> withdrawn b"
    by (simp add: run get_asset_iff)
  ultimately show ?thesis by blast
qed

subsection \<open>A search among other calls\<close>

text \<open>What was found of the ids \<open>ks\<close>, by a search that began with the store \<open>s0\<close> and now sees \<open>s\<close>.\<close>

definition found_ok ::
    "registry asset_store \<Rightarrow> registry asset_store \<Rightarrow> str \<Rightarrow> str option \<Rightarrow> bool \<Rightarrow> str list \<Rightarrow> asset list \<Rightarrow> bool" where
  "found_ok s0 s tenant action iw ks results \<longleftrightarrow>
     (\<exists>P. map asset_id results = filter P ks)
     \<and> (\<forall>a\<in>set results. search_keeps tenant action iw a
          \<and> keeps_asset (dget (assets s0) (asset_id a)) (Some a) \<and> keeps_asset (Some a) (dget (assets s) (asset_id a)))
     \<and> (\<forall>k\<in>set ks. \<forall>b. dget (assets s) k = Some b \<and> search_keeps tenant action iw b \<longrightarrow> k \<in> asset_id ` set results)"

lemma search_keeps_earlier:
  assumes "keeps_asset (Some a) (Some b)" "search_keeps tenant action iw b"
  shows "search_keeps tenant action iw a"
proof -
  have b: "b = a\<lparr>withdrawn := withdrawn b\<rparr>" "withdrawn a \<longrightarrow> withdrawn b" using assms(1) by (auto simp: keeps_asset_def)
  then have "tenant_id b = tenant_id a" "usage_constraints b = usage_constraints a"
    by (metis asset.select_convs(4) asset.surjective asset.update_convs(13))
       (metis asset.select_convs(8) asset.surjective asset.update_convs(13) b(1))
  with assms(2) b(2) show ?thesis by (auto simp: search_keeps_def split: option.splits)
qed

lemma found_ok_later:
  assumes "found_ok s0 s tenant action iw ks results" "\<forall>k. keeps_asset (dget (assets s) k) (dget (assets s') k)"
    and "\<forall>k\<in>set ks. dget (assets s) k \<noteq> None"
  shows "found_ok s0 s' tenant action iw ks results"
  unfolding found_ok_def
proof (intro conjI ballI allI impI)
  show "\<exists>P. map asset_id results = filter P ks" using assms(1) by (simp add: found_ok_def)
next
  fix a assume a: "a \<in> set results"
  with assms(1) show "search_keeps tenant action iw a" "keeps_asset (dget (assets s0) (asset_id a)) (Some a)"
    by (simp_all add: found_ok_def)
  from a assms(1) have "keeps_asset (Some a) (dget (assets s) (asset_id a))" by (simp add: found_ok_def)
  also have "keeps_asset (dget (assets s) (asset_id a)) (dget (assets s') (asset_id a))" using assms(2) by blast
  finally show "keeps_asset (Some a) (dget (assets s') (asset_id a))" .
next
  fix k b assume k: "k \<in> set ks" and b: "dget (assets s') k = Some b \<and> search_keeps tenant action iw b"
  obtain c where c: "dget (assets s) k = Some c" using assms(3) k by blast
  with assms(2) b have "keeps_asset (Some c) (Some b)" by metis
  with search_keeps_earlier b have "search_keeps tenant action iw c" by blast
  with assms(1) k c show "k \<in> asset_id ` set results" by (simp add: found_ok_def)
qed

lemma found_ok_read:
  assumes "found_ok s0 s tenant action iw ks results" "dget (assets s) k = Some a" "asset_id a = k" "k \<notin> set ks"
    and "keeps_asset (dget (assets s0) k) (Some a)"
  shows "found_ok s0 s tenant action iw (ks @ [k]) (if search_keeps tenant action iw a then results @ [a] else results)"
proof -
  let ?keep = "search_keeps tenant action iw a"
  obtain P where P: "map asset_id results = filter P ks" using assms(1) by (auto simp: found_ok_def)
  have "filter (P(k := ?keep)) ks = filter P ks" using assms(4) by (intro filter_cong) auto
  then have "map asset_id (if ?keep then results @ [a] else results) = filter (P(k := ?keep)) (ks @ [k])"
    using P assms(3) by simp
  then have "\<exists>Q. map asset_id (if ?keep then results @ [a] else results) = filter Q (ks @ [k])" by blast
  moreover have "search_keeps tenant action iw c \<and> keeps_asset (dget (assets s0) (asset_id c)) (Some c)
      \<and> keeps_asset (Some c) (dget (assets s) (asset_id c))"
    if "c \<in> set (if ?keep then results @ [a] else results)" for c
    using that assms by (cases "c = a \<and> ?keep") (auto simp: found_ok_def split: if_splits)
  moreover have "q \<in> asset_id ` set (if ?keep then results @ [a] else results)"
    if "q \<in> set (ks @ [k])" "dget (assets s) q = Some b \<and> search_keeps tenant action iw b" for q b
    using that assms by (cases "q = k") (auto simp: found_ok_def)
  ultimately show ?thesis unfolding found_ok_def by blast
qed

text \<open>Where a search that began with the store \<open>s0\<close> stands.\<close>

definition search_ok ::
    "registry asset_store \<Rightarrow> registry asset_store \<Rightarrow> str \<Rightarrow> str option \<Rightarrow> bool \<Rightarrow> store_call \<Rightarrow> bool" where
  "search_ok s0 s tenant action iw c \<longleftrightarrow>
     (\<exists>ks ks' results. asset_ids s0 = ks @ ks' \<and> found_ok s0 s tenant action iw ks results
        \<and> (c = Searching tenant action iw ks' results \<or> ks' = [] \<and> c = Ended (Inr (Found results))))"

lemma asset_ids_distinct: "store_inv s \<Longrightarrow> distinct (asset_ids s)"
  by (simp add: asset_ids_def store_inv_def wf_dict_def)

lemma asset_ids_present: "k \<in> set (asset_ids s) \<Longrightarrow> dget (assets s) k \<noteq> None"
  by (simp add: set_asset_ids dget_eq_None)

lemma search_ok_later:
  assumes "search_ok s0 s tenant action iw c" "\<forall>k. keeps_asset (dget (assets s0) k) (dget (assets s) k)"
    and "\<forall>k. keeps_asset (dget (assets s) k) (dget (assets s') k)"
  shows "search_ok s0 s' tenant action iw c"
proof -
  from assms(1) obtain ks ks' results where o: "asset_ids s0 = ks @ ks'" "found_ok s0 s tenant action iw ks results"
    "c = Searching tenant action iw ks' results \<or> ks' = [] \<and> c = Ended (Inr (Found results))"
    by (auto simp: search_ok_def)
  have "dget (assets s) k \<noteq> None" if "k \<in> set ks" for k
    using asset_ids_present [of k s0] o(1) that keeps_present assms(2) by (metis UnCI set_append)
  with found_ok_later [OF o(2) assms(3)] o(1,3) show ?thesis unfolding search_ok_def by blast
qed

lemma found_sorted:
  assumes "store_inv s0" "found_ok s0 s tenant action iw (asset_ids s0) results"
  shows "sorted (map asset_id results) \<and> distinct (map asset_id results) \<and> sort_key asset_id results = results"
proof -
  obtain P where "map asset_id results = filter P (asset_ids s0)" using assms(2) by (auto simp: found_ok_def)
  then have "sorted (map asset_id results) \<and> distinct (map asset_id results)"
    using asset_ids_sorted [of s0] asset_ids_distinct [OF assms(1)] by (simp add: sorted_wrt_filter)
  then show ?thesis by (simp add: sort_key_id_if_sorted)
qed

lemma found_read:
  assumes "found_ok s0 s tenant action iw (asset_ids s0) results" "a \<in> set results"
  shows "\<exists>b. get_asset s0 (asset_id a) = Inr b \<and> a = b\<lparr>withdrawn := withdrawn a\<rparr> \<and> (withdrawn b \<longrightarrow> withdrawn a)"
proof -
  obtain P where "map asset_id results = filter P (asset_ids s0)" using assms(1) by (auto simp: found_ok_def)
  from arg_cong [OF this, of set] assms(2) have "asset_id a \<in> set (asset_ids s0)" by auto
  then obtain b where "dget (assets s0) (asset_id a) = Some b" using asset_ids_present by blast
  with assms show ?thesis by (auto simp: found_ok_def keeps_asset_def get_asset_iff)
qed

lemma found_all:
  assumes "found_ok s0 s tenant action iw (asset_ids s0) results" "get_asset s0 k = Inr b" "get_asset s k = Inr c"
    and "search_keeps tenant action iw c"
  shows "k \<in> asset_id ` set results"
proof -
  have "k \<in> set (asset_ids s0)" using assms(2) dget_eq_None [of "assets s0" k] by (simp add: get_asset_iff set_asset_ids)
  with assms(1,3,4) show ?thesis unfolding found_ok_def get_asset_iff by blast
qed

lemma search_ok_call:
  assumes "search_ok s0 (h_store s) tenant action iw c" "store_inv s0" "store_inv (h_store s)"
    and "\<forall>k. keeps_asset (dget (assets s0) k) (dget (assets (h_store s)) k)"
  shows "search_ok s0 (h_store s) tenant action iw (fst (call_step s c))"
proof -
  from assms(1) obtain ks ks' results where o: "asset_ids s0 = ks @ ks'" "found_ok s0 (h_store s) tenant action iw ks results"
    "c = Searching tenant action iw ks' results \<or> ks' = [] \<and> c = Ended (Inr (Found results))"
    by (auto simp: search_ok_def)
  show ?thesis
  proof (cases ks')
    case Nil
    with o found_sorted [OF assms(2), of "h_store s" tenant action iw results] have "fst (call_step s c) = Ended (Inr (Found results))"
      by (auto simp: call_step_defs)
    with o Nil show ?thesis unfolding search_ok_def by blast
  next
    case (Cons k rest)
    with o(1) have "dget (assets s0) k \<noteq> None" by (intro asset_ids_present) simp
    with keeps_present assms(4) obtain a where a: "dget (assets (h_store s)) k = Some a" by blast
    have id: "asset_id a = k" using assms(3) a by (simp add: store_inv_def)
    have new: "k \<notin> set ks" using asset_ids_distinct [OF assms(2)] o(1) Cons by simp
    have "keeps_asset (dget (assets s0) k) (Some a)" using assms(4) a by metis
    from found_ok_read [OF o(2) a id new this] o(1,3) Cons a show ?thesis
      by (auto simp: search_ok_def call_step_defs get_asset_def intro!: exI [of _ "ks @ [k]"])
  qed
qed

lemma search_ok_run:
  "hub_inv s \<Longrightarrow> store_inv s0 \<Longrightarrow> \<forall>k. keeps_asset (dget (assets s0) k) (dget (assets (h_store s)) k) \<Longrightarrow>
   j < length (h_calls s) \<Longrightarrow> search_ok s0 (h_store s) tenant action iw (h_calls s ! j) \<Longrightarrow>
   s' = foldl (hub_step env) s opns \<Longrightarrow> search_ok s0 (h_store s') tenant action iw (h_calls s' ! j)"
proof (induction opns arbitrary: s)
  case (Cons opn opns)
  let ?t = "hub_step env s opn"
  have keeps: "\<forall>k. keeps_asset (dget (assets (h_store s)) k) (dget (assets (h_store ?t)) k)" using hubs.step_keeps by blast
  then have "\<forall>k. keeps_asset (dget (assets s0) k) (dget (assets (h_store ?t)) k)"
    using Cons.prems(3) keeps_asset_trans by blast
  moreover have "search_ok s0 (h_store ?t) tenant action iw (h_calls ?t ! j)"
  proof (cases "opn = Continue j")
    case True
    have "store_inv (h_store s)" using Cons.prems(1) by (simp add: hub_inv_def)
    from search_ok_call [OF Cons.prems(5,2) this Cons.prems(3)] calls_step(3) [OF Cons.prems(4) True, of env] True
    show ?thesis by (simp del: hub_step.simps)
  next
    case False
    with search_ok_later [OF Cons.prems(5,3) keeps] calls_step(2) [OF Cons.prems(4) False] show ?thesis by simp
  qed
  moreover have "j < length (h_calls ?t)" by (rule calls_step(1) [OF Cons.prems(4)])
  ultimately show ?case
    using Cons.IH [OF hub_step_inv [OF Cons.prems(1)] Cons.prems(2)] Cons.prems(6) by simp
qed simp

theorem search_among_calls:
  assumes inv: "hub_inv s" and s': "s' = foldl (hub_step env) s (Begin_search tenant action iw # opns)"
    and ended: "h_calls s' ! length (h_calls s) = Ended r"
  shows "\<exists>results. r = Inr (Found results) \<and> found_ok (h_store s) (h_store s') tenant action iw (asset_ids (h_store s)) results"
proof -
  have "found_ok (h_store s) (h_store s) tenant action iw [] []" by (simp add: found_ok_def)
  then have "search_ok (h_store s) (h_store s) tenant action iw (Searching tenant action iw (asset_ids (h_store s)) [])"
    unfolding search_ok_def by (intro exI [of _ "[]"] exI [of _ "asset_ids (h_store s)"]) simp
  with search_ok_run [of "begin_search s tenant action iw" "h_store s" "length (h_calls s)" tenant action iw s' env opns]
    hub_step_inv [OF inv, of env "Begin_search tenant action iw"] inv s'
  have "search_ok (h_store s) (h_store s') tenant action iw (h_calls s' ! length (h_calls s))"
    by (simp add: begin_search_def hub_inv_def)
  with ended show ?thesis by (auto simp: search_ok_def)
qed

subsection \<open>Every call ends, and a call alone is the operation\<close>

fun call_left :: "store_call \<Rightarrow> nat" where
  "call_left (Notifying a k ns ls) = Suc (length ls)"
| "call_left (Searching tenant action iw ks results) = Suc (length ks)"
| "call_left (Ended r) = 0"

lemma call_left_step: "call_left (fst (call_step s c)) \<le> call_left c - 1"
proof (cases c)
  case (Notifying a k ns ls)
  then show ?thesis by (cases ls) (simp_all add: call_step_defs)
next
  case (Searching tenant action iw ks results)
  then show ?thesis by (cases ks) (simp_all add: call_step_defs split: sum.split)
qed (simp add: call_step_defs)

interpretation calls: scheduled "hub_step env" "\<lambda>s. length (h_calls s)" "\<lambda>s i. call_left (h_calls s ! i)" "\<lambda>i. (=) (Continue i)"
proof (unfold_locales, goal_cases)
  case (1 i s opn)
  then show ?case by (rule calls_step(1))
next
  case (2 i s opn)
  then have "h_calls (hub_step env s opn) ! i = fst (call_step s (h_calls s ! i))" using calls_step(3) by metis
  then show ?case by (simp only: call_left_step)
next
  case (3 i s opn)
  then have "h_calls (hub_step env s opn) ! i = h_calls s ! i" using calls_step(2) by metis
  then show ?case by (simp only:)
qed

lemma call_ends:
  assumes "j < length (h_calls s)" "call_left (h_calls s ! j) \<le> count_list opns (Continue j)"
  shows "\<exists>r. h_calls (foldl (hub_step env) s opns) ! j = Ended r"
proof -
  have "call_left (h_calls (foldl (hub_step env) s opns) ! j) = 0"
    by (rule calls.ends [OF assms(1)]) (use assms(2) in \<open>simp add: count_list_eq_length_filter\<close>)
  then show ?thesis by (cases "h_calls (foldl (hub_step env) s opns) ! j") simp_all
qed

lemma continue_ended:
  "j < length (h_calls s) \<Longrightarrow> h_calls s ! j = Ended r \<Longrightarrow> foldl (hub_step env) s (replicate n (Continue j)) = s"
proof (induction n)
  case (Suc n)
  have "(h_calls s)[j := Ended r] = h_calls s" using Suc.prems(2) by (metis list_update_id)
  with Suc show ?case by (simp add: call_step_defs)
qed simp

lemma notifying_alone:
  assumes "j < length (h_calls s)" "h_calls s ! j = Notifying a k ns ls" "length ls < n"
    and "s' = foldl (hub_step env) s (replicate n (Continue j))"
  shows "h_calls s' ! j = Ended (Inr (Withdrew a)) \<and> h_store s' = h_store s \<and> h_registry s' = notify ls k ns (h_registry s)"
  using assms
proof (induction ls arbitrary: s n)
  case Nil
  then obtain m where n: "n = Suc m" by (cases n) auto
  define t where "t = hub_step env s (Continue j)"
  have t: "t = s\<lparr>h_calls := (h_calls s)[j := Ended (Inr (Withdrew a))]\<rparr>"
    using Nil.prems(1,2) by (simp add: t_def call_step_defs)
  have "s' = t"
    using Nil.prems(1,4) continue_ended [of j t "Inr (Withdrew a)" env m]
    by (simp add: n t del: hub_step.simps flip: t_def)
  with Nil.prems(1) show ?case by (simp add: t notify_def)
next
  case (Cons l ls)
  then obtain m where n: "n = Suc m" "length ls < m" by (cases n) auto
  define t where "t = hub_step env s (Continue j)"
  have t: "t = s\<lparr>h_calls := (h_calls s)[j := Notifying a k ns ls], h_registry := l k ns (h_registry s)\<rparr>"
    using Cons.prems(1,2) by (simp add: t_def call_step_defs)
  have "s' = foldl (hub_step env) t (replicate m (Continue j))" using Cons.prems(4) by (simp add: n t_def del: hub_step.simps)
  from Cons.IH [OF _ _ n(2) this] Cons.prems(1) show ?case by (simp add: t notify_def)
qed

theorem withdraw_alone:
  assumes "length (listeners (h_store s)) < n"
    and "s' = foldl (hub_step env) s (Begin_withdraw k ns # replicate n (Continue (length (h_calls s))))"
  shows "case withdraw (h_store s) k ns (h_registry s) of
      Inl e \<Rightarrow> h_calls s' ! length (h_calls s) = Ended (Inl e) \<and> h_store s' = h_store s \<and> h_registry s' = h_registry s
    | Inr (a, store, r) \<Rightarrow>
        h_calls s' ! length (h_calls s) = Ended (Inr (Withdrew a)) \<and> h_store s' = store \<and> h_registry s' = r"
proof (cases "mark_withdrawn (h_store s) k ns")
  case (Inl e)
  define t where "t = begin_withdraw s k ns"
  have t: "t = s\<lparr>h_calls := h_calls s @ [Ended (Inl e)]\<rparr>" by (simp add: t_def begin_withdraw_def Inl)
  have "s' = t"
    using assms(2) continue_ended [of "length (h_calls s)" t "Inl e" env n] by (simp flip: t_def) (simp add: t)
  then show ?thesis by (simp add: mark_withdraw Inl t)
next
  case (Inr m)
  then obtain a store ls where m: "mark_withdrawn (h_store s) k ns = Inr (a, store, ls)" by (cases m) auto
  define t where "t = begin_withdraw s k ns"
  have t: "t = s\<lparr>h_store := store, h_calls := h_calls s @ [Notifying a k ns ls]\<rparr>" by (simp add: t_def begin_withdraw_def m)
  have "length ls < n" using assms(1) mark_Inr(2) [OF m] by simp
  from notifying_alone [of "length (h_calls s)" t a k ns ls n s' env, OF _ _ this] assms(2) show ?thesis
    by (simp add: mark_withdraw m flip: t_def) (simp add: t)
qed

lemma searching_alone:
  assumes "j < length (h_calls s)" "h_calls s ! j = Searching tenant action iw ks results" "length ks < n"
    and "s' = foldl (hub_step env) s (replicate n (Continue j))"
  shows "h_calls s' ! j = Ended (case search_loop (h_store s) tenant action iw ks results of
        Inl e \<Rightarrow> Inl e | Inr found \<Rightarrow> Inr (Found (sort_key asset_id found)))
    \<and> h_store s' = h_store s \<and> h_registry s' = h_registry s"
  using assms
proof (induction ks arbitrary: s n results)
  case Nil
  then obtain m where n: "n = Suc m" by (cases n) auto
  define t where "t = hub_step env s (Continue j)"
  have t: "t = s\<lparr>h_calls := (h_calls s)[j := Ended (Inr (Found (sort_key asset_id results)))]\<rparr>"
    using Nil.prems(1,2) by (simp add: t_def call_step_defs)
  have "s' = t"
    using Nil.prems(1,4) continue_ended [of j t "Inr (Found (sort_key asset_id results))" env m]
    by (simp add: n t del: hub_step.simps flip: t_def)
  with Nil.prems(1) show ?case by (simp add: t)
next
  case (Cons k ks)
  then obtain m where n: "n = Suc m" "length ks < m" by (cases n) auto
  define t where "t = hub_step env s (Continue j)"
  have run: "s' = foldl (hub_step env) t (replicate m (Continue j))" using Cons.prems(4) by (simp add: n t_def del: hub_step.simps)
  show ?case
  proof (cases "get_asset (h_store s) k")
    case (Inl e)
    then have t: "t = s\<lparr>h_calls := (h_calls s)[j := Ended (Inl e)]\<rparr>" using Cons.prems(1,2) by (simp add: t_def call_step_defs)
    have "s' = t" unfolding run using Cons.prems(1) by (intro continue_ended) (simp_all add: t)
    with Cons.prems(1) Inl show ?thesis by (simp add: t)
  next
    case (Inr a)
    then have t: "t = s\<lparr>h_calls := (h_calls s)[j := Searching tenant action iw ks
        (if search_keeps tenant action iw a then results @ [a] else results)]\<rparr>"
      using Cons.prems(1,2) by (simp add: t_def call_step_defs)
    from Cons.IH [OF _ _ n(2) run] Cons.prems(1) Inr show ?thesis by (simp add: t)
  qed
qed

theorem search_alone:
  assumes "length (asset_ids (h_store s)) < n"
    and "s' = foldl (hub_step env) s (Begin_search tenant action iw # replicate n (Continue (length (h_calls s))))"
  shows "h_calls s' ! length (h_calls s) = Ended (case search (h_store s) tenant action iw of
        Inl e \<Rightarrow> Inl e | Inr found \<Rightarrow> Inr (Found found))
    \<and> h_store s' = h_store s \<and> h_registry s' = h_registry s"
proof -
  define t where "t = begin_search s tenant action iw"
  have t: "t = s\<lparr>h_calls := h_calls s @ [Searching tenant action iw (asset_ids (h_store s)) []]\<rparr>"
    by (simp add: t_def begin_search_def)
  from searching_alone [of "length (h_calls s)" t tenant action iw "asset_ids (h_store s)" "[]" n s' env, OF _ _ assms(1)] assms(2)
  show ?thesis
    by (simp flip: t_def) (simp add: t search_def andthen_def split: sum.split)
qed

end
