(* ===== verification/Samples.thy ===== *)
theory Samples
  imports BenchmarkProofs EngineThreadsProofs ServiceThreadsProofs StoreThreadsProofs
begin

text \<open>
  Concrete data for the witnesses of the properties: a service seeded for the spring of
  2026, the request that an empty body stands for, a system with one asset and one connector,
  a run with two parties, a summary of a load test, a run of the evidence script,
  two requests that race. The facts about them are what the witnesses discharge their
  hypotheses with.
\<close>

definition sample_day :: "nat \<Rightarrow> datetime" where
  "sample_day m = epoch\<lparr>year := 2026, month := m\<rparr>"

definition sample_reading :: reading where
  "sample_reading =
     \<lparr>rd_from = sample_day 4, rd_until = sample_day 6, rd_now = sample_day 5, rd_ns = 7,
      rd_withdraw_ns = 8, rd_ticket = [1, 2, 3, 4, 5, 6], rd_elapsed = []\<rparr>"

definition sample_gateway :: gateway_state where
  "sample_gateway = \<lparr>tokens = \<lparr>token_key = SHARED_TOKEN_KEY, used_nonces = {}\<rparr>, counter = 0\<rparr>"

definition sample_store :: "unit asset_store" where
  "sample_store = sv_store (seeded (sample_day 4) (sample_day 6))"

definition sample_request :: policy_request where
  "sample_request = default_request sample_reading"

definition sample_asset :: asset where
  "sample_asset = bench_asset (sample_day 4) (sample_day 6) 0"

lemma sample_instants:
  "instant (sample_day 4) = 63910684800000000" "instant (sample_day 5) = 63913276800000000"
  "instant (sample_day 6) = 63915955200000000"
  by (simp_all add: instant_def local_us_def sample_day_def epoch_def toordinal_def days_before_year_def
      days_before_month_def days_in_month_def is_leap_def upt_rec Let_def)

lemma sample_days:
  "dt_lt (sample_day 4) (sample_day 6) = Inr True"
  "comparable (sample_day 5) (sample_day 4)" "comparable (sample_day 6) (sample_day 5)"
  "instant (sample_day 4) \<le> instant (sample_day 5)" "instant (sample_day 5) \<le> instant (sample_day 6)"
  by (simp_all add: sample_instants dt_lt_def comparable_def) (simp_all add: sample_day_def epoch_def)

lemma sample_ns: "length (str_int (rd_ns sample_reading)) \<le> 100"
  by (simp add: sample_reading_def str_int_def dec.simps)

lemma sample_request_ok: "request_ok sample_request"
  using default_request_ok [OF sample_ns] by (simp add: sample_request_def)

lemma sample_outcome:
  "outcome ascii_env bench_keys sample_store sample_request (sample_day 5) ts = (ALLOWED, ts)"
  using default_allowed [of sample_reading "sample_day 4" "sample_day 6" ascii_env ts] sample_days
  by (simp add: sample_store_def sample_request_def sample_reading_def)

lemma sample_counter: "0 \<le> counter sample_gateway"
  by (simp add: sample_gateway_def)

lemma sample_evaluates:
  obtains d gs where
    "evaluate ascii_env bench_keys sample_store [1] sample_request (sample_day 5) sample_gateway = (Inr d, gs)"
    and "d_state d = ALLOWED" and "tokens gs = tokens sample_gateway"
  using evaluate_outcome [OF sample_counter sample_request_ok, of ascii_env bench_keys sample_store "[1]" "sample_day 5"]
  by (auto simp: sample_outcome)

definition sample_call :: "unit gate_call" where
  "sample_call =
     \<lparr>g_store = sample_store, g_request = sample_request, g_ticket = [1], g_now = sample_day 5\<rparr>"

definition sample_draw :: draw where
  "sample_draw =
     \<lparr>dr_ticket = [1], dr_run_id = lit ''run-1'', dr_now = sample_day 5,
      dr_clock1 = (sample_day 5, 1), dr_clock2 = (sample_day 5, 2)\<rparr>"

lemma sample_store_inv: "store_inv sample_store"
  using seeded_ok by (simp add: sample_store_def running_ok_def)

lemma sample_get: "get_asset sample_store (lit ''bench-asset-0'') = Inr sample_asset"
  by (simp add: get_asset_def sample_store_def sample_asset_def seeded_def bench_zero upt_conv_Cons
      flip: bench_zero)

subsection \<open>Two requests at the gateway, and one call of the engine\<close>

lemma sample_no_tokens: "consent_tokens sample_request = []"
  by (simp add: sample_request_def default_request_def)

definition sample_race :: "unit race" where
  "sample_race =
     foldl (race_step ascii_env bench_keys) (race_start sample_store () sample_gateway)
       [Arrive sample_request (sample_day 5) [1], Arrive sample_request (sample_day 5) [2]]"

lemma sample_race_reach: "race_reach ascii_env bench_keys sample_race"
  unfolding sample_race_def by (intro race_run_reach race_reach.start sample_counter)

lemma sample_race_simps:
  "r_store sample_race = sample_store" "r_gate sample_race = sample_gateway"
  "r_threads sample_race = [new_thread sample_request (sample_day 5) [1], new_thread sample_request (sample_day 5) [2]]"
  by (simp_all add: sample_race_def race_start_def)

text \<open>Both threads to their end, one step of each in turn.\<close>

definition sample_turns :: "unit race_op list" where
  "sample_turns = [Run 0, Run 1, Run 0, Run 1, Run 0, Run 1, Run 0, Run 1, Run 0, Run 1]"

lemma sample_turns_end:
  assumes "i < 2"
  shows "\<exists>d. t_phase (r_threads (foldl (race_step ascii_env bench_keys) sample_race sample_turns) ! i) = Finished (Inr d)"
proof -
  have i: "i = 0 \<or> i = 1" using assms by auto
  then have "left (r_threads sample_race ! i) \<le> count_list sample_turns (Run i)" "i < length (r_threads sample_race)"
    by (auto simp: sample_race_simps new_thread_left sample_no_tokens sample_turns_def)
  from thread_finishes [OF sample_race_reach this(2,1)] show ?thesis by blast
qed

definition sample_office :: "unit office" where
  "sample_office =
     office_step ascii_env bench_keys (office_start sample_store () (new_engine sample_gateway (lit ''t'')))
       (Call (Submit sample_request) [1] (lit ''run-1'') (sample_day 5))"

lemma sample_office_reach: "office_reach ascii_env bench_keys sample_office (-1)"
  using office_reach.step [OF office_reach.start [OF sample_counter],
      where opn = "Call (Submit sample_request) [1] (lit ''run-1'') (sample_day 5)"]
  by (simp add: sample_office_def)

lemma sample_office_simps:
  "o_store sample_office = sample_store" "o_engine sample_office = new_engine sample_gateway (lit ''t'')"
  "o_workers sample_office = [new_worker (Submit sample_request) [1] (lit ''run-1'') (sample_day 5)]"
  by (simp_all add: sample_office_def office_start_def)

subsection \<open>A system\<close>

definition sample_world :: world where
  "sample_world =
     foldl (world_step ascii_env bench_keys) (new_world \<lparr>token_key = SHARED_TOKEN_KEY, used_nonces = {}\<rparr> (lit ''t''))
       [WRegister sample_asset, WConnector (OpRegisterConnector (lit ''edge''))]"

lemma sample_world_reach: "world_reach ascii_env bench_keys sample_world"
  unfolding sample_world_def by (intro world_reach_run world_reach.start)

lemma sample_world_asset: "contains_asset (w_store sample_world) (lit ''bench-asset-0'')"
  by (simp add: sample_world_def new_world_def add_revocation_listener_def new_store_def register_def
      contains_asset_def sample_asset_def bench_zero)

lemma sample_world_connector: "dget (w_registry sample_world) (lit ''edge'') \<noteq> None"
  by (simp add: sample_world_def new_world_def add_revocation_listener_def new_store_def register_def
      register_connector_def)

subsection \<open>A run with two parties\<close>

definition sample_run :: "contribution list" where
  "sample_run = [(lit ''a'', lit ''c1'', PInt 3333), (lit ''b'', lit ''c2'', PInt 6667)]"

lemma sample_split: "split_cents 100 [3333, 6667] = [33, 67]"
  by code_simp

lemma sample_weights: "weights sample_run = [PInt 3333, PInt 6667]"
  by (simp add: sample_run_def weights_def)

lemma sample_allocate: "allocate_cents (PInt 100) [PInt 3333, PInt 6667] = Inr [33, 67]"
  by (simp add: allocate_iff weights_ok_def BASIS_POINTS_TOTAL_def sample_split)

subsection \<open>An engine with one run\<close>

definition sample_engine :: engine where
  "sample_engine =
     engine_do ascii_env bench_keys (new_engine sample_gateway (lit ''t'')) (OpSubmit sample_store sample_draw sample_request)"

lemma sample_engine_reach: "engine_reach ascii_env bench_keys (\<lambda>s. s = sample_store) sample_engine"
  unfolding sample_engine_def by (intro engine_reach.step engine_reach.start sample_counter) simp

lemma sample_engine_length: "0 < length (objects sample_engine)"
proof -
  have "engine_inv (new_engine sample_gateway (lit ''t''))" by (rule engine_inv_new [OF sample_counter])
  from submit_decisions [OF this, of ascii_env bench_keys sample_store sample_draw sample_request]
  obtain d where "map decision (objects sample_engine) =
      map decision (objects (new_engine sample_gateway (lit ''t''))) @ [Some d]"
    by (metis sample_engine_def engine_do.simps(1))
  then have "length (objects sample_engine) = length (objects (new_engine sample_gateway (lit ''t''))) + 1"
    by (metis length_append_singleton length_map Suc_eq_plus1)
  then show ?thesis by simp
qed

lemma sample_posts:
  "\<exists>recs s'. post_run ascii_env new_ledger (lit ''r1'') (PInt 100) sample_run (sample_day 5) = (Inr recs, s')"
proof -
  have "\<not> posted new_ledger (lit ''r1'')" by (simp add: posted_def new_ledger_def)
  then show ?thesis
    using post_run_cases [OF ledger_inv_new, of ascii_env "lit ''r1''" "PInt 100" sample_run "sample_day 5"]
    by (simp add: sample_weights sample_allocate)
qed

subsection \<open>A trace with two events\<close>

definition sample_append :: "int \<Rightarrow> trace_op" where
  "sample_append ns =
     \<lparr>op_request = lit ''r1'', op_event = lit ''run.started'', op_actor = lit ''agent'', op_detail = None,
      op_wall = sample_day 5, op_clock = ns\<rparr>"

definition sample_trace :: recorder where
  "sample_trace = foldl trace_step (new_recorder (lit ''t'')) [sample_append 1, sample_append 2]"

lemma sample_appends:
  assumes "digest_text (head_hash (events rc))" "rec_trace_id rc = lit ''t''" "0 \<le> ns"
  shows "\<exists>r. trace_step rc (sample_append ns) = rc\<lparr>events := events rc @ [r]\<rparr>
    \<and> digest_text (event_hash r) \<and> json_ok (body_of r)"
proof -
  let ?b = "event_body (rec_trace_id rc) (lit ''r1'') (int (length (events rc))) (sample_day 5) ns
      (lit ''run.started'') (lit ''agent'') []"
  have "valid_str (isoformat (sample_day 5))" by (rule ascii_valid_str) (rule isoformat_ascii)
  then have ok: "json_ok ?b" using assms(2) by (simp add: event_body_def wf_dict_def valid_lit)
  have "json_ok (event_body (rec_trace_id rc) (lit ''r1'') (int (length (events rc))) (sample_day 5) ns
      (lit ''run.started'') (lit ''agent'') (case None of None \<Rightarrow> [] | Some kvs \<Rightarrow> kvs))" using ok by simp
  from append_defined [OF assms(1) this assms(3)] ok show ?thesis
    by (auto simp: trace_step_def sample_append_def)
qed

lemma sample_trace_shape:
  obtains r q where "events sample_trace = [r, q]" "json_ok (body_of r)" "json_ok (body_of q)"
proof -
  obtain r where r: "trace_step (new_recorder (lit ''t'')) (sample_append 1) = (new_recorder (lit ''t''))\<lparr>events := [r]\<rparr>"
    "digest_text (event_hash r)" "json_ok (body_of r)"
    using sample_appends [of "new_recorder (lit ''t'')" 1] digest_text_genesis
    by (auto simp: head_hash_def new_recorder_def)
  obtain q where q: "trace_step ((new_recorder (lit ''t''))\<lparr>events := [r]\<rparr>) (sample_append 2) =
      (new_recorder (lit ''t''))\<lparr>events := [r, q]\<rparr>" "json_ok (body_of q)"
    using sample_appends [of "(new_recorder (lit ''t''))\<lparr>events := [r]\<rparr>" 2] r(2)
    by (auto simp: head_hash_def new_recorder_def)
  have "events sample_trace = [r, q]" by (simp add: sample_trace_def r(1) q(1))
  with r(3) q(2) show ?thesis using that by blast
qed

lemma sample_trace_ok: "\<forall>r\<in>set (events sample_trace). json_ok (body_of r)"
  by (rule sample_trace_shape) simp

lemma sample_trace_length: "length (events sample_trace) = 2"
  by (rule sample_trace_shape) simp

lemma sample_trace_verifies: "verify_chain sample_trace = Inr True"
  unfolding sample_trace_def
  by (rule trace_run_verifies) (auto simp: new_recorder_def verify_chain_def clock_from_def sample_append_def)

subsection \<open>An asset for training\<close>

definition sample_train_draft :: asset where
  "sample_train_draft = (bench_draft (sample_day 4) (sample_day 6) 0)\<lparr>usage_constraints := []\<rparr>"

definition sample_train :: asset where
  "sample_train = sample_train_draft\<lparr>mandate_signature := hex (hmac_sha256 BENCH_KEY
     (case mandate_message sample_train_draft of Inl _ \<Rightarrow> [] | Inr m \<Rightarrow> m))\<rparr>"

definition sample_pipeline :: pipeline where
  "sample_pipeline = \<lparr>p_keys = bench_keys, p_rule_version = RULE_VERSION\<rparr>"

lemma sample_train_strings: "asset_strings sample_train_draft"
  using bench_strings [of "sample_day 4" "sample_day 6" 0] by (simp add: sample_train_draft_def asset_strings_def)

lemma sample_train_verifies: "verify_mandate sample_train BENCH_KEY = Inr True"
proof -
  obtain m where m: "mandate_message sample_train_draft = Inr m"
    using mandate_message_valid [OF sample_train_strings] by blast
  then have "sign_mandate sample_train_draft BENCH_KEY = Inr (hex (hmac_sha256 BENCH_KEY m))"
    by (simp add: sign_mandate_def)
  from verify_sign [OF this] m show ?thesis by (simp add: sample_train_def)
qed

lemma sample_train_ok: "asset_ok sample_train"
  using bench_draft_ok [OF sample_days(1), of 0] hex_lower
  by (auto simp: sample_train_def sample_train_draft_def asset_ok_def asset_fields_ok_def len_between_def)

lemma sample_train_admissible:
  "admissible sample_pipeline (lit ''tenant-bench'') (sample_day 5) sample_train"
  using sample_train_verifies sample_days
  by (simp add: admissible_def sample_pipeline_def sample_train_def sample_train_draft_def bench_draft_def bench_keys_def)

subsection \<open>Digests\<close>

definition sample_digest :: "nat \<Rightarrow> str" where
  "sample_digest c = c # replicate 63 48"

lemma sample_digest_text: "c < 128 \<Longrightarrow> digest_text (sample_digest c)"
  by (simp add: sample_digest_def digest_text_def)

lemma sample_digest_less: "c < d \<Longrightarrow> sample_digest c < sample_digest d"
  by (simp add: sample_digest_def)

lemma sample_separable: "separable sample_asset"
proof -
  have "124 \<notin> set (sha256_hex m)" for m
    using hex_lower [of 124 "sha256 m"] by (auto simp: sha256_hex_def is_lower_hex_def)
  moreover have "124 \<notin> set (dec 0)" by (simp add: dec.simps)
  ultimately show ?thesis
    by (auto simp: separable_def sample_asset_def bench_asset_def bench_draft_def bench_id_def lit_Cons)
qed

subsection \<open>A body for the service\<close>

lemma decode_dumps: "json_ok j \<Longrightarrow> decode_payload (map of_nat (dumps j)) = Inr (jsort j)"
proof -
  assume ok: "json_ok j"
  have enc: "utf8_encode (dumps j) = Inr (map of_nat (dumps j))"
    by (rule utf8_encode_ascii) (rule dumps_ascii [OF ok])
  from utf8_decode_encode [OF enc] loads_dumps [OF ok] show ?thesis by (simp add: decode_payload_def)
qed

definition sample_body :: bytes where
  "sample_body = map of_nat (dumps (JObj [(lit ''asset_id'', JStr (lit ''bench-asset-0''))]))"

lemma sample_body_decodes:
  "decode_payload sample_body = Inr (JObj [(lit ''asset_id'', JStr (lit ''bench-asset-0''))])"
  unfolding sample_body_def by (subst decode_dumps) (simp_all add: wf_dict_def valid_lit)

subsection \<open>Requests for the service's pool\<close>

text \<open>The pool after a revocation and an evaluation of the same asset, each handed in alone.\<close>

definition sample_wire :: reading where
  "sample_wire = sample_reading\<lparr>rd_elapsed := lit ''0.5''\<rparr>"

lemma sample_wire_text: "reading_text sample_wire"
proof -
  have "float_repr (lit ''0.5'')" by (simp add: float_repr_def number_text_def) code_simp
  then show ?thesis using sample_ns by (simp add: sample_wire_def reading_text_def sample_reading_def)
qed

definition sample_service :: running where
  "sample_service = seeded (sample_day 4) (sample_day 6)"

lemma sample_service_ok: "running_ok sample_service"
  by (simp add: sample_service_def seeded_ok)

definition sample_visit :: "str \<Rightarrow> nat \<Rightarrow> pool_op list" where
  "sample_visit path j = Posted sample_wire path sample_body # Take # replicate 6 (Go j)"

lemma sample_visit_text: "\<forall>opn\<in>set (sample_visit path j). posted_text opn"
  using sample_wire_text by (auto simp: sample_visit_def posted_text_def)

lemma sample_item: "json_item (JObj [(lit ''asset_id'', JStr (lit ''bench-asset-0''))]) (lit ''asset_id'')
    = Inr (JStr (lit ''bench-asset-0''))"
  by simp

definition sample_posted :: policy_request where
  "sample_posted = (default_request sample_wire)"

lemma sample_parses:
  "parse_request ascii_env sample_wire (JObj [(lit ''asset_id'', JStr (lit ''bench-asset-0''))]) = Inr sample_posted"
proof -
  have ns: "length (str_int (rd_ns sample_wire)) \<le> 100" using sample_ns by (simp add: sample_wire_def)
  from default_request_ok [OF ns] show ?thesis
    by (simp add: parse_request_def json_get_def checked_request_def new_request_def sample_posted_def)
      (simp add: default_request_def)
qed

lemma sample_tasks:
  "first_task ascii_env exn_name sample_wire (lit ''/revoke'') sample_body = To_withdraw (lit ''bench-asset-0'')"
  "first_task ascii_env exn_name sample_wire (lit ''/evaluate'') sample_body = To_evaluate sample_posted"
  by (simp_all add: first_task_def sample_body_decodes sample_parses)

text \<open>A visit that meets no other is answered as \<open>do_POST\<close> alone answers it.\<close>

lemma sample_visit_alone:
  assumes "\<forall>jb\<in>set (p_jobs s). is_replied (j_stage jb)" "j = length (p_jobs s)"
    and "path = lit ''/revoke'' \<or> path = lit ''/evaluate''"
    and "s' = foldl (pool_step ascii_env exn_name keys) s (sample_visit path j)"
    and "do_post ascii_env exn_name sample_wire path sample_body (Some (pool_running keys s)) = (res, sv)"
  shows "p_jobs s' ! j = (new_post sample_wire path sample_body)\<lparr>j_stage := Replied res\<rparr> \<and> sv = Some (pool_running keys s')
    \<and> length (p_jobs s') = Suc j"
proof -
  have idle: "\<forall>jb\<in>set (p_jobs s). j_stage jb \<noteq> Waiting" "filter at_work (p_jobs s) = []"
    using assms(1) by (auto simp: is_replied_iff at_work_def filter_empty_conv)
  have "consent_tokens sample_posted = []" by (simp add: sample_posted_def default_request_def)
  then have "post_left ascii_env exn_name (p_race s) (new_post sample_wire path sample_body) \<le> Suc 6"
    using assms(3) by (auto simp: post_left_def post_task_def new_post_def sample_tasks)
  from post_alone_kept [OF idle(1) _ this _ assms(5), of s'] idle(2) assms(2,4)
    length_run [of ascii_env exn_name keys s "sample_visit path j"]
  show ?thesis by (simp add: sample_visit_def POOL_WORKERS_def del: pool_step.simps)
qed

subsection \<open>A store among its callers\<close>

text \<open>A store with an asset, a connector and the connectors as its listener.\<close>

definition sample_hub_ops :: "hub_op list" where
  "sample_hub_ops = [Register_asset sample_asset, Listen, Connector_op (OpRegisterConnector (lit ''edge''))]"

definition sample_hub :: hub where
  "sample_hub = foldl (hub_step ascii_env) hub_start sample_hub_ops"

lemma sample_asset_id: "asset_id sample_asset = lit ''bench-asset-0''"
  using bench_zero by (simp add: sample_asset_def)

lemma sample_hub_eq:
  "sample_hub =
     \<lparr>h_store = \<lparr>assets = [(lit ''bench-asset-0'', sample_asset)], revoked_at = [], listeners = [quarantine]\<rparr>,
      h_registry = [(lit ''edge'', new_connector (lit ''edge''))], h_calls = []\<rparr>"
  by (simp add: sample_hub_def sample_hub_ops_def hub_start_def new_registry_def new_store_def register_def sample_asset_id
      add_revocation_listener_def register_connector_def)

subsection \<open>A load test and a run of the evidence script\<close>

text \<open>Numbers are already floats in this summary, so the conversion has nothing to round.\<close>

definition sample_float :: "json \<Rightarrow> exn + str" where
  "sample_float j = (case j of JFloat l \<Rightarrow> if float_repr l then Inr l else Inl TypeError | _ \<Rightarrow> Inl TypeError)"

lemma sample_float_conversion: "float_conversion sample_float"
  by (auto simp: float_conversion_def sample_float_def split: json.splits if_splits)

lemma sample_numbers: "float_repr (lit ''0.0'')" "float_repr (lit ''11.5'')" "float_repr (lit ''12.5'')"
  by (simp_all add: float_repr_def number_text_def, code_simp+)

definition sample_entry :: "string \<Rightarrow> json" where
  "sample_entry p95 = JObj [(lit ''p(95)'', JFloat (lit p95))]"

definition sample_metrics :: "(str, json) dict" where
  "sample_metrics =
     [(lit ''http_req_duration{load:1000rps}'', sample_entry ''12.5''),
      (lit ''http_req_duration{load:200rps}'', sample_entry ''11.5''),
      (lit ''http_req_duration{load:500rps}'', sample_entry ''11.5''),
      (lit ''http_req_failed'', JObj [])]"

definition sample_summary :: json where
  "sample_summary = JObj [(lit ''metrics'', JObj sample_metrics)]"

lemma sample_summary_loads: "loads (dumps_indent 0 sample_summary) = Inr sample_summary"
proof -
  have "json_text sample_summary"
    by (simp add: sample_summary_def sample_metrics_def sample_entry_def wf_dict_def valid_lit sample_numbers)
  from loads_layouts(1) [OF this, of 0] show ?thesis
    by (simp add: sample_summary_def sample_metrics_def sample_entry_def lit_Cons)
qed

lemma sample_extracts: "\<exists>res. extract_results ascii_env sample_float sample_summary = Inr res"
  using sample_numbers
  by (simp add: extract_results_def sample_summary_def json_get_def trend_def Let_def sample_metrics_def
      sample_entry_def dict_get_def any_true_def float_item_def sample_float_def zero_float_def lit_Cons)

definition sample_outside :: outside where
  "sample_outside =
     \<lparr>x_popen = (\<lambda>_. Inr ()), x_health = Inr (),
      x_k6 = (\<lambda>argv en fs. (Inr \<lparr>k6_code = 0, k6_out = [], k6_err = []\<rparr>,
        fs\<lparr>texts := dput (texts fs) SUMMARY_FILE (dumps_indent 0 sample_summary)\<rparr>)),
      x_environ = [], x_python = lit ''python'', x_recorded = lit ''now'', x_waited = Inr ()\<rparr>"

lemma sample_spares: "k6_spares sample_outside BENCH_FILE"
  by (simp add: k6_spares_def sample_outside_def SUMMARY_FILE_def BENCH_FILE_def dget_dput)

definition no_files :: files where
  "no_files = \<lparr>made = [], texts = []\<rparr>"

definition sample_machine :: machine where
  "sample_machine = \<lparr>m_files = no_files, m_out = [], m_err = [], m_service = None\<rparr>"

lemma sample_benchmark:
  "fst (benchmark_main ascii_env sample_float (\<lambda>_. Inr (lit ''1.00'')) sample_outside BENCH_PATH (lit ''localhost'') 8080 sample_machine) = Inr ()"
proof -
  let ?base = "lit ''http://'' @ lit ''localhost'' @ lit '':'' @ str_int 8080"
  obtain res where res: "extract_results ascii_env sample_float sample_summary = Inr res" using sample_extracts by blast
  have body: "fst (benchmark_body ascii_env sample_float (\<lambda>_. Inr (lit ''1.00'')) sample_outside SUMMARY_FILE BENCH_FILE ?base s) = Inr ()" for s
  proof (rule benchmark_body_succeeds [where proc = "\<lparr>k6_code = 0, k6_out = [], k6_err = []\<rparr>"
        and fs = "(m_files s)\<lparr>texts := dput (texts (m_files s)) SUMMARY_FILE (dumps_indent 0 sample_summary)\<rparr>",
        OF _ _ _ _ _ sample_summary_loads res sample_float_conversion])
    show "valid_str ?base" by (rule benchmark_base) (simp add: valid_lit)
  qed (simp_all add: sample_outside_def dget_dput valid_lit)
  have dirs: "\<exists>fs. make_dirs (butlast BENCH_PATH) no_files = (Inr (), fs)"
    by (simp add: make_dirs_def dirs_down_to_def BENCH_PATH_def no_files_def file_exists_def upt_rec)
  have x: "x_popen sample_outside argv = Inr ()" "x_waited sample_outside = Inr ()" for argv
    by (simp_all add: sample_outside_def)
  from dirs body show ?thesis
    unfolding benchmark_main_def Let_def bench_paths
    by (auto simp: seq_do_def at_files_def start_service_def give_def change_def with_finally_def stop_service_def set_process_def x
        sample_machine_def split: prod.split) (metis fst_conv sum.distinct(1))+
qed

definition sample_evidence :: evidence_reading where
  "sample_evidence =
     \<lparr>er_stamp = lit ''20260501T000000Z'', er_now = sample_day 5, er_since = sample_day 4, er_until = sample_day 6,
      er_tickets = (\<lambda>_. [1, 2, 3, 4, 5, 6]), er_draw = sample_draw, er_tool = (sample_day 5, 3),
      er_output = (sample_day 5, 4), er_log = (\<lambda>_. (lit ''now'', 5)), er_start_ns = 100, er_withdraw_ns = 150,
      er_end_ns = 200, er_posted = sample_day 5\<rparr>"

lemma sample_evidence_ok: "reading_ok sample_evidence"
  using sample_days by (simp add: reading_ok_def in_window_def sample_evidence_def sample_draw_def valid_lit)

definition sample_pydantic :: pydantic where
  "sample_pydantic =
     \<lparr>pd_decision = (\<lambda>d. JStr (state_value (d_state d))), pd_event = (\<lambda>e. JNull), pd_manifest = (\<lambda>m. JNull),
      pd_record = (\<lambda>r. Inr (record_id r))\<rparr>"

lemma sample_pydantic_ok: "pydantic_ok sample_pydantic"
proof -
  have "valid_str (state_value s)" for s by (cases s) (simp_all add: valid_lit)
  then show ?thesis by (simp add: pydantic_ok_def sample_pydantic_def)
qed


lemma sample_below: "below_twelve (lit ''11.5'')" "\<not> below_twelve (lit ''12.5'')"
  by code_simp+

lemma sample_within: "within_rights ascii_env bench_keys sample_request (sample_day 5) sample_asset"
  using sample_days bench_verifies [of "sample_day 4" "sample_day 6" 0] default_prompt_clean
  by (auto simp: within_rights_def sample_request_def default_request_def sample_asset_def bench_asset_def
      bench_draft_def bench_keys_def)

text \<open>Two threads number a line each and write them in the other order.\<close>

definition sample_log :: logger where
  "sample_log =
     emit_end 0 (emit_end 1 (emit_begin (lit ''INFO'') (lit ''b'') (lit ''now'') 2 None
       (emit_begin (lit ''INFO'') (lit ''a'') (lit ''now'') 1 None new_logger)))"

lemma sample_log_reach: "log_reach sample_log"
  unfolding sample_log_def by (intro log_reach.intros)

lemma sample_log_written: "map seq (written sample_log) = [1, 0]"
  by (simp add: sample_log_def emit_end_def emit_begin_def new_logger_def)

lemma sample_log_ok: "\<forall>r\<in>set (written sample_log). json_ok (log_json r)"
  by (simp add: sample_log_def emit_end_def emit_begin_def new_logger_def log_json_def wf_dict_def valid_lit)

subsection \<open>A request that makes the evaluation raise\<close>

text \<open>A naive time cannot be compared with the window of an asset.\<close>

definition naive_day :: "nat \<Rightarrow> datetime" where
  "naive_day m = (sample_day m)\<lparr>utcoffset := None\<rparr>"

lemma sample_naive_raises:
  "evaluate_inner ascii_env bench_keys sample_store [1] sample_request (naive_day 5) sample_gateway = (Inl TypeError, sample_gateway)"
proof -
  have "all_pass (checks ascii_env bench_keys sample_request (sample_day 5) sample_asset)"
    by (simp add: all_pass_iff sample_within)
  moreover have "dt_lt (naive_day 5) (valid_from sample_asset) = Inl TypeError"
    by (simp add: naive_day_def sample_asset_def bench_asset_def bench_draft_def sample_day_def epoch_def dt_lt_def comparable_def)
  moreover have "get_asset sample_store (req_asset_id sample_request) = Inr sample_asset"
    using sample_get by (simp add: sample_request_def default_request_def)
  ultimately show ?thesis
    by (simp add: evaluate_inner_rules all_pass_def checks_def window_check_def refuse_if_def)
qed

subsection \<open>A request with a lone surrogate\<close>

definition quiet_env :: pyenv where
  "quiet_env = ascii_env\<lparr>float_str := (\<lambda>_. [])\<rparr>"

lemma quiet_conversions: "conversions_ok quiet_env"
  using ascii_env_conversions by (simp add: conversions_ok_def quiet_env_def)

lemma quiet_texts: "texts_ok quiet_env exn_name"
  by (simp add: texts_ok_def quiet_env_def valid_exn_name)

definition sample_lone :: bytes where
  "sample_lone = map of_nat (dumps_plain (JObj [(lit ''asset_id'', JStr [0xD800])]))"

lemma sample_lone_decodes: "decode_payload sample_lone = Inr (JObj [(lit ''asset_id'', JStr [0xD800])])"
proof -
  have j: "json_text (JObj [(lit ''asset_id'', JStr [0xD800])])" by (simp add: wf_dict_def valid_lit)
  have "utf8_encode (dumps_plain (JObj [(lit ''asset_id'', JStr [0xD800])])) = Inr sample_lone"
    unfolding sample_lone_def by (rule utf8_encode_ascii) (rule dumps_plain_ascii [OF j])
  from utf8_decode_encode [OF this] loads_plain [OF j] show ?thesis by (simp add: decode_payload_def)
qed

lemma sample_lone_length: "length sample_lone = 22"
  by (simp add: sample_lone_def quote_def esc_char_def lit_Cons)

lemma sample_lone_unknown:
  "do_post quiet_env exn_name rd (lit ''/revoke'') sample_lone (Some (seeded (sample_day 4) (sample_day 6)))
     = (Inr (404, error_json [0xD800]), Some (seeded (sample_day 4) (sample_day 6)))"
proof -
  have v: "valid_str (bench_id i)" for i by (simp add: bench_id_def valid_lit valid_dec)
  have n: "\<not> valid_str [0xD800]" by (simp add: scalar_def)
  have "[0xD800] \<notin> bench_id ` {0..<8}"
  proof
    assume "[0xD800] \<in> bench_id ` {0..<8}"
    then obtain i where i: "[0xD800] = bench_id i" by blast
    have "valid_str [0xD800]" unfolding i by (rule v)
    with n show False by blast
  qed
  then have "dget (assets (sv_store (seeded (sample_day 4) (sample_day 6)))) [0xD800] = None"
    by (simp add: seeded_def map_of_eq_None_iff image_image comp_def)
  then have "withdraw (sv_store (seeded (sample_day 4) (sample_day 6))) [0xD800] ns () = Inl (AssetNotFound [0xD800])" for ns
    by (simp add: withdraw_def)
  then show ?thesis
    by (simp add: do_post_def handle_revoke_def sample_lone_decodes ensure_def Let_def lit_Cons)
qed

subsection \<open>A serialiser of ledger records\<close>

definition sample_dump :: "ledger_record \<Rightarrow> exn + str" where
  "sample_dump r =
     (if record_text r then Inr (dumps (JObj (record_fields r))) else Inl UnicodeEncodeError)"

lemma sample_dump_fields: "writes_fields sample_dump"
  unfolding writes_fields_def
proof (intro allI impI)
  fix r t assume "sample_dump r = Inr t"
  then have r: "record_text r" "t = dumps (JObj (record_fields r))" by (simp_all add: sample_dump_def split: if_splits)
  have wf: "wf_dict (record_fields r)" by (simp add: record_fields_def wf_dict_def lit_Cons)
  have "json_ok (JObj (record_fields r))"
    using wf r(1) by (simp add: record_text_def) (simp add: record_fields_def valid_lit)
  then have "loads t = Inr (jsort (JObj (record_fields r)))" unfolding r(2) by (rule loads_dumps)
  moreover obtain kvs where kvs: "jsort (JObj (record_fields r)) = JObj kvs" by simp
  moreover have "dget kvs k = Some v" if "(k, v) \<in> set (record_fields r)" for k v
  proof -
    have "dget (record_fields r) k = Some v" using wf that by (simp add: wf_dict_def map_of_eq_Some_iff)
    moreover have "jsort v = v" using that by (auto simp: record_fields_def)
    ultimately show ?thesis using dget_jsort [OF wf kvs, of k] by simp
  qed
  ultimately show "\<exists>kvs. loads t = Inr (JObj kvs) \<and> (\<forall>(k, v)\<in>set (record_fields r). dget kvs k = Some v)" by auto
qed

lemma sample_dumps:
  assumes "post_run ascii_env new_ledger (lit ''r1'') (PInt 100) sample_run (sample_day 5) = (Inr recs, s')"
  shows "dump_each sample_dump recs = Inr ()"
proof (rule dump_each_defined)
  fix r assume "r \<in> set recs"
  moreover obtain n where "recs = run_records (lit ''r1'') n (sample_day 5) sample_run"
    by (rule posted_run [OF ledger_inv_new assms]) blast
  moreover have "\<forall>c\<in>set sample_run. valid_str (fst c) \<and> valid_str (fst (snd c))"
    by (simp add: sample_run_def valid_lit)
  then have "\<forall>z\<in>set (zip sample_run xs). valid_str (fst (fst z)) \<and> valid_str (fst (snd (fst z)))" for xs :: "int list"
    by (auto dest!: set_zip_leftD)
  ultimately have "record_text r"
    unfolding run_records_def using mk_records_text [OF valid_lit] by blast
  then show "\<exists>t. sample_dump r = Inr t" by (simp add: sample_dump_def)
qed

lemma sample_replays:
  assumes p: "post_run ascii_env new_ledger (lit ''r1'') (PInt 100) sample_run (sample_day 5) = (Inr recs, s')"
  shows "replay_run sample_dump s' (lit ''r1'') (PInt 100) sample_run = Inr recs"
proof -
  obtain n shares where v: "PInt 100 = PInt n" and sh: "allocate_cents (PInt n) (weights sample_run) = Inr shares"
    and recs: "recs = run_records (lit ''r1'') n (sample_day 5) sample_run" and sl: "run_slice s' (lit ''r1'') = recs"
    by (rule posted_run [OF ledger_inv_new p]) blast
  have "replay_run sample_dump s' (lit ''r1'') (PInt n) sample_run = Inr recs"
    using replay_slice [OF sl [unfolded recs] _ sh, of sample_dump] sample_dumps [OF p] by (simp add: recs sample_run_def)
  with v show ?thesis by simp
qed

end
