(* ===== verification/EngineQueues.thy ===== *)
theory EngineQueues
  imports EngineThreadsProofs
begin

text \<open>
  The holding queues of the engine among threads: not only is what they hold held, but what is held
  is in them. A run that waits for review is found under its ticket, and a run that waits for a
  condition under its request, unless a later run of the request has been allowed and the hold
  released. Again each step of a call keeps this, whoever makes it.
\<close>

subsection \<open>What is held is queued\<close>

definition allowed_run :: "engine \<Rightarrow> str \<Rightarrow> bool" where
  "allowed_run e rid \<longleftrightarrow>
     (\<exists>v\<in>set (objects e). w_request_id v = rid \<and> (\<exists>d. decision v = Some d \<and> d_state d = ALLOWED))"

definition waits :: "engine \<Rightarrow> workflow_run \<Rightarrow> bool" where
  "waits e w \<longleftrightarrow>
     (w_state w = HELD_REVIEW \<longrightarrow>
        (\<exists>d t. decision w = Some d \<and> ticket_id d = Some t \<and> dget (review_queue e) t \<noteq> None))
     \<and> (w_state w = HELD_CONDITIONAL \<longrightarrow>
        dget (conditional_queue e) (w_request_id w) \<noteq> None \<or> allowed_run e (w_request_id w))"

definition queued :: "engine \<Rightarrow> bool" where
  "queued e \<longleftrightarrow> (\<forall>w\<in>set (objects e). waits e w)"

text \<open>What no step changes of a run, and what a step may add to the queues.\<close>

definition same_runs :: "engine \<Rightarrow> engine \<Rightarrow> bool" where
  "same_runs e e' \<longleftrightarrow>
     (\<forall>r<length (objects e). r < length (objects e')
        \<and> w_request_id (objects e' ! r) = w_request_id (objects e ! r)
        \<and> decision (objects e' ! r) = decision (objects e ! r))"

definition queues_grow :: "engine \<Rightarrow> engine \<Rightarrow> bool" where
  "queues_grow e e' \<longleftrightarrow>
     (\<forall>k. dget (review_queue e) k \<noteq> None \<longrightarrow> dget (review_queue e') k \<noteq> None)
     \<and> (\<forall>k. dget (conditional_queue e) k \<noteq> None \<longrightarrow> dget (conditional_queue e') k \<noteq> None)"

lemma allowed_run_mono: "same_runs e e' \<Longrightarrow> allowed_run e rid \<Longrightarrow> allowed_run e' rid"
  unfolding same_runs_def allowed_run_def by (metis in_set_conv_nth nth_mem)

lemma queued_grow:
  assumes "queued e" "same_runs e e'" "queues_grow e e'"
    and "\<And>r. r < length (objects e') \<Longrightarrow> waits e' (objects e' ! r)
      \<or> r < length (objects e) \<and> w_state (objects e' ! r) = w_state (objects e ! r)"
  shows "queued e'"
  unfolding queued_def
proof
  fix w assume "w \<in> set (objects e')"
  then obtain r where r: "r < length (objects e')" "w = objects e' ! r" by (metis in_set_conv_nth)
  show "waits e' w"
  proof (cases "waits e' (objects e' ! r)")
    case False
    with assms(4) [OF r(1)] have old: "r < length (objects e)" "w_state w = w_state (objects e ! r)"
      by (simp_all add: r(2))
    then have "waits e (objects e ! r)" using assms(1) by (simp add: queued_def)
    moreover have "w_request_id w = w_request_id (objects e ! r)" "decision w = decision (objects e ! r)"
      using assms(2) old(1) by (simp_all add: same_runs_def r(2))
    ultimately show ?thesis
      using old(2) assms(3) allowed_run_mono [OF assms(2)] unfolding waits_def queues_grow_def by metis
  qed (simp add: r(2))
qed

lemma queued_cong:
  "objects e' = objects e \<Longrightarrow> review_queue e' = review_queue e \<Longrightarrow> conditional_queue e' = conditional_queue e \<Longrightarrow>
     queued e' = queued e"
  by (simp add: queued_def waits_def allowed_run_def)

lemma same_runs_cong: "objects e' = objects e \<Longrightarrow> same_runs e e'"
  by (simp add: same_runs_def)

lemma same_runs_update:
  assumes "objects e' = (objects e)[r := w]" "w_request_id w = w_request_id (objects e ! r)" "decision w = decision (objects e ! r)"
  shows "same_runs e e'"
  unfolding same_runs_def
proof (intro allI impI)
  fix q assume "q < length (objects e)"
  then show "q < length (objects e') \<and> w_request_id (objects e' ! q) = w_request_id (objects e ! q)
      \<and> decision (objects e' ! q) = decision (objects e ! q)"
    using assms by (cases "q = r") simp_all
qed

definition keeps_queued :: "engine \<Rightarrow> engine \<Rightarrow> bool" where
  "keeps_queued e e' \<longleftrightarrow> same_runs e e' \<and> (queued e \<longrightarrow> queued e')"

lemma keeps_queued_cong:
  "objects e' = objects e \<Longrightarrow> review_queue e' = review_queue e \<Longrightarrow> conditional_queue e' = conditional_queue e \<Longrightarrow>
     keeps_queued e e'"
  using queued_cong [of e' e] by (simp add: keeps_queued_def same_runs_cong)

lemma keeps_queuedI:
  assumes "same_runs e e'" "queues_grow e e'"
    and "\<And>r. r < length (objects e') \<Longrightarrow> waits e' (objects e' ! r)
      \<or> r < length (objects e) \<and> w_state (objects e' ! r) = w_state (objects e ! r)"
  shows "keeps_queued e e'"
  using assms queued_grow unfolding keeps_queued_def by blast

text \<open>A run that is not held waits for nothing.\<close>

lemma waits_free: "w_state w \<notin> {HELD_REVIEW, HELD_CONDITIONAL} \<Longrightarrow> waits e w"
  by (simp add: waits_def)

lemma keeps_set_run:
  assumes "w_request_id (f (objects e ! r)) = w_request_id (objects e ! r)" "decision (f (objects e ! r)) = decision (objects e ! r)"
    and "w_state (f (objects e ! r)) = w_state (objects e ! r) \<or> w_state (f (objects e ! r)) = COMPLETED"
  shows "keeps_queued e (set_run e r f)"
proof (rule keeps_queuedI)
  show "same_runs e (set_run e r f)"
    by (rule same_runs_update [OF _ assms(1,2)]) (simp add: set_run_def)
  show "queues_grow e (set_run e r f)" by (simp add: queues_grow_def)
  fix q assume "q < length (objects (set_run e r f))"
  then show "waits (set_run e r f) (objects (set_run e r f) ! q)
      \<or> q < length (objects e) \<and> w_state (objects (set_run e r f) ! q) = w_state (objects e ! q)"
    using assms(3) by (cases "q = r") (auto simp: set_run_def intro: waits_free)
qed

subsection \<open>Each step of a call keeps it\<close>

lemma begin_queued: "keeps_queued e (snd (begin_work env k job e))"
  by (cases job)
     (auto simp: enter_gateway_def go_to_def raise_in_def Let_def keeps_queued_cong keeps_set_run split: option.split)

lemma emit_queued: "keeps_queued e (snd (append_then k next (emit e t rid ev act det)))"
proof -
  obtain rc where "snd (emit e t rid ev act det) = e\<lparr>trace := rc\<rparr>" by (rule emit_cases)
  then obtain x where out: "emit e t rid ev act det = (x, e\<lparr>trace := rc\<rparr>)" by (metis prod.collapse)
  show ?thesis
    by (cases x) (simp_all add: append_then_def out raise_in_def go_to_def keeps_queued_cong)
qed

lemma in_gateway_queued: "keeps_queued e (snd (in_gateway env keys store k th e))"
proof -
  have "keeps_queued e (e\<lparr>gateway := gs, objects := objects e @ [w]\<rparr>)" if "w_state w = PENDING" for gs w
    by (rule keeps_queuedI)
       (use that in \<open>auto simp: same_runs_def queues_grow_def nth_append less_Suc_eq intro: waits_free\<close>)
  then show ?thesis
    by (auto simp: in_gateway_def go_to_def raise_in_def make_run_def keeps_queued_cong
        split: prod.split phase.split sum.split)
qed

lemma filing_queued:
  assumes inv: "engine_inv e" and fresh: "fresh_run e k req r d"
  shows "keeps_queued e (snd (filing k req r d e))"
proof -
  let ?e = "snd (file_run e r (k_run_id k) req d)"
  have r: "r < length (objects e)" "decision (objects e ! r) = Some d" "w_request_id (objects e ! r) = req_id req"
    using fresh by (simp_all add: fresh_run_def)
  have "run_ok (objects e ! r)" using inv r(1) by (simp add: engine_inv_def)
  then have "decision_ok d" using r(2) by (simp add: run_ok_def)
  then have ticket: "\<exists>t. ticket_id d = Some t" if "d_state d = HUMAN_REVIEW"
    using that by (cases "ticket_id d") (simp_all add: decision_ok_def decision_post_init_def truthy_def)
  have "keeps_queued e ?e"
  proof (rule keeps_queuedI)
    obtain st where "objects ?e = (objects e)[r := (objects e ! r)\<lparr>w_state := st\<rparr>]" by (rule file_run_out)
    from same_runs_update [OF this] show "same_runs e ?e" by simp
    show "queues_grow e ?e"
      by (cases "d_state d"; cases "ticket_id d")
         (auto simp: file_run_def Let_def set_state_def queues_grow_def dget_dput)
    fix q assume "q < length (objects ?e)"
    then show "waits ?e (objects ?e ! q) \<or> q < length (objects e) \<and> w_state (objects ?e ! q) = w_state (objects e ! q)"
      using r ticket
      by (cases "q = r"; cases "d_state d"; cases "ticket_id d")
         (auto simp: file_run_def Let_def set_state_def set_run_def waits_def dget_dput)
  qed
  moreover have "snd (filing k req r d e) = ?e"
    by (auto simp: filing_def go_to_def raise_in_def split: prod.split sum.split job.split)
  ultimately show ?thesis by simp
qed

text \<open>A call that stands before its second lock knows the run it has filed.\<close>

definition settles :: "engine \<Rightarrow> worker \<Rightarrow> bool" where
  "settles e k \<longleftrightarrow>
     (\<forall>req r d. k_place k = Settling req r d \<longrightarrow>
        r < length (objects e) \<and> w_request_id (objects e ! r) = req_id req \<and> decision (objects e ! r) = Some d)"

lemma settles_stable: "settles e k \<Longrightarrow> same_runs e e' \<Longrightarrow> settles e' k"
  by (simp add: settles_def same_runs_def)

lemma settling_queued:
  assumes "settles e k" "k_place k = Settling req r d"
  shows "keeps_queued e (snd (settling k req r d e))"
proof -
  let ?e = "e\<lparr>conditional_queue := ddel (conditional_queue e) (req_id req)\<rparr>"
  have "queued ?e" if q: "queued e" "d_state d = ALLOWED"
    unfolding queued_def
  proof
    fix w assume "w \<in> set (objects ?e)"
    then have w: "waits e w" using q(1) by (simp add: queued_def)
    have "allowed_run e (req_id req)"
      using assms q(2) by (auto simp: settles_def allowed_run_def intro!: bexI [of _ "objects e ! r"])
    moreover have "allowed_run ?e = allowed_run e" by (rule ext) (simp add: allowed_run_def)
    ultimately show "waits ?e w" using w by (auto simp: waits_def dget_ddel)
  qed
  then have "keeps_queued e ?e" if "d_state d = ALLOWED"
    using that by (simp add: keeps_queued_def same_runs_cong)
  then show ?thesis by (simp add: settling_def go_to_def raise_in_def keeps_queued_cong)
qed

lemma work_queued:
  assumes "engine_inv e" "worker_ok env keys e k" "settles e k"
  shows "keeps_queued e (snd (work env keys store t k e))"
proof (cases "k_place k")
  case (Filing req r d)
  with assms(2) filing_queued [OF assms(1)] show ?thesis by (simp add: work_def worker_ok_def)
next
  case (Settling req r d)
  with settling_queued [OF assms(3) this] show ?thesis by (simp add: work_def)
qed (simp_all add: work_def begin_queued in_gateway_queued emit_queued keeps_queued_cong)

lemma append_then_place:
  "(\<forall>req r d. next \<noteq> Settling req r d) \<Longrightarrow> k_place (fst (append_then k next out)) \<noteq> Settling req r d"
  by (auto simp: append_then_def raise_in_def go_to_def split: prod.split sum.split)

lemma settles_elsewhere: "\<forall>req r d. k_place k \<noteq> Settling req r d \<Longrightarrow> settles e k"
  by (simp add: settles_def)

lemma begin_place: "k_place (fst (begin_work env k job e)) \<noteq> Settling req r d"
  by (cases job) (auto simp: enter_gateway_def go_to_def raise_in_def Let_def split: option.split)

lemma in_gateway_place: "k_place (fst (in_gateway env keys store k th e)) \<noteq> Settling req r d"
  by (auto simp: in_gateway_def go_to_def raise_in_def make_run_def split: prod.split phase.split sum.split)

lemma settling_place: "k_place (fst (settling k req r d e)) \<noteq> Settling req' r' d'"
  by (simp add: settling_def go_to_def raise_in_def)

lemma filing_settles:
  assumes "fresh_run e k req r d" shows "settles (snd (filing k req r d e)) (fst (filing k req r d e))"
proof -
  obtain x e1 where f: "file_run e r (k_run_id k) req d = (x, e1)" by force
  obtain st where e1: "objects e1 = (objects e)[r := (objects e ! r)\<lparr>w_state := st\<rparr>]"
    using file_run_out [of e r "k_run_id k" req d] f by auto
  show ?thesis
  proof (cases x)
    case (Inr q)
    then have "q = r" using file_run_fst [of e r "k_run_id k" req d q] f by simp
    with assms e1 Inr show ?thesis
      by (auto simp: filing_def f go_to_def settles_def fresh_run_def split: job.splits)
  qed (simp add: filing_def f raise_in_def go_to_def settles_def)
qed

lemma work_settles:
  assumes "worker_ok env keys e k"
  shows "settles (snd (work env keys store t k e)) (fst (work env keys store t k e))"
proof (cases "k_place k")
  case (Filing req r d)
  with assms have "fresh_run e k req r d" by (simp add: worker_ok_def)
  from filing_settles [OF this] Filing show ?thesis by (simp add: work_def)
qed (simp_all add: work_def settles_elsewhere begin_place in_gateway_place settling_place append_then_place)

subsection \<open>Every interleaving\<close>

definition office_queued :: "'s office \<Rightarrow> bool" where
  "office_queued s \<longleftrightarrow> queued (o_engine s) \<and> (\<forall>k\<in>set (o_workers s). settles (o_engine s) k)"

lemma office_step_queued:
  assumes inv: "office_inv env keys s" and q: "office_queued s"
  shows "office_queued (office_step env keys s opn)"
proof (cases opn)
  case (Call job ticket rid now)
  with q show ?thesis by (simp add: office_queued_def settles_elsewhere new_worker_def)
next
  case (Store so)
  with q show ?thesis by (simp add: office_queued_def split: prod.split)
next
  case (Step i t)
  show ?thesis
  proof (cases "i < length (o_workers s)")
    case True
    let ?k = "o_workers s ! i" and ?e = "o_engine s"
    obtain k e where w: "work env keys (o_store s) t ?k ?e = (k, e)" by force
    have ok: "engine_inv ?e" "worker_ok env keys ?e ?k" "settles ?e ?k"
      using inv q True by (simp_all add: office_inv_def office_queued_def)
    have keep: "same_runs ?e e" "queued e"
      using work_queued [OF ok, of "o_store s" t] w q by (simp_all add: keeps_queued_def office_queued_def)
    have "settles e k" using work_settles [OF ok(2), of "o_store s" t] w by simp
    moreover have "\<forall>u\<in>set (o_workers s). settles e u"
      using q settles_stable keep(1) by (auto simp: office_queued_def)
    ultimately have "\<forall>u\<in>set ((o_workers s)[i := k]). settles e u"
      using set_update_subset_insert [of "o_workers s" i k] by blast
    with keep(2) True w Step show ?thesis by (simp add: office_queued_def)
  qed (simp add: Step q)
qed

theorem office_reach_queued: "office_reach env keys s c \<Longrightarrow> queued (o_engine s)"
proof -
  have "office_queued s" if "office_reach env keys s c"
    using that
  proof (induction rule: office_reach.induct)
    case (start gs store x tid)
    show ?case by (simp add: office_start_def office_queued_def queued_def new_engine_def)
  next
    case (step s c opn)
    then show ?case using office_step_queued [OF office_reach_inv] by blast
  qed
  then show "office_reach env keys s c \<Longrightarrow> queued (o_engine s)" by (simp add: office_queued_def)
qed

end
